(* ===== verification/Prelude.thy ===== *)
theory Prelude
  imports Complex_Main
begin

text \<open>
  What every component shares: the exceptions of the program as values, results that are an
  exception or a value, Python's list indexing, and the generic facts on lists that more than
  one component uses.  The collection \<open>py_simps\<close> holds the equations of the result combinators
  and of indexing; proofs about a component say \<open>simp add: py_simps\<close>.
\<close>

named_theorems py_simps

section \<open>Exceptions and results\<close>

text \<open>
  One constructor per exception class the code raises itself (\<open>ProtocolError\<close>,
  \<open>RequestError\<close>, its subclass \<open>NotFoundError\<close>, \<open>ConnectionError\<close>, \<open>ValueError\<close>) or
  lets escape from the language and its library (\<open>IndexError\<close>, \<open>KeyError\<close>,
  \<open>ZeroDivisionError\<close>, \<open>UnicodeEncodeError\<close>, \<open>OSError\<close>, \<open>TimeoutError\<close>, \<open>TypeError\<close>,
  \<open>AttributeError\<close>, \<open>OverflowError\<close>, \<open>JSONDecodeError\<close>, \<open>AssertionError\<close>, \<open>SystemExit\<close> and, from \<open>sqlite3\<close>,
  \<open>IntegrityError\<close>, \<open>ProgrammingError\<close> and \<open>OperationalError\<close>).
\<close>

datatype exn =
    ProtocolError
  | RequestError
  | NotFoundError
  | ConnectionError
  | ValueError
  | IndexError
  | KeyError
  | ZeroDivisionError
  | UnicodeEncodeError
  | OSError
  | TimeoutError
  | TypeError
  | AttributeError
  | OverflowError
  | JSONDecodeError
  | IntegrityError
  | ProgrammingError
  | OperationalError
  | AssertionError
  | SystemExit

type_synonym 'a result = "exn + 'a"

fun bind_res :: "'a result \<Rightarrow> ('a \<Rightarrow> 'b result) \<Rightarrow> 'b result" where
  "bind_res (Inl e) f = Inl e"
| "bind_res (Inr x) f = f x"

lemma bind_res_cong [fundef_cong]:
  assumes "m = m'" and "\<And>x. m' = Inr x \<Longrightarrow> f x = g x"
  shows "bind_res m f = bind_res m' g"
  using assms by (cases m') auto

lemma bind_res_value [py_simps]:
  "(bind_res r k = Inr v) = (\<exists>a. k a = Inr v \<and> r = Inr a)"
  by (cases r) auto

lemma bind_res_error [py_simps]:
  "(bind_res r k = Inl e) = ((\<exists>a. k a = Inl e \<and> r = Inr a) \<or> r = Inl e)"
  by (cases r) auto

definition ok :: "'a result \<Rightarrow> bool" where
  "ok r \<longleftrightarrow> (case r of Inl _ \<Rightarrow> False | Inr _ \<Rightarrow> True)"

lemma ok_simps [simp]: "ok (Inr x)" "\<not> ok (Inl e)"
  by (simp_all add: ok_def)

lemma ok_iff: "ok r \<longleftrightarrow> (\<exists>x. r = Inr x)"
  by (cases r) simp_all

text \<open>The value of a result that is known to be one.\<close>

definition the_ok :: "'a list result \<Rightarrow> 'a list" where
  "the_ok r = (case r of Inl _ \<Rightarrow> [] | Inr x \<Rightarrow> x)"

lemma the_ok_Inr [simp]: "the_ok (Inr x) = x"
  by (simp add: the_ok_def)

section \<open>Python's list indexing\<close>

text \<open>A negative index counts from the end; anything out of range raises IndexError.\<close>

definition py_nth :: "'a list \<Rightarrow> int \<Rightarrow> 'a result" where
  "py_nth xs i =
     (if i < - int (length xs) \<or> int (length xs) \<le> i then Inl IndexError
      else if i < 0 then Inr (xs ! nat (int (length xs) + i))
      else Inr (xs ! nat i))"

lemma py_nth_in_range [py_simps]:
  "0 \<le> i \<Longrightarrow> i < int (length xs) \<Longrightarrow> py_nth xs i = Inr (xs ! nat i)"
  by (simp add: py_nth_def)

lemma py_nth_last:
  "xs \<noteq> [] \<Longrightarrow> py_nth xs (-1) = Inr (last xs)"
  by (cases xs) (auto simp: py_nth_def last_conv_nth nat_diff_distrib)

lemma py_nth_Nil [simp]: "py_nth [] i = Inl IndexError"
  by (auto simp: py_nth_def)

text \<open>The left-to-right sequencing of a list of results: the first exception wins.\<close>

fun seq_res :: "'a result list \<Rightarrow> 'a list result" where
  "seq_res [] = Inr []"
| "seq_res (r # rs) = bind_res r (\<lambda>x. bind_res (seq_res rs) (\<lambda>xs. Inr (x # xs)))"

lemma seq_res_Inr_map: "seq_res (map (\<lambda>i. Inr (f i)) xs) = Inr (map f xs)"
  by (induction xs) auto

section \<open>Lists\<close>

lemma takeWhile_append_hd:
  assumes "\<forall>x\<in>set xs. P x" and "ys = [] \<or> \<not> P (hd ys)"
  shows "takeWhile P (xs @ ys) = xs" and "dropWhile P (xs @ ys) = ys"
  using assms by (induction xs; cases ys; auto)+

lemma dropWhile_hd_id:
  "xs = [] \<or> \<not> P (hd xs) \<Longrightarrow> dropWhile P xs = xs"
  by (cases xs) auto

lemma sum_list_mono_prefix:
  fixes xs :: "'a :: ordered_comm_monoid_add list"
  assumes "\<forall>y\<in>set ys. 0 \<le> y"
  shows "sum_list xs \<le> sum_list (xs @ ys)"
  using assms sum_list_nonneg[of ys] by (simp add: add_increasing2)

text \<open>\<open>iota n\<close> is Python's \<open>range(n)\<close> as a list of integers.\<close>

definition iota :: "int \<Rightarrow> int list" where
  "iota n = map int [0..<nat n]"

lemma set_iota [simp]: "set (iota n) = {0..<n}"
  by (cases "0 \<le> n") (simp_all add: iota_def image_int_atLeastLessThan)

lemma length_iota [simp]: "length (iota n) = nat n"
  by (simp add: iota_def)

section \<open>Loading through a cache\<close>

text \<open>
  The interface between the segment store and its clients: a load may consult and extend a cache,
  but what it returns is what loading afresh returns, and the cache stays fit for that.
\<close>

fun run_loads :: "('c \<Rightarrow> 'k \<Rightarrow> 'v \<times> 'c) \<Rightarrow> 'c \<Rightarrow> 'k list \<Rightarrow> 'v list \<times> 'c" where
  "run_loads load c [] = ([], c)"
| "run_loads load c (k # ks) =
     (let (v, c') = load c k; (vs, c'') = run_loads load c' ks in (v # vs, c''))"

locale cached_loader =
  fixes load :: "'c \<Rightarrow> 'k \<Rightarrow> 'v \<times> 'c"
    and fresh :: "'k \<Rightarrow> 'v"
    and good :: "'c \<Rightarrow> bool"
    and start :: 'c
  assumes load_fresh: "good c \<Longrightarrow> fst (load c k) = fresh k"
    and load_good: "good c \<Longrightarrow> good (snd (load c k))"
    and start_good: "good start"
begin

lemma run_loads_fresh:
  assumes "good c"
  shows "fst (run_loads load c ks) = map fresh ks \<and> good (snd (run_loads load c ks))"
  using assms
proof (induction ks arbitrary: c)
  case (Cons k ks)
  obtain v c' where l: "load c k = (v, c')" by force
  then have "v = fresh k" and "good c'"
    using load_fresh[OF Cons.prems, of k] load_good[OF Cons.prems, of k] by simp_all
  then show ?case using Cons.IH[of c'] l by (simp add: case_prod_beta)
qed simp

lemma run_loads_start: "fst (run_loads load start ks) = map fresh ks"
  using run_loads_fresh[OF start_good] by simp

text \<open>Interleaving does not matter: a load sees the same value after any other loads.\<close>

lemma load_after_any: "fst (load (snd (run_loads load start ks)) k) = fresh k"
  using run_loads_fresh[OF start_good, of ks] load_fresh by simp

end

section \<open>State machines\<close>

inductive reachable :: "('s \<Rightarrow> bool) \<Rightarrow> ('s \<Rightarrow> 's \<Rightarrow> bool) \<Rightarrow> 's \<Rightarrow> bool" for init step where
  reach_init: "init s \<Longrightarrow> reachable init step s"
| reach_step: "reachable init step s \<Longrightarrow> step s t \<Longrightarrow> reachable init step t"

lemma reachable_mono:
  "reachable init step s \<Longrightarrow> (\<And>s. init s \<Longrightarrow> init' s) \<Longrightarrow> (\<And>s t. step s t \<Longrightarrow> step' s t) \<Longrightarrow> reachable init' step' s"
  by (induction rule: reachable.induct) (auto intro: reachable.intros)

text \<open>What every start state has and every step keeps holds in every reachable state.\<close>

locale machine_invariant =
  fixes init :: "'s \<Rightarrow> bool"
    and step :: "'s \<Rightarrow> 's \<Rightarrow> bool"
    and inv :: "'s \<Rightarrow> bool"
  assumes inv_init: "init s \<Longrightarrow> inv s"
    and inv_step: "inv s \<Longrightarrow> step s t \<Longrightarrow> inv t"
begin

lemma always: "reachable init step s \<Longrightarrow> inv s"
  by (induction rule: reachable.induct) (auto intro: inv_init inv_step)

end

text \<open>
  Infinite runs of several threads: in every position one thread takes a step or nothing happens, and a thread
  that can always move moves again and again.
\<close>

definition runs :: "('th \<Rightarrow> 's \<Rightarrow> 's \<Rightarrow> bool) \<Rightarrow> (nat \<Rightarrow> 's) \<Rightarrow> bool" where
  "runs step r \<longleftrightarrow> (\<forall>n. r (Suc n) = r n \<or> (\<exists>i. step i (r n) (r (Suc n))))"

definition fair :: "('th \<Rightarrow> 's \<Rightarrow> 's \<Rightarrow> bool) \<Rightarrow> (nat \<Rightarrow> 's) \<Rightarrow> bool" where
  "fair step r \<longleftrightarrow> (\<forall>i n. \<exists>k\<ge>n. step i (r k) (r (Suc k)) \<or> \<not> (\<exists>t. step i (r k) t))"

text \<open>
  Before the goal there is a helpful thread: it can move, its steps lower the rank, and the steps of the others
  lower the rank or leave both the rank and the helpful thread as they are.
\<close>

locale fair_progress =
  fixes step :: "'th \<Rightarrow> 's \<Rightarrow> 's \<Rightarrow> bool"
    and inv :: "'s \<Rightarrow> bool"
    and goal :: "'s \<Rightarrow> bool"
    and helpful :: "'s \<Rightarrow> 'th"
    and rank :: "'s \<Rightarrow> nat"
  assumes kept: "inv s \<Longrightarrow> step i s t \<Longrightarrow> inv t"
    and can_move: "inv s \<Longrightarrow> \<not> goal s \<Longrightarrow> \<exists>t. step (helpful s) s t"
    and lowers: "inv s \<Longrightarrow> \<not> goal s \<Longrightarrow> step (helpful s) s t \<Longrightarrow> rank t < rank s"
    and no_harm: "inv s \<Longrightarrow> \<not> goal s \<Longrightarrow> step i s t \<Longrightarrow> rank t < rank s \<or> rank t = rank s \<and> helpful t = helpful s"

text \<open>The invariant part of it is a \<open>machine_invariant\<close>, whose states include those of every run.\<close>

sublocale fair_progress \<subseteq> machine: machine_invariant inv "\<lambda>s t. \<exists>i. step i s t" inv
  by unfold_locales (auto intro: kept)

context fair_progress
begin

lemma run_reachable: "runs step r \<Longrightarrow> inv (r 0) \<Longrightarrow> reachable inv (\<lambda>s t. \<exists>i. step i s t) (r n)"
proof (induction n)
  case (Suc n)
  then have "r (Suc n) = r n \<or> (\<exists>i. step i (r n) (r (Suc n)))" by (simp add: runs_def)
  with Suc show ?case by (auto intro: reach_step)
qed (rule reach_init)

lemma run_inv: "runs step r \<Longrightarrow> inv (r 0) \<Longrightarrow> inv (r n)"
  by (rule machine.always[OF run_reachable])

lemma settled:
  assumes "runs step r" and "inv (r 0)" and "\<And>n. \<not> goal (r n)" and "\<And>k. n \<le> k \<Longrightarrow> rank (r n) \<le> rank (r k)"
  shows "n \<le> k \<Longrightarrow> rank (r k) = rank (r n) \<and> helpful (r k) = helpful (r n)"
proof (induction k rule: dec_induct)
  case (step k)
  note i = run_inv[OF assms(1,2), of k]
  have "r (Suc k) = r k \<or> (\<exists>i. step i (r k) (r (Suc k)))" using assms(1) by (simp add: runs_def)
  then have "rank (r (Suc k)) < rank (r k) \<or> rank (r (Suc k)) = rank (r k) \<and> helpful (r (Suc k)) = helpful (r k)"
    using no_harm[OF i assms(3)] by auto
  then show ?case using step assms(4)[of "Suc k"] by auto
qed simp

lemma reaches_goal:
  assumes "runs step r" and "fair step r" and "inv (r 0)"
  shows "\<exists>n. goal (r n)"
proof (rule ccontr)
  assume "\<not> ?thesis"
  then have g: "\<not> goal (r n)" for n by blast
  have "\<exists>k\<ge>n. rank (r k) < rank (r n)" for n
  proof (rule ccontr)
    assume "\<not> ?thesis"
    then have s: "n \<le> k \<Longrightarrow> rank (r k) = rank (r n) \<and> helpful (r k) = helpful (r n)" for k
      by (intro settled[OF assms(1,3) g]) (auto simp: not_less)
    obtain k where k: "n \<le> k" "step (helpful (r n)) (r k) (r (Suc k)) \<or> \<not> (\<exists>t. step (helpful (r n)) (r k) t)"
      using assms(2) unfolding fair_def by meson
    note i = run_inv[OF assms(1,3), of k]
    have "step (helpful (r k)) (r k) (r (Suc k))" using k(2) can_move[OF i g] s[OF k(1)] by metis
    from lowers[OF i g this] show False using s[OF k(1)] s[of "Suc k"] k(1) by simp
  qed
  then have "False" if "rank (r n) = x" for n x
    using that by (induction x arbitrary: n rule: less_induct) metis
  then show False by blast
qed

end

end
