(* ===== verification/PyFloat.thy ===== *)
theory PyFloat
  imports Prelude
begin

text \<open>
  Python's \<open>float\<close>.  A float is a real number of the binary64 grid, and every arithmetic
  operation of the program is the exact operation followed by \<open>fl\<close>, rounding to the nearest
  grid point with ties to even (53 significant bits, subnormals down to \<open>2 ^ -1074\<close>).  So
  \<open>a * b\<close> in the source is \<open>fl (a * b)\<close> here, a literal \<open>0.3\<close> is \<open>fl (3 / 10)\<close>, and a sum
  of three terms rounds twice, in the order the source adds them.  What the model leaves out is
  the top of the range: a result of magnitude \<open>2 ^ 1024\<close> or more, which is infinite in Python,
  is still rounded to 53 bits here, and there is no NaN and no negative zero.
\<close>

section \<open>Rounding to an integer, ties to even\<close>

definition round_even :: "real \<Rightarrow> int" where
  "round_even x =
     (let f = \<lfloor>x\<rfloor>; d = x - of_int f
      in if d < 1 / 2 then f
         else if 1 / 2 < d then f + 1
         else if even f then f else f + 1)"

lemma round_even_of_int [simp]: "round_even (of_int n) = n"
  by (simp add: round_even_def)

lemma round_even_bounds: "\<lfloor>x\<rfloor> \<le> round_even x \<and> round_even x \<le> \<lfloor>x\<rfloor> + 1"
  by (simp add: round_even_def Let_def)

lemma round_even_error: "\<bar>of_int (round_even x) - x\<bar> \<le> 1 / 2"
  unfolding round_even_def Let_def by (auto split: if_splits)

lemma round_even_mono: "x \<le> y \<Longrightarrow> round_even x \<le> round_even y"
proof -
  assume le: "x \<le> y"
  show ?thesis
  proof (cases "\<lfloor>x\<rfloor> = \<lfloor>y\<rfloor>")
    case True
    with le show ?thesis by (auto simp: round_even_def Let_def)
  next
    case False
    with floor_mono[OF le] have "\<lfloor>x\<rfloor> + 1 \<le> \<lfloor>y\<rfloor>" by linarith
    with round_even_bounds[of x] round_even_bounds[of y] show ?thesis by linarith
  qed
qed

lemma round_even_minus: "round_even (- x) = - round_even x"
proof (cases "x = of_int \<lfloor>x\<rfloor>")
  case True
  then have "round_even (- x) = round_even (of_int (- \<lfloor>x\<rfloor>))"
    by (metis of_int_minus)
  also have "\<dots> = - round_even (of_int \<lfloor>x\<rfloor>)" by (simp only: round_even_of_int)
  also have "\<dots> = - round_even x" using True by metis
  finally show ?thesis .
next
  case False
  then have "\<lfloor>- x\<rfloor> = - \<lfloor>x\<rfloor> - 1" by linarith
  then show ?thesis by (auto simp: round_even_def Let_def)
qed

section \<open>The binary64 grid\<close>

text \<open>The exponent of the last place of a result of size \<open>x\<close>.\<close>

definition fexp :: "real \<Rightarrow> int" where
  "fexp x = max (\<lfloor>log 2 \<bar>x\<bar>\<rfloor> - 52) (-1074)"

definition fl :: "real \<Rightarrow> real" where
  "fl x = (if x = 0 then 0
           else of_int (round_even (x * 2 powi (- fexp x))) * 2 powi fexp x)"

text \<open>The grid itself: the values a float can have.\<close>

definition is_float :: "real \<Rightarrow> bool" where
  "is_float x \<longleftrightarrow> (\<exists>m e. x = of_int m * 2 powi e \<and> \<bar>m\<bar> \<le> 2 ^ 53 \<and> -1074 \<le> e)"

lemma powi2_pos [simp]: "(0::real) < 2 powi e"
  by simp

lemma powi2_nonneg [simp]: "(0::real) \<le> 2 powi e"
  by simp

lemma powi2_add: "(2::real) powi (a + b) = 2 powi a * 2 powi b"
  by (simp add: power_int_add)

lemma powi2_inverse [simp]: "(2::real) powi a * 2 powi (- a) = 1" "(2::real) powi (- a) * 2 powi a = 1"
  using powi2_add[of a "- a"] powi2_add[of "- a" a] by simp_all

lemma powi2_mono: "a \<le> b \<Longrightarrow> (2::real) powi a \<le> 2 powi b"
  by (simp add: power_int_increasing)

lemma powi2_nat: "0 \<le> e \<Longrightarrow> (2::real) powi e = of_int (2 ^ nat e)"
  by (simp add: power_int_def)

lemma powr_powi2: "(2::real) powr of_int k = 2 powi k"
  by (simp add: powr_real_of_int' power_int_def powr_minus_divide)

lemma log2_bounds:
  assumes "x \<noteq> 0"
  shows "2 powi \<lfloor>log 2 \<bar>x\<bar>\<rfloor> \<le> \<bar>x\<bar>" and "\<bar>x\<bar> < 2 powi (\<lfloor>log 2 \<bar>x\<bar>\<rfloor> + 1)"
  using assms floor_log_eq_powr_iff[of "\<bar>x\<bar>" 2 "\<lfloor>log 2 \<bar>x\<bar>\<rfloor>"]
  by (simp_all flip: powr_powi2)

lemma floor_log2_eqI: "0 < x \<Longrightarrow> 2 powi k \<le> x \<Longrightarrow> x < 2 powi (k + 1) \<Longrightarrow> \<lfloor>log 2 x\<rfloor> = k"
  by (simp only: floor_log_eq_powr_iff powr_powi2 simp_thms one_less_numeral_iff semiring_norm)

lemma log2_less:
  assumes "x \<noteq> 0" and "\<bar>x\<bar> < 2 powi k"
  shows "\<lfloor>log 2 \<bar>x\<bar>\<rfloor> < k"
proof (rule ccontr)
  assume "\<not> ?thesis"
  then have "2 powi k \<le> (2::real) powi \<lfloor>log 2 \<bar>x\<bar>\<rfloor>" by (simp add: powi2_mono)
  with log2_bounds(1)[OF assms(1)] assms(2) show False by linarith
qed

lemma fexp_minus [simp]: "fexp (- x) = fexp x"
  by (simp add: fexp_def)

lemma fexp_mono: "x \<noteq> 0 \<Longrightarrow> \<bar>x\<bar> \<le> \<bar>y\<bar> \<Longrightarrow> fexp x \<le> fexp y"
proof -
  assume "x \<noteq> 0" "\<bar>x\<bar> \<le> \<bar>y\<bar>"
  then have "\<lfloor>log 2 \<bar>x\<bar>\<rfloor> \<le> \<lfloor>log 2 \<bar>y\<bar>\<rfloor>" by (intro floor_mono) simp
  then show ?thesis by (simp add: fexp_def)
qed

lemma fl_0 [simp]: "fl 0 = 0"
  by (simp add: fl_def)

lemma fl_minus [simp]: "fl (- x) = - fl x"
  by (simp add: fl_def round_even_minus)

text \<open>The scaled value fits 53 bits.\<close>

lemma scaled_less:
  assumes "x \<noteq> 0"
  shows "\<bar>x * 2 powi (- fexp x)\<bar> < 2 ^ 53"
proof -
  have "\<bar>x\<bar> < 2 powi (\<lfloor>log 2 \<bar>x\<bar>\<rfloor> + 1)" by (rule log2_bounds(2)[OF assms])
  also have "\<dots> \<le> 2 powi (fexp x + 53)" by (rule powi2_mono) (simp add: fexp_def)
  finally have "\<bar>x\<bar> * 2 powi (- fexp x) < 2 powi (fexp x + 53) * 2 powi (- fexp x)"
    by (rule mult_strict_right_mono) simp
  also have "\<dots> = 2 powi (53 + (fexp x + - fexp x))"
    by (simp only: powi2_add mult_ac)
  finally show ?thesis by (simp add: abs_mult)
qed

lemma is_float_fl [simp]: "is_float (fl x)"
proof (cases "x = 0")
  case True
  then show ?thesis by (auto simp: is_float_def intro!: exI[of _ "0::int"])
next
  case False
  let ?z = "x * 2 powi (- fexp x)"
  have "\<bar>?z\<bar> < of_int (2 ^ 53)" using scaled_less[OF False] by simp
  then have "\<bar>round_even ?z\<bar> \<le> 2 ^ 53"
    using round_even_mono[of ?z "of_int (2 ^ 53)"] round_even_mono[of "of_int (- (2 ^ 53))" ?z]
    unfolding round_even_of_int by linarith
  moreover have "-1074 \<le> fexp x" by (simp add: fexp_def)
  ultimately show ?thesis using False by (auto simp: is_float_def fl_def)
qed

lemma fl_is_float:
  assumes "is_float x"
  shows "fl x = x"
proof (cases "x = 0")
  case True
  then show ?thesis by simp
next
  case False
  obtain m0 e0 where m0: "x = of_int m0 * 2 powi e0" "\<bar>m0\<bar> \<le> 2 ^ 53" "-1074 \<le> e0"
    using assms by (auto simp: is_float_def)
  obtain m e where m: "x = of_int m * 2 powi e" "\<bar>m\<bar> < 2 ^ 53" "-1074 \<le> e"
  proof (cases "\<bar>m0\<bar> = 2 ^ 53")
    case True
    have "m0 = 2 ^ 53 \<or> m0 = - (2 ^ 53)" using True by linarith
    then have "(m0 div 2) * 2 = m0" by auto
    then have "(of_int m0 :: real) = of_int (m0 div 2) * 2" by (metis of_int_mult of_int_numeral)
    then have "x = of_int (m0 div 2) * 2 powi (e0 + 1)" using m0(1) by (simp add: powi2_add)
    moreover have "\<bar>m0 div 2\<bar> < 2 ^ 53" using \<open>m0 = 2 ^ 53 \<or> m0 = - (2 ^ 53)\<close> by auto
    ultimately show ?thesis using that m0(3) by force
  next
    case False
    then show ?thesis using that m0 by force
  qed
  have "\<bar>x\<bar> < 2 powi (53 + e)"
  proof -
    have "\<bar>of_int m :: real\<bar> < 2 ^ 53" using m(2) by (metis of_int_abs of_int_less_numeral_power_cancel_iff)
    then show ?thesis by (simp add: m(1) abs_mult powi2_add)
  qed
  then have "\<lfloor>log 2 \<bar>x\<bar>\<rfloor> - 52 \<le> e" using log2_less[OF False] by fastforce
  with m(3) have le: "fexp x \<le> e" by (simp add: fexp_def)
  have "x * 2 powi (- fexp x) = of_int m * 2 powi (e - fexp x)"
    using m(1) powi2_add[of e "- fexp x"] by simp
  also have "\<dots> = of_int (m * 2 ^ nat (e - fexp x))"
    using powi2_nat[of "e - fexp x"] le by simp
  finally have z: "x * 2 powi (- fexp x) = of_int (m * 2 ^ nat (e - fexp x))" .
  then have "fl x = x * 2 powi (- fexp x) * 2 powi fexp x"
    using False by (simp only: fl_def z round_even_of_int if_False)
  also have "\<dots> = x" by (simp add: mult.assoc)
  finally show ?thesis .
qed

lemma fl_idem [simp]: "fl (fl x) = fl x"
  by (rule fl_is_float) simp

section \<open>Rounding is monotone\<close>

lemma fl_mono_pos:
  assumes "0 < x" and "x \<le> y"
  shows "fl x \<le> fl y"
proof (cases "fexp x = fexp y")
  case True
  have "x * 2 powi (- fexp x) \<le> y * 2 powi (- fexp x)"
    using assms by (simp add: mult_right_mono)
  from round_even_mono[OF this] True assms show ?thesis
    by (simp add: fl_def mult_right_mono)
next
  case False
  define k where "k = \<lfloor>log 2 \<bar>y\<bar>\<rfloor>"
  have lt: "fexp x < fexp y" using False fexp_mono[of x y] assms by simp
  then have ey: "fexp y = k - 52" unfolding fexp_def k_def by linarith
  have "\<lfloor>log 2 \<bar>x\<bar>\<rfloor> + 1 \<le> k" using lt ey by (simp add: fexp_def)
  then have "x < 2 powi k"
    using log2_bounds(2)[of x] assms powi2_mono[of "\<lfloor>log 2 \<bar>x\<bar>\<rfloor> + 1" k] by simp
  have "x * 2 powi (- fexp x) \<le> 2 powi k * 2 powi (- fexp x)"
    using \<open>x < 2 powi k\<close> by (simp add: mult_right_mono)
  also have "\<dots> = of_int (2 ^ nat (k - fexp x))"
    using powi2_add[of k "- fexp x"] powi2_nat[of "k - fexp x"] lt ey by simp
  finally have "round_even (x * 2 powi (- fexp x)) \<le> 2 ^ nat (k - fexp x)"
    using round_even_mono round_even_of_int by metis
  then have "of_int (round_even (x * 2 powi (- fexp x))) \<le> (2::real) powi (k - fexp x)"
    using powi2_nat[of "k - fexp x"] lt ey
    by (simp flip: of_int_power of_int_le_iff)
  then have "of_int (round_even (x * 2 powi (- fexp x))) * 2 powi fexp x
      \<le> 2 powi (k - fexp x) * (2::real) powi fexp x"
    by (rule mult_right_mono) simp
  then have "fl x \<le> 2 powi k"
    using assms powi2_add[of "k - fexp x" "fexp x"] by (simp add: fl_def)
  moreover have "2 powi k \<le> fl y"
  proof -
    have "2 powi k \<le> y" using log2_bounds(1)[of y] assms by (simp add: k_def)
    then have "2 powi k * 2 powi (- fexp y) \<le> y * 2 powi (- fexp y)" by (simp add: mult_right_mono)
    moreover have "2 powi k * 2 powi (- fexp y) = (of_int (2 ^ 52) :: real)"
      using powi2_add[of k "- fexp y"] ey by simp
    ultimately have "2 ^ 52 \<le> round_even (y * 2 powi (- fexp y))"
      using round_even_mono round_even_of_int by metis
    then have "(2::real) ^ 52 \<le> of_int (round_even (y * 2 powi (- fexp y)))"
      by (metis of_int_le_iff of_int_numeral of_int_power)
    then have "2 ^ 52 * 2 powi fexp y \<le> fl y"
      using assms by (simp add: fl_def mult_right_mono)
    moreover have "2 ^ 52 * 2 powi fexp y = (2::real) powi k"
      using powi2_add[of 52 "fexp y"] ey by simp
    ultimately show ?thesis by simp
  qed
  ultimately show ?thesis by linarith
qed

lemma fl_nonneg [simp]: "0 \<le> x \<Longrightarrow> 0 \<le> fl x"
proof (cases "x = 0")
  case False
  assume "0 \<le> x"
  then have "round_even (of_int 0) \<le> round_even (x * 2 powi (- fexp x))"
    by (intro round_even_mono) simp
  then show ?thesis using False by (simp add: fl_def del: of_int_0)
qed simp

lemma fl_mono: "x \<le> y \<Longrightarrow> fl x \<le> fl y"
proof -
  assume le: "x \<le> y"
  consider "0 < x" | "x \<le> 0" "0 \<le> y" | "y < 0" by linarith
  then show ?thesis
  proof cases
    case 1
    then show ?thesis using le by (rule fl_mono_pos)
  next
    case 2
    then have "0 \<le> fl y" and "0 \<le> - fl x" using fl_nonneg[of y] fl_nonneg[of "- x"] by simp_all
    then show ?thesis by linarith
  next
    case 3
    then show ?thesis using fl_mono_pos[of "- y" "- x"] le by simp
  qed
qed

lemma fl_le_iff_float: "is_float y \<Longrightarrow> x \<le> y \<Longrightarrow> fl x \<le> y"
  using fl_mono[of x y] fl_is_float by simp

lemma fl_ge_iff_float: "is_float y \<Longrightarrow> y \<le> x \<Longrightarrow> y \<le> fl x"
  using fl_mono[of y x] fl_is_float by simp

lemma fl_nonpos [simp]: "x \<le> 0 \<Longrightarrow> fl x \<le> 0"
  using fl_mono[of x 0] by simp

section \<open>What the algorithms need of rounding\<close>

text \<open>
  The decisions of the client compare rounded expressions.  Their ordering properties need only
  this much of the rounding; they are proved here once and hold for \<open>fl\<close> below.
\<close>

locale rounding =
  fixes rnd :: "real \<Rightarrow> real"
  assumes rnd_mono: "x \<le> y \<Longrightarrow> rnd x \<le> rnd y"
    and rnd_0: "rnd 0 = 0"
    and rnd_idem: "rnd (rnd x) = rnd x"
begin

lemma rnd_nonneg: "0 \<le> x \<Longrightarrow> 0 \<le> rnd x"
  using rnd_mono[of 0 x] rnd_0 by simp

lemma rnd_nonpos: "x \<le> 0 \<Longrightarrow> rnd x \<le> 0"
  using rnd_mono[of x 0] rnd_0 by simp

lemma rnd_add_mono: "a \<le> a' \<Longrightarrow> b \<le> b' \<Longrightarrow> rnd (rnd a + rnd b) \<le> rnd (rnd a' + rnd b')"
  by (intro rnd_mono add_mono)

lemma rnd_scale_mono: "0 \<le> c \<Longrightarrow> a \<le> b \<Longrightarrow> rnd (c * a) \<le> rnd (c * b)"
  by (intro rnd_mono mult_left_mono)

text \<open>A difference never changes sign by rounding.\<close>

lemma rnd_diff_nonneg: "b \<le> a \<Longrightarrow> 0 \<le> rnd (a - b)"
  by (simp add: rnd_nonneg)

text \<open>A point a fraction of the way, computed from left to right, moves up with the fraction.\<close>

lemma rnd_step_mono:
  "0 \<le> d \<Longrightarrow> 0 < m \<Longrightarrow> i \<le> j \<Longrightarrow>
   rnd (a + rnd (rnd (d * i) / m)) \<le> rnd (a + rnd (rnd (d * j) / m))"
  by (intro rnd_mono add_mono order_refl divide_right_mono rnd_scale_mono) simp_all

text \<open>A weighted sum with weights of one sign keeps that sign and follows its arguments.\<close>

lemma rnd_blend_mono:
  "0 \<le> a \<Longrightarrow> 0 \<le> b \<Longrightarrow> x \<le> x' \<Longrightarrow> y \<le> y' \<Longrightarrow>
   rnd (rnd (a * x) + rnd (b * y)) \<le> rnd (rnd (a * x') + rnd (b * y'))"
  by (intro rnd_mono add_mono rnd_scale_mono)

lemma rnd_blend_nonneg:
  "0 \<le> a \<Longrightarrow> 0 \<le> b \<Longrightarrow> 0 \<le> x \<Longrightarrow> 0 \<le> y \<Longrightarrow> 0 \<le> rnd (rnd (a * x) + rnd (b * y))"
  by (intro rnd_nonneg add_nonneg_nonneg mult_nonneg_nonneg)

end

interpretation fl: rounding fl
  by unfold_locales (simp_all add: fl_mono)

section \<open>Values that rounding keeps\<close>

text \<open>
  Integers up to \<open>2 ^ 53\<close> and halves, quarters, ... of them are floats.  The first rules are
  conditional simp rules, so that a run on whole seconds and bits evaluates without unfolding
  \<open>fl\<close>.
\<close>

lemma is_float_of_int: "\<bar>n\<bar> \<le> 2 ^ 53 \<Longrightarrow> is_float (of_int n)"
  unfolding is_float_def by (intro exI[of _ n] exI[of _ "0::int"]) simp

lemma is_float_scaled: "\<bar>n\<bar> \<le> 2 ^ 53 \<Longrightarrow> k \<le> 1074 \<Longrightarrow> is_float (of_int n / 2 ^ k)"
  unfolding is_float_def
  by (intro exI[of _ n] exI[of _ "- int k"]) (simp add: power_int_minus divide_inverse)

lemma fl_of_int: "\<bar>n\<bar> \<le> 2 ^ 53 \<Longrightarrow> fl (of_int n) = of_int n"
  by (rule fl_is_float) (rule is_float_of_int)

lemma fl_of_int_simp [simp]: "n \<le> 2 ^ 53 \<Longrightarrow> - (2 ^ 53) \<le> n \<Longrightarrow> fl (of_int n) = of_int n"
  by (rule fl_of_int) simp

lemma fl_of_nat_simp [simp]: "n \<le> 2 ^ 53 \<Longrightarrow> fl (of_nat n) = of_nat n"
proof -
  assume "n \<le> 2 ^ 53"
  then have "int n \<le> int (2 ^ 53)" by (rule of_nat_mono)
  then show ?thesis using fl_of_int[of "int n"] by simp
qed

lemma fl_numeral [simp]: "(numeral n :: real) \<le> 9007199254740992 \<Longrightarrow> fl (numeral n) = numeral n"
  using fl_of_int[of "numeral n"] by simp

lemma fl_1 [simp]: "fl 1 = 1"
  using fl_of_int[of 1] by simp

lemma is_float_0 [simp]: "is_float 0" and is_float_1 [simp]: "is_float 1"
  using is_float_of_int[of 0] is_float_of_int[of 1] by simp_all

lemma is_float_numeral [simp]: "(numeral n :: real) \<le> 9007199254740992 \<Longrightarrow> is_float (numeral n)"
  using is_float_of_int[of "numeral n"] by simp

lemma is_float_minus [simp]: "is_float (- x) \<longleftrightarrow> is_float x"
proof -
  have "is_float x \<Longrightarrow> is_float (- x)" for x
    by (metis fl_is_float fl_minus is_float_fl)
  from this[of x] this[of "- x"] show ?thesis by auto
qed

text \<open>Rounding up to a float from below, and down to it from above.\<close>

lemma fl_le_numeral: "x \<le> numeral n \<Longrightarrow> (numeral n :: real) \<le> 9007199254740992 \<Longrightarrow> fl x \<le> numeral n"
  by (rule fl_le_iff_float) simp_all

lemma fl_ge_numeral: "numeral n \<le> x \<Longrightarrow> (numeral n :: real) \<le> 9007199254740992 \<Longrightarrow> numeral n \<le> fl x"
  by (rule fl_ge_iff_float) simp_all

lemma fl_le_1: "x \<le> 1 \<Longrightarrow> fl x \<le> 1"
  by (rule fl_le_iff_float) simp_all

text \<open>Floats are multiples of the least positive one, so a difference of two floats never rounds to 0.\<close>

lemma is_float_multiple: "is_float x \<Longrightarrow> \<exists>k. x = of_int k * 2 powi (-1074)"
proof -
  assume "is_float x"
  then obtain m e where x: "x = of_int m * 2 powi e" "-1074 \<le> e" by (auto simp: is_float_def)
  have "(2::real) powi e = 2 powi (e + 1074) * 2 powi (-1074)"
    unfolding powi2_add[symmetric] by simp
  also have "(2::real) powi (e + 1074) = of_int (2 ^ nat (e + 1074))" using x(2) by (intro powi2_nat) simp
  finally have "x = of_int (m * 2 ^ nat (e + 1074)) * 2 powi (-1074)" using x(1) by simp
  then show ?thesis by blast
qed

lemma fl_diff_nonneg_iff:
  assumes "is_float x" and "is_float y"
  shows "0 \<le> fl (x - y) \<longleftrightarrow> y \<le> x"
proof
  assume nn: "0 \<le> fl (x - y)"
  show "y \<le> x"
  proof (rule ccontr)
    assume "\<not> y \<le> x"
    obtain j k where jk: "x = of_int j * 2 powi (-1074)" "y = of_int k * 2 powi (-1074)"
      using is_float_multiple[OF assms(1)] is_float_multiple[OF assms(2)] by blast
    have pos: "(0::real) < 2 powi (-1074)" by (rule powi2_pos)
    have "of_int j * 2 powi (-1074) < of_int k * (2::real) powi (-1074)"
      using jk \<open>\<not> y \<le> x\<close> by (simp only: not_le)
    then have "j < k" using pos by (simp only: mult_less_cancel_right_pos of_int_less_iff)
    then have "of_int (j - k) \<le> (-1::real)" by simp
    then have "of_int (j - k) * 2 powi (-1074) \<le> - ((2::real) powi (-1074))"
      using mult_right_mono[of "of_int (j - k)" "-1::real" "2 powi (-1074)"] pos by simp
    then have "x - y \<le> - (2 powi (-1074))" using jk by (simp only: of_int_diff left_diff_distrib)
    moreover have "is_float (- (2 powi (-1074)))"
      unfolding is_float_def by (rule exI[of _ "-1"], rule exI[of _ "-1074"]) simp
    ultimately have "fl (x - y) \<le> - (2 powi (-1074))" by (intro fl_le_iff_float)
    then show False using nn pos by linarith
  qed
qed simp

lemma fl_diff_pos: "is_float x \<Longrightarrow> is_float y \<Longrightarrow> y < x \<Longrightarrow> 0 < fl (x - y)"
  using fl_diff_nonneg_iff[of y x] fl_minus[of "x - y"] by simp

section \<open>Rounding errors\<close>

lemma fl_error_fexp: "\<bar>fl x - x\<bar> \<le> 2 powi fexp x / 2"
proof (cases "x = 0")
  case False
  let ?p = "2 powi fexp x :: real" and ?z = "x * 2 powi (- fexp x)"
  have "x = ?z * ?p" by (simp add: mult.assoc)
  then have "fl x - x = (of_int (round_even ?z) - ?z) * ?p"
    using False by (simp add: fl_def left_diff_distrib)
  then have "\<bar>fl x - x\<bar> = \<bar>of_int (round_even ?z) - ?z\<bar> * ?p"
    by (simp add: abs_mult)
  also have "\<dots> \<le> 1 / 2 * ?p" by (rule mult_right_mono[OF round_even_error]) simp
  finally show ?thesis by simp
qed simp

text \<open>A value below \<open>2 ^ k\<close> is off by at most \<open>2 ^ (k - 54)\<close>.\<close>

lemma fl_error_abs:
  assumes "\<bar>x\<bar> < 2 powi k" and "-1021 \<le> k"
  shows "\<bar>fl x - x\<bar> \<le> 2 powi (k - 54)"
proof (cases "x = 0")
  case False
  have "fexp x \<le> k - 53" using log2_less[OF False assms(1)] assms(2) by (simp add: fexp_def)
  then have "2 powi fexp x / 2 \<le> (2::real) powi (k - 53) / 2" by (simp add: powi2_mono)
  also have "\<dots> = 2 powi (k - 54)" using powi2_add[of "k - 54" 1] by simp
  finally show ?thesis using fl_error_fexp[of x] by linarith
qed simp

text \<open>A value in the normal range is off by a factor of at most \<open>2 ^ -53\<close>.\<close>

lemma fl_error_rel:
  assumes "2 powi (-1022) \<le> \<bar>x\<bar>"
  shows "\<bar>fl x - x\<bar> \<le> \<bar>x\<bar> * 2 powi (-53)"
proof -
  have x: "x \<noteq> 0" using assms powi2_pos[of "-1022"] by (auto simp del: powi2_pos)
  have "2 powi (-1022) < (2::real) powi (\<lfloor>log 2 \<bar>x\<bar>\<rfloor> + 1)"
    using assms log2_bounds(2)[OF x] by linarith
  then have "-1022 \<le> \<lfloor>log 2 \<bar>x\<bar>\<rfloor>"
    using powi2_mono[of "\<lfloor>log 2 \<bar>x\<bar>\<rfloor> + 1" "-1022"] by linarith
  then have e: "fexp x = \<lfloor>log 2 \<bar>x\<bar>\<rfloor> - 52" unfolding fexp_def by linarith
  have "2 powi fexp x / 2 = (2::real) powi \<lfloor>log 2 \<bar>x\<bar>\<rfloor> * 2 powi (-53)"
    using powi2_add[of "\<lfloor>log 2 \<bar>x\<bar>\<rfloor>" "-53"] powi2_add[of "fexp x - 1" 1] e by simp
  also have "\<dots> \<le> \<bar>x\<bar> * 2 powi (-53)"
    by (rule mult_right_mono[OF log2_bounds(1)[OF x]]) simp
  finally show ?thesis using fl_error_fexp[of x] by linarith
qed

section \<open>Evaluation\<close>

text \<open>
  The exponent without logarithms, for \<open>code_simp\<close>: how often a base divides an integer, and
  from it the floor of a logarithm, for base 2 here and base 10 in the printing of floats.
\<close>

function ilog :: "int \<Rightarrow> int \<Rightarrow> int" where
  "ilog b n = (if b \<le> 1 \<or> n < b then 0 else 1 + ilog b (n div b))"
  by pat_completeness auto
termination
proof (relation "measure (\<lambda>(b, n). nat n)", simp)
  fix b n :: int
  assume h: "\<not> (b \<le> 1 \<or> n < b)"
  then have "n div b < n" by (intro int_div_less_self) auto
  then show "((b, n div b), b, n) \<in> measure (\<lambda>(b, n). nat n)" using h by simp
qed

declare ilog.simps [simp del]

lemma ilog_nonneg: "0 \<le> ilog b n"
  by (induction b n rule: ilog.induct) (simp add: ilog.simps)

lemma ilog_bounds: "2 \<le> b \<Longrightarrow> 1 \<le> n \<Longrightarrow> b ^ nat (ilog b n) \<le> n \<and> n < b ^ nat (ilog b n + 1)"
proof (induction b n rule: ilog.induct)
  case (1 b n)
  show ?case
  proof (cases "n < b")
    case True
    then show ?thesis using "1.prems" by (simp add: ilog.simps[of b n])
  next
    case False
    let ?k = "nat (ilog b (n div b))"
    have "1 \<le> n div b" using False "1.prems" by (simp add: pos_imp_zdiv_pos_iff int_one_le_iff_zero_less)
    then have IH: "b ^ ?k \<le> n div b" "n div b < b ^ (?k + 1)"
      using "1.IH" "1.prems" False ilog_nonneg[of b "n div b"] by (auto simp: nat_add_distrib)
    have "ilog b n = 1 + ilog b (n div b)" using False "1.prems" by (simp add: ilog.simps[of b n])
    then have "nat (ilog b n) = ?k + 1" "nat (ilog b n + 1) = ?k + 2"
      using ilog_nonneg[of b "n div b"] by simp_all
    moreover have "b ^ (?k + 1) \<le> n"
    proof -
      have "b ^ ?k * b \<le> n div b * b" using IH(1) "1.prems" by (intro mult_right_mono) auto
      also have "\<dots> \<le> n" using "1.prems" by (simp add: div_mult_mod_eq le_add_same_cancel1 minus_mod_eq_div_mult[symmetric])
      finally show ?thesis by (simp add: mult.commute)
    qed
    moreover have "n < b ^ (?k + 2)"
    proof -
      have "(n div b + 1) * b \<le> b ^ (?k + 1) * b" using IH(2) "1.prems" by (intro mult_right_mono) auto
      moreover have "n = n div b * b + n mod b" "n mod b < b" using "1.prems" by simp_all
      ultimately have "n < b ^ (?k + 1) * b" by (simp only: distrib_right)
      then show ?thesis by (simp add: mult_ac)
    qed
    ultimately show ?thesis by simp
  qed
qed

text \<open>\<open>flog b x\<close> is the floor of the logarithm of \<open>x > 0\<close> to the base \<open>b\<close>.\<close>

definition flog :: "int \<Rightarrow> real \<Rightarrow> int" where
  "flog b x = (if 1 \<le> x then ilog b \<lfloor>x\<rfloor> else - ilog b (\<lceil>1 / x\<rceil> - 1) - 1)"

lemma flog_bounds:
  assumes b: "2 \<le> b" and x: "0 < x"
  shows "of_int b powi flog b x \<le> x" and "x < of_int b powi (flog b x + 1)"
proof -
  have "of_int b powi flog b x \<le> x \<and> x < of_int b powi (flog b x + 1)"
  proof (cases "1 \<le> x")
    case True
    then have n: "1 \<le> \<lfloor>x\<rfloor>" by simp
    let ?k = "nat (ilog b \<lfloor>x\<rfloor>)"
    have k: "flog b x = int ?k" using True ilog_nonneg by (simp add: flog_def)
    have "b ^ ?k \<le> \<lfloor>x\<rfloor>" "\<lfloor>x\<rfloor> < b ^ (?k + 1)"
      using ilog_bounds[OF b n] ilog_nonneg[of b "\<lfloor>x\<rfloor>"] by (auto simp: nat_add_distrib)
    then have "of_int (b ^ ?k) \<le> x" "x < of_int (b ^ (?k + 1))"
      by (simp_all only: le_floor_iff floor_less_iff)
    moreover have "int ?k + 1 = int (?k + 1)" by simp
    ultimately show ?thesis unfolding k by (simp only: power_int_of_nat of_int_power)
  next
    case False
    then have "1 < 1 / x" using x by simp
    then have c: "1 \<le> \<lceil>1 / x\<rceil> - 1" by linarith
    let ?c = "\<lceil>1 / x\<rceil> - 1" let ?k = "nat (ilog b ?c)"
    have k: "flog b x = - int (?k + 1)" "flog b x + 1 = - int ?k"
      using False ilog_nonneg[of b ?c] by (simp_all add: flog_def)
    have "b ^ ?k \<le> ?c" "?c + 1 \<le> b ^ (?k + 1)"
      using ilog_bounds[OF b c] ilog_nonneg[of b ?c] by (auto simp: nat_add_distrib)
    moreover have "of_int ?c < 1 / x" "1 / x \<le> of_int (?c + 1)" by linarith+
    ultimately have "of_int (b ^ ?k) < 1 / x" "1 / x \<le> of_int (b ^ (?k + 1))"
      by (meson of_int_le_iff order_le_less_trans order_trans)+
    then have "x < inverse (of_int (b ^ ?k))" "inverse (of_int (b ^ (?k + 1))) \<le> x"
      using x b by (simp_all add: field_simps)
    then show ?thesis
      by (simp only: k(2)) (simp only: k(1) power_int_minus power_int_of_nat of_int_power simp_thms)
  qed
  then show "of_int b powi flog b x \<le> x" and "x < of_int b powi (flog b x + 1)" by auto
qed

lemma fl_code [code]:
  "fl x = (if x = 0 then 0
           else let e = max (flog 2 \<bar>x\<bar> - 52) (-1074)
                in of_int (round_even (x * 2 powi (- e))) * 2 powi e)"
proof (cases "x = 0")
  case False
  then have "\<lfloor>log 2 \<bar>x\<bar>\<rfloor> = flog 2 \<bar>x\<bar>"
    using flog_bounds[of 2 "\<bar>x\<bar>"] by (intro floor_log2_eqI) simp_all
  with False show ?thesis by (simp add: fl_def fexp_def Let_def)
qed simp

lemma fl_tenth: "fl (1 / 10) = 3602879701896397 / 36028797018963968"
  by code_simp

end
