(* ===== verification/PyText.thy ===== *)
theory PyText
  imports PyFloat
begin

text \<open>
  Python's \<open>str\<close> and \<open>bytes\<close>, as far as the protocol uses them.  A \<open>str\<close> is a list of code
  points, because the source decodes arbitrary bytes from the network and its character classes
  (\<open>\s\<close>, \<open>\d\<close>, \<open>strip\<close>, \<open>splitlines\<close>, \<open>int\<close>) are Unicode ones; \<open>u ''GET''\<close> is the literal
  \<open>"GET"\<close>.  \<open>bytes\<close> is a list of integers from 0 to 255.  The tables are those of Unicode 14, the
  version of CPython 3.11.
\<close>

type_synonym pystr = "int list"
type_synonym pybytes = "int list"

definition u :: "string \<Rightarrow> pystr" where
  "u s = map of_char s"

lemma u_simps [simp]: "u [] = []" "u (c # cs) = of_char c # u cs"
  by (simp_all add: u_def)

section \<open>Character classes\<close>

definition is_space :: "int \<Rightarrow> bool" where
  "is_space c \<longleftrightarrow>
     c \<in> set [9, 10, 11, 12, 13, 28, 29, 30, 31, 32, 133, 160, 5760, 8192, 8193, 8194, 8195,
       8196, 8197, 8198, 8199, 8200, 8201, 8202, 8232, 8233, 8239, 8287, 12288]"

definition is_linebreak :: "int \<Rightarrow> bool" where
  "is_linebreak c \<longleftrightarrow> c \<in> set [10, 11, 12, 13, 28, 29, 30, 133, 8232, 8233]"

text \<open>The zeros of the decimal digit blocks; the digits 1 to 9 follow each of them.\<close>

definition digit_zeros :: "int list" where
  "digit_zeros =
     [48, 1632, 1776, 1984, 2406, 2534, 2662, 2790, 2918, 3046, 3174, 3302, 3430, 3558, 3664,
      3792, 3872, 4160, 4240, 6112, 6160, 6470, 6608, 6784, 6800, 6992, 7088, 7232, 7248, 42528,
      43216, 43264, 43472, 43504, 43600, 44016, 65296, 66720, 68912, 69734, 69872, 69942, 70096,
      70384, 70736, 70864, 71248, 71360, 71472, 71904, 72016, 72784, 73040, 73120, 92768, 92864,
      93008, 120782, 120792, 120802, 120812, 120822, 123200, 123632, 125264, 130032]"

definition digit_val :: "int \<Rightarrow> int option" where
  "digit_val c =
     (case filter (\<lambda>z. z \<le> c \<and> c < z + 10) digit_zeros of [] \<Rightarrow> None | z # _ \<Rightarrow> Some (c - z))"

definition is_digit :: "int \<Rightarrow> bool" where
  "is_digit c \<longleftrightarrow> digit_val c \<noteq> None"

definition ascii_digit :: "int \<Rightarrow> bool" where
  "ascii_digit c \<longleftrightarrow> 48 \<le> c \<and> c < 58"

lemma digit_val_ascii [simp]: "ascii_digit c \<Longrightarrow> digit_val c = Some (c - 48)"
  by (simp add: ascii_digit_def digit_val_def digit_zeros_def)

lemma is_digit_ascii [simp]: "ascii_digit c \<Longrightarrow> is_digit c"
  by (simp add: is_digit_def)

lemma not_digit_low: "c < 128 \<Longrightarrow> is_digit c \<longleftrightarrow> ascii_digit c"
  by (auto simp: is_digit_def digit_val_def digit_zeros_def ascii_digit_def)

lemma ascii_digit_not_space [simp]: "ascii_digit c \<Longrightarrow> \<not> is_space c"
  by (auto simp: ascii_digit_def is_space_def)

lemma graph_not_space [simp]: "33 \<le> c \<Longrightarrow> c < 127 \<Longrightarrow> \<not> is_space c"
  by (auto simp: is_space_def)

lemma digit_val_less: "digit_val c = Some d \<Longrightarrow> d < 10"
proof -
  assume h: "digit_val c = Some d"
  let ?zs = "filter (\<lambda>z. z \<le> c \<and> c < z + 10) digit_zeros"
  from h obtain z zs where z: "?zs = z # zs" "d = c - z"
    by (auto simp: digit_val_def split: list.splits)
  then have "z \<in> set ?zs" by simp
  then show ?thesis using z(2) by auto
qed

section \<open>Strings\<close>

definition lstrip :: "pystr \<Rightarrow> pystr" where
  "lstrip s = dropWhile is_space s"

definition rstrip :: "pystr \<Rightarrow> pystr" where
  "rstrip s = rev (dropWhile is_space (rev s))"

definition strip :: "pystr \<Rightarrow> pystr" where
  "strip s = rstrip (lstrip s)"

text \<open>\<open>s.splitlines()\<close>; the accumulator holds the current line, reversed.\<close>

fun splitlines_from :: "pystr \<Rightarrow> pystr \<Rightarrow> pystr list" where
  "splitlines_from cur [] = (if cur = [] then [] else [rev cur])"
| "splitlines_from cur (c # cs) =
     (if c = 13 \<and> cs \<noteq> [] \<and> hd cs = 10 then rev cur # splitlines_from [] (tl cs)
      else if is_linebreak c then rev cur # splitlines_from [] cs
      else splitlines_from (c # cur) cs)"

definition splitlines :: "pystr \<Rightarrow> pystr list" where
  "splitlines s = splitlines_from [] s"

text \<open>\<open>s.split(None, 1)\<close>: at most two pieces, none of them empty.\<close>

definition split_ws1 :: "pystr \<Rightarrow> pystr list" where
  "split_ws1 s =
     (let t = lstrip s in
      if t = [] then []
      else let w = takeWhile (\<lambda>c. \<not> is_space c) t; r = lstrip (dropWhile (\<lambda>c. \<not> is_space c) t)
           in if r = [] then [w] else [w, r])"

text \<open>\<open>sep.join(parts)\<close>.\<close>

fun join :: "pystr \<Rightarrow> pystr list \<Rightarrow> pystr" where
  "join sep [] = []"
| "join sep [x] = x"
| "join sep (x # y # zs) = x @ sep @ join sep (y # zs)"

definition ends_nonspace :: "pystr \<Rightarrow> bool" where
  "ends_nonspace s \<longleftrightarrow> s \<noteq> [] \<and> \<not> is_space (hd s) \<and> \<not> is_space (last s)"

lemma ends_nonspace_Cons: "\<not> is_space c \<Longrightarrow> s = [] \<or> ends_nonspace s \<Longrightarrow> ends_nonspace (c # s)"
  by (auto simp: ends_nonspace_def)

lemma ends_nonspace_append: "ends_nonspace s \<Longrightarrow> ends_nonspace t \<Longrightarrow> ends_nonspace (s @ w @ t)"
  by (simp add: ends_nonspace_def)

lemma lstrip_id: "s = [] \<or> \<not> is_space (hd s) \<Longrightarrow> lstrip s = s"
  unfolding lstrip_def by (rule dropWhile_hd_id)

lemma rstrip_id: "s = [] \<or> \<not> is_space (last s) \<Longrightarrow> rstrip s = s"
  unfolding rstrip_def using dropWhile_hd_id[of "rev s" is_space] by (auto simp: hd_rev)

lemma strip_id: "ends_nonspace s \<Longrightarrow> strip s = s"
  by (simp add: ends_nonspace_def strip_def lstrip_id rstrip_id)

lemma lstrip_spaces: "\<forall>c\<in>set s. is_space c \<Longrightarrow> lstrip s = []"
  by (simp add: lstrip_def)

lemma strip_Nil [simp]: "strip [] = []"
  by (simp add: strip_def lstrip_def rstrip_def)

lemma strip_append_spaces:
  assumes "\<forall>c\<in>set w. is_space c"
  shows "strip (s @ w) = strip s"
proof -
  have rs: "rstrip (t @ w) = rstrip t" for t
    using assms by (simp add: rstrip_def dropWhile_append3 dropWhile_append1 dropWhile_append)
  show ?thesis
  proof (cases "dropWhile is_space s = []")
    case True
    then have "\<forall>c\<in>set (s @ w). is_space c" using assms by auto
    then have "lstrip (s @ w) = []" and "lstrip s = []" by (simp_all add: lstrip_spaces)
    then show ?thesis by (simp add: strip_def)
  next
    case False
    then have "dropWhile is_space (s @ w) = dropWhile is_space s @ w"
      by (auto simp: dropWhile_append)
    then show ?thesis by (simp add: strip_def lstrip_def rs)
  qed
qed

lemma rstrip_last: "rstrip s \<noteq> [] \<Longrightarrow> \<not> is_space (last (rstrip s))"
  unfolding rstrip_def using hd_dropWhile[of is_space "rev s"] by (auto simp: last_rev)

lemma set_strip: "set (strip s) \<subseteq> set s"
  unfolding strip_def rstrip_def lstrip_def
  by (metis order_trans set_dropWhileD set_rev subsetI)

section \<open>Decimal numbers\<close>

function dec_digits :: "int \<Rightarrow> int list" where
  "dec_digits n = (if n < 10 then [n] else dec_digits (n div 10) @ [n mod 10])"
  by pat_completeness auto
termination
  by (relation "measure nat") auto

declare dec_digits.simps [simp del]

definition digits_val :: "int list \<Rightarrow> int" where
  "digits_val ds = foldl (\<lambda>a d. 10 * a + d) 0 ds"

lemma digits_val_Nil [simp]: "digits_val [] = 0"
  by (simp add: digits_val_def)

lemma digits_val_append: "digits_val (xs @ ys) = digits_val xs * 10 ^ length ys + digits_val ys"
proof (induction ys rule: rev_induct)
  case (snoc y ys)
  have "digits_val (zs @ [y]) = 10 * digits_val zs + y" for zs
    by (simp add: digits_val_def)
  from this[of "xs @ ys"] this[of ys] snoc show ?case by (simp add: algebra_simps)
qed simp

lemma dec_digits_snoc: "10 \<le> n \<Longrightarrow> dec_digits n = dec_digits (n div 10) @ [n mod 10]"
  by (simp add: dec_digits.simps[of n])

lemma dec_digits_single: "n < 10 \<Longrightarrow> dec_digits n = [n]"
  by (simp add: dec_digits.simps[of n])

lemma digits_val_dec [simp]: "digits_val (dec_digits n) = n"
proof (induction n rule: dec_digits.induct)
  case (1 n)
  show ?case
  proof (cases "n < 10")
    case True
    then show ?thesis by (simp add: dec_digits_single digits_val_def)
  next
    case False
    then show ?thesis
      using "1.IH" by (simp add: dec_digits_snoc digits_val_append) (simp add: digits_val_def)
  qed
qed

lemma dec_digits_range: "0 \<le> n \<Longrightarrow> d \<in> set (dec_digits n) \<Longrightarrow> 0 \<le> d \<and> d < 10"
proof (induction n rule: dec_digits.induct)
  case (1 n)
  then show ?case by (cases "n < 10") (auto simp: dec_digits_single dec_digits_snoc)
qed

lemma dec_digits_not_Nil [simp]: "dec_digits n \<noteq> []"
  by (subst dec_digits.simps) simp

definition dec_str :: "int \<Rightarrow> pystr" where
  "dec_str n = map (\<lambda>d. 48 + d) (dec_digits n)"

lemma dec_str_not_Nil [simp]: "dec_str n \<noteq> []"
  by (simp add: dec_str_def)

lemma dec_str_ascii [simp]: "c \<in> set (dec_str n) \<Longrightarrow> 0 \<le> n \<Longrightarrow> ascii_digit c"
  by (auto simp: dec_str_def ascii_digit_def dest: dec_digits_range)

end
