(* ===== verification/PyNumber.thy ===== *)
theory PyNumber
  imports PyText
begin

text \<open>
  The conversions between numbers and text that the protocol relies on: \<open>int(s)\<close> and
  \<open>float(s)\<close>, and the format specifications \<open>d\<close>, \<open>03d\<close> and \<open>g\<close>.  The round trips at the end
  are what the wire format rests on.
\<close>

section \<open>Reading integers\<close>

text \<open>
  Underscores between two digits are dropped before either conversion looks at the text; any
  other underscore stays and makes the conversion fail.  The flag says whether the previous
  character was a digit.
\<close>

fun drop_underscores :: "bool \<Rightarrow> pystr \<Rightarrow> pystr" where
  "drop_underscores p [] = []"
| "drop_underscores p [c] = [c]"
| "drop_underscores p (c # d # cs) =
     (if c = 95 \<and> p \<and> is_digit d then drop_underscores False (d # cs)
      else c # drop_underscores (is_digit c) (d # cs))"

text \<open>An optional sign: whether it is a minus, and the rest.\<close>

definition split_sign :: "pystr \<Rightarrow> bool \<times> pystr" where
  "split_sign s =
     (if s \<noteq> [] \<and> hd s = 45 then (True, tl s)
      else if s \<noteq> [] \<and> hd s = 43 then (False, tl s)
      else (False, s))"

definition all_digits :: "pystr \<Rightarrow> bool" where
  "all_digits s \<longleftrightarrow> s \<noteq> [] \<and> list_all is_digit s"

definition digits_of :: "pystr \<Rightarrow> int list" where
  "digits_of s = map (\<lambda>c. the (digit_val c)) s"

text \<open>CPython refuses to convert more than 4300 digits.\<close>

definition max_int_digits :: nat where
  "max_int_digits = 4300"

lemma max_int_digits_pos [simp]: "0 < max_int_digits"
  by (simp add: max_int_digits_def)

definition py_int :: "pystr \<Rightarrow> int result" where
  "py_int s =
     (let (neg, ds) = split_sign (drop_underscores False (strip s)) in
      if all_digits ds \<and> length ds \<le> max_int_digits
      then let v = digits_val (digits_of ds) in Inr (if neg then - v else v)
      else Inl ValueError)"

section \<open>Reading floats\<close>

text \<open>A float read from text can also be infinite or not a number.\<close>

datatype xfloat = Finite real | PosInf | NegInf | NotANum

definition lower_ascii :: "pystr \<Rightarrow> pystr" where
  "lower_ascii s = map (\<lambda>c. if 65 \<le> c \<and> c \<le> 90 then c + 32 else c) s"

text \<open>The conversion of a decimal number to the nearest float, infinite from \<open>2 ^ 1024\<close> on.\<close>

definition to_float :: "bool \<Rightarrow> real \<Rightarrow> xfloat" where
  "to_float neg x =
     (let y = fl x in
      if 2 ^ 1024 \<le> y then (if neg then NegInf else PosInf)
      else Finite (if neg then - y else y))"

text \<open>\<open>digits [. digits] [e [sign] digits]\<close>, with a digit before or after the point.\<close>

definition parse_exponent :: "pystr \<Rightarrow> int option" where
  "parse_exponent s =
     (if s = [] then Some 0
      else if hd s = 101 \<or> hd s = 69 then
        let (neg, ds) = split_sign (tl s) in
        if all_digits ds
        then let v = digits_val (digits_of ds) in Some (if neg then - v else v)
        else None
      else None)"

definition parse_decimal :: "pystr \<Rightarrow> real option" where
  "parse_decimal s =
     (let ip = takeWhile is_digit s; r = dropWhile is_digit s;
          (fp, r') = (if r \<noteq> [] \<and> hd r = 46 then (takeWhile is_digit (tl r), dropWhile is_digit (tl r))
                      else ([], r))
      in if ip = [] \<and> fp = [] then None
         else map_option
           (\<lambda>e. of_int (digits_val (digits_of (ip @ fp))) * 10 powi (e - int (length fp)))
           (parse_exponent r'))"

definition py_float :: "pystr \<Rightarrow> xfloat result" where
  "py_float s =
     (let (neg, t) = split_sign (drop_underscores False (strip s)); l = lower_ascii t in
      if l = u ''inf'' \<or> l = u ''infinity'' then Inr (if neg then NegInf else PosInf)
      else if l = u ''nan'' then Inr NotANum
      else case parse_decimal t of None \<Rightarrow> Inl ValueError | Some x \<Rightarrow> Inr (to_float neg x))"

section \<open>Writing numbers\<close>

text \<open>\<open>f"{n}"\<close> and \<open>f"{n:03d}"\<close>; the sign counts towards the width.\<close>

definition fmt_d :: "int \<Rightarrow> pystr" where
  "fmt_d n = (if n < 0 then 45 # dec_str (- n) else dec_str n)"

definition fmt_03d :: "int \<Rightarrow> pystr" where
  "fmt_03d n =
     (let ds = dec_str \<bar>n\<bar>; w = (if n < 0 then 2 else 3);
          p = replicate (w - length ds) 48 @ ds
      in if n < 0 then 45 # p else p)"

text \<open>
  \<open>f"{x:g}"\<close>: six significant digits, correctly rounded from the exact value, trailing zeros
  removed, scientific notation below \<open>1e-4\<close> and from \<open>1e6\<close> on.  \<open>sig6 x\<close> is the decimal
  exponent of \<open>x > 0\<close> after rounding, and its six digits as a number.
\<close>

definition sig6 :: "real \<Rightarrow> int \<times> int" where
  "sig6 x =
     (let e = flog 10 x; n = round_even (x * 10 powi (5 - e))
      in if n = 10 ^ 6 then (e + 1, 10 ^ 5) else (e, n))"

definition rstrip_zeros :: "pystr \<Rightarrow> pystr" where
  "rstrip_zeros s = rev (dropWhile (\<lambda>c. c = 48) (rev s))"

definition with_point :: "pystr \<Rightarrow> pystr \<Rightarrow> pystr" where
  "with_point ip fp = (if rstrip_zeros fp = [] then ip else ip @ 46 # rstrip_zeros fp)"

definition fmt_exp :: "int \<Rightarrow> pystr" where
  "fmt_exp e =
     (if e < 0 then 45 else 43) #
     (let ds = dec_str \<bar>e\<bar> in replicate (2 - length ds) 48 @ ds)"

definition fmt_g_pos :: "real \<Rightarrow> pystr" where
  "fmt_g_pos x =
     (let (e, n) = sig6 x; ds = dec_str n in
      if -4 \<le> e \<and> e < 6 then
        (if 0 \<le> e then with_point (take (nat e + 1) ds) (drop (nat e + 1) ds)
         else with_point [48] (replicate (nat (- e) - 1) 48 @ ds))
      else with_point (take 1 ds) (drop 1 ds) @ 101 # fmt_exp e)"

definition fmt_g :: "real \<Rightarrow> pystr" where
  "fmt_g x = (if x = 0 then [48] else if x < 0 then 45 # fmt_g_pos (- x) else fmt_g_pos x)"

fun fmt_gx :: "xfloat \<Rightarrow> pystr" where
  "fmt_gx (Finite x) = fmt_g x"
| "fmt_gx PosInf = u ''inf''"
| "fmt_gx NegInf = u ''-inf''"
| "fmt_gx NotANum = u ''nan''"

lemma fmt_g_examples:
  "fmt_g 2 = u ''2''" "fmt_g (5 / 2) = u ''2.5''" "fmt_g 2500000 = u ''2.5e+06''"
  by code_simp+

section \<open>Round trips\<close>

lemma drop_underscores_id: "95 \<notin> set s \<Longrightarrow> drop_underscores p s = s"
  by (induction p s rule: drop_underscores.induct) auto

lemma ascii_digit_not_underscore: "\<forall>c\<in>set s. ascii_digit c \<Longrightarrow> 95 \<notin> set s"
  by (auto simp: ascii_digit_def)

lemma ends_nonspace_digits: "s \<noteq> [] \<Longrightarrow> \<forall>c\<in>set s. ascii_digit c \<Longrightarrow> ends_nonspace s"
  by (simp add: ends_nonspace_def)

lemma all_digits_ascii: "s \<noteq> [] \<Longrightarrow> \<forall>c\<in>set s. ascii_digit c \<Longrightarrow> all_digits s"
  by (auto simp: all_digits_def list_all_iff)

lemma split_sign_digits: "\<forall>c\<in>set s. ascii_digit c \<Longrightarrow> split_sign s = (False, s)"
  by (cases s) (auto simp: split_sign_def ascii_digit_def)

lemma digits_of_shift:
  "\<forall>d\<in>set ds. 0 \<le> d \<and> d < 10 \<Longrightarrow> digits_of (map (\<lambda>d. 48 + d) ds) = ds"
  by (induction ds) (auto simp: digits_of_def ascii_digit_def)

lemma digits_of_dec_str [simp]: "0 \<le> n \<Longrightarrow> digits_of (dec_str n) = dec_digits n"
  unfolding dec_str_def by (rule digits_of_shift) (auto dest: dec_digits_range)

lemma digits_of_append: "digits_of (s @ t) = digits_of s @ digits_of t"
  by (simp add: digits_of_def)

lemma digits_val_zeros [simp]: "digits_val (replicate k 0) = 0"
  by (induction k) (simp_all add: digits_val_def flip: replicate_append_same)

lemma fmt_03d_digits:
  assumes "0 \<le> n"
  shows "fmt_03d n \<noteq> []" and "\<forall>c\<in>set (fmt_03d n). ascii_digit c"
    and "digits_val (digits_of (fmt_03d n)) = n"
proof -
  have f: "fmt_03d n = replicate (3 - length (dec_str n)) 48 @ dec_str n"
    using assms by (simp add: fmt_03d_def Let_def)
  show "fmt_03d n \<noteq> []" by (simp add: f)
  show "\<forall>c\<in>set (fmt_03d n). ascii_digit c"
    using assms by (auto simp: f) (simp add: ascii_digit_def)
  have "digits_of (replicate k 48) = replicate k 0" for k
    by (simp add: digits_of_def ascii_digit_def)
  then show "digits_val (digits_of (fmt_03d n)) = n"
    using assms by (simp add: f digits_of_append digits_val_append)
qed

lemma length_fmt_03d: "0 \<le> n \<Longrightarrow> length (fmt_03d n) = max 3 (length (dec_str n))"
  by (simp add: fmt_03d_def Let_def)

lemma length_dec_digits: "0 \<le> n \<Longrightarrow> n < 10 ^ k \<Longrightarrow> 0 < k \<Longrightarrow> length (dec_digits n) \<le> k"
proof (induction n arbitrary: k rule: dec_digits.induct)
  case (1 n)
  show ?case
  proof (cases "n < 10")
    case True
    then show ?thesis using "1.prems" by (simp add: dec_digits_single)
  next
    case False
    with "1.prems" obtain j where j: "k = Suc j" "0 < j"
      by (cases k; cases "k - 1") auto
    have "n div 10 < 10 ^ j" using "1.prems" j by (simp add: div_less_iff_less_mult)
    then have "length (dec_digits (n div 10)) \<le> j" using "1.IH" "1.prems" False j by simp
    then show ?thesis using False j by (simp add: dec_digits_snoc)
  qed
qed

lemma py_int_digits:
  assumes "s \<noteq> []" and "\<forall>c\<in>set s. ascii_digit c" and "length s \<le> max_int_digits"
  shows "py_int s = Inr (digits_val (digits_of s))"
  using assms
  by (simp add: py_int_def strip_id ends_nonspace_digits drop_underscores_id
      ascii_digit_not_underscore split_sign_digits all_digits_ascii Let_def)

text \<open>\<open>int(str(n)) == n\<close>, up to the digit limit.\<close>

lemma py_int_fmt_d:
  assumes "\<bar>n\<bar> < 10 ^ max_int_digits"
  shows "py_int (fmt_d n) = Inr n"
proof -
  have len: "length (dec_str \<bar>n\<bar>) \<le> max_int_digits"
    using assms length_dec_digits[of "\<bar>n\<bar>" max_int_digits] by (simp add: dec_str_def)
  show ?thesis
  proof (cases "n < 0")
    case False
    then show ?thesis using len by (simp add: fmt_d_def py_int_digits)
  next
    case True
    let ?s = "dec_str (- n)"
    have d: "\<forall>c\<in>set ?s. ascii_digit c" using True by simp
    have "ends_nonspace (45 # ?s)"
      using ends_nonspace_digits[OF _ d] by (simp add: ends_nonspace_Cons)
    moreover have "95 \<notin> set (45 # ?s)" using ascii_digit_not_underscore[OF d] by simp
    ultimately show ?thesis using True len all_digits_ascii[OF _ d]
      by (simp add: fmt_d_def py_int_def strip_id drop_underscores_id split_sign_def Let_def)
  qed
qed

lemma fmt_d_ends: "ends_nonspace (fmt_d n)"
proof (cases "n < 0")
  case True
  then have "ends_nonspace (dec_str (- n))" by (intro ends_nonspace_digits) simp_all
  then show ?thesis using True by (simp add: fmt_d_def ends_nonspace_Cons)
next
  case False
  then show ?thesis by (simp add: fmt_d_def ends_nonspace_digits)
qed

lemma fmt_d_chars: "c \<in> set (fmt_d n) \<Longrightarrow> ascii_digit c \<or> c = 45"
  by (cases "n < 0") (auto simp: fmt_d_def)

text \<open>\<open>float(str(n))\<close> is the float nearest to \<open>n\<close>.\<close>

lemma parse_decimal_digits:
  assumes "s \<noteq> []" and "\<forall>c\<in>set s. ascii_digit c"
  shows "parse_decimal s = Some (of_int (digits_val (digits_of s)))"
proof -
  have t: "takeWhile is_digit s = s" "dropWhile is_digit s = []"
    using assms by (simp_all add: takeWhile_eq_all_conv)
  show ?thesis using assms(1) by (simp add: parse_decimal_def parse_exponent_def Let_def t)
qed

lemma py_float_digits:
  assumes "s \<noteq> []" and "\<forall>c\<in>set s. ascii_digit c"
  shows "py_float s = Inr (to_float False (of_int (digits_val (digits_of s))))"
proof -
  have "hd (lower_ascii s) = hd s" and "ascii_digit (hd s)"
    using assms by (cases s; auto simp: lower_ascii_def ascii_digit_def)+
  then have "hd (lower_ascii s) \<noteq> 105" "hd (lower_ascii s) \<noteq> 110"
    by (auto simp: ascii_digit_def)
  then have "lower_ascii s \<noteq> u ''inf''" "lower_ascii s \<noteq> u ''infinity''" "lower_ascii s \<noteq> u ''nan''"
    by auto
  then show ?thesis using assms
    by (simp add: py_float_def strip_id ends_nonspace_digits drop_underscores_id
        ascii_digit_not_underscore split_sign_digits parse_decimal_digits Let_def)
qed

text \<open>An integer of at most six digits is printed by \<open>g\<close> as itself, and read back exactly.\<close>

lemma dec_digits_shift: "1 \<le> n \<Longrightarrow> dec_digits (n * 10 ^ j) = dec_digits n @ replicate j 0"
proof (induction j)
  case (Suc j)
  have "10 \<le> n * 10 ^ Suc j"
    using Suc.prems mult_mono[of 1 n 10 "10 ^ Suc j"] by simp
  then have "dec_digits (n * 10 ^ Suc j) = dec_digits (n * 10 ^ j) @ [0]"
    by (simp add: dec_digits_snoc)
  then show ?case using Suc by (simp flip: replicate_append_same)
qed simp

lemma length_dec_digits_ilog: "0 \<le> n \<Longrightarrow> length (dec_digits n) = nat (ilog 10 n) + 1"
proof (induction n rule: dec_digits.induct)
  case (1 n)
  then show ?case using ilog_nonneg[of 10 "n div 10"]
    by (cases "n < 10") (simp_all add: dec_digits_single dec_digits_snoc ilog.simps[of 10 n] nat_add_distrib)
qed

lemma rstrip_zeros_replicate [simp]: "rstrip_zeros (replicate k 48) = []"
  by (simp add: rstrip_zeros_def)

lemma sig6_int:
  assumes "1 \<le> n" and "n < 10 ^ 6"
  shows "sig6 (of_int n) = (ilog 10 n, n * 10 ^ nat (5 - ilog 10 n))"
    and "0 \<le> ilog 10 n" and "ilog 10 n \<le> 5"
proof -
  let ?k = "ilog 10 n"
  show k0: "0 \<le> ?k" by (rule ilog_nonneg)
  have b: "10 ^ nat ?k \<le> n" "n < 10 ^ nat (?k + 1)" using ilog_bounds[of 10 n] assms by auto
  show k5: "?k \<le> 5"
  proof (rule ccontr)
    assume "\<not> ?thesis"
    then have "(10::int) ^ 6 \<le> 10 ^ nat ?k" by (intro power_increasing) auto
    then show False using b(1) assms(2) by linarith
  qed
  have "of_int n * 10 powi (5 - ?k) = (of_int (n * 10 ^ nat (5 - ?k)) :: real)"
    using k5 by (simp add: power_int_def)
  moreover have "n * 10 ^ nat (5 - ?k) < 10 ^ 6"
  proof -
    have "n * 10 ^ nat (5 - ?k) < 10 ^ nat (?k + 1) * 10 ^ nat (5 - ?k)"
      using b(2) by (intro mult_strict_right_mono) auto
    also have "\<dots> = 10 ^ (nat (?k + 1) + nat (5 - ?k))" by (simp add: power_add)
    also have "nat (?k + 1) + nat (5 - ?k) = 6" using k0 k5 by linarith
    finally show ?thesis .
  qed
  moreover have "flog 10 (of_int n) = ?k" using assms(1) by (simp add: flog_def)
  ultimately show "sig6 (of_int n) = (?k, n * 10 ^ nat (5 - ?k))"
    by (simp only: sig6_def Let_def round_even_of_int less_imp_neq if_False)
qed

lemma fmt_g_int:
  assumes "0 \<le> n" and "n < 10 ^ 6"
  shows "fmt_g (of_int n) = dec_str n"
proof (cases "n = 0")
  case True
  then show ?thesis by (simp add: fmt_g_def dec_str_def dec_digits_single)
next
  case False
  then have n: "1 \<le> n" using assms(1) by simp
  let ?k = "ilog 10 n"
  note s = sig6_int[OF n assms(2)]
  have len: "length (dec_str n) = nat ?k + 1"
    using length_dec_digits_ilog[OF assms(1)] by (simp add: dec_str_def)
  have "dec_str (n * 10 ^ nat (5 - ?k)) = dec_str n @ replicate (nat (5 - ?k)) 48"
    using dec_digits_shift[OF n] by (simp add: dec_str_def)
  then have "fmt_g_pos (of_int n) = with_point (dec_str n) (replicate (nat (5 - ?k)) 48)"
    using s len by (simp add: fmt_g_pos_def Let_def)
  then show ?thesis using n by (simp add: fmt_g_def with_point_def)
qed

lemma to_float_int: "0 \<le> n \<Longrightarrow> n \<le> 2 ^ 53 \<Longrightarrow> to_float False (of_int n) = Finite (of_int n)"
proof -
  assume n: "0 \<le> n" "n \<le> 2 ^ 53"
  then have "(of_int n :: real) \<le> of_int (2 ^ 53)" by (simp only: of_int_le_iff)
  also have "\<dots> < 2 ^ 1024" by simp
  finally show ?thesis using n by (simp add: to_float_def Let_def)
qed

lemma py_float_fmt_g_int:
  assumes "0 \<le> n" and "n < 10 ^ 6"
  shows "py_float (fmt_g (of_int n)) = Inr (Finite (of_int n))"
  using assms by (simp add: fmt_g_int py_float_digits to_float_int)

text \<open>The characters \<open>g\<close> can print.\<close>

definition g_char :: "int \<Rightarrow> bool" where
  "g_char c \<longleftrightarrow> ascii_digit c \<or> c \<in> {43, 45, 46, 101, 97, 102, 105, 110}"

lemma g_char_graph: "g_char c \<Longrightarrow> 33 \<le> c \<and> c < 127"
  by (auto simp: g_char_def ascii_digit_def)

lemma set_rstrip_zeros: "set (rstrip_zeros s) \<subseteq> set s"
  unfolding rstrip_zeros_def by (auto dest: set_dropWhileD)

lemma with_point_chars:
  "\<forall>c\<in>set ip. g_char c \<Longrightarrow> \<forall>c\<in>set fp. g_char c \<Longrightarrow> \<forall>c\<in>set (with_point ip fp). g_char c"
  using set_rstrip_zeros[of fp] by (auto simp: with_point_def g_char_def)

lemma with_point_not_Nil: "ip \<noteq> [] \<Longrightarrow> with_point ip fp \<noteq> []"
  by (simp add: with_point_def)

lemma dec_str_g: "0 \<le> n \<Longrightarrow> \<forall>c\<in>set (dec_str n). g_char c"
  by (simp add: g_char_def)

lemma fmt_exp_chars: "\<forall>c\<in>set (fmt_exp e). g_char c"
  using dec_str_g[of "\<bar>e\<bar>"] by (auto simp: fmt_exp_def Let_def g_char_def ascii_digit_def)

lemma sig6_nonneg: "0 < x \<Longrightarrow> 0 \<le> snd (sig6 x)"
proof -
  assume "0 < x"
  then have "round_even (of_int 0) \<le> round_even (x * 10 powi (5 - flog 10 x))"
    by (intro round_even_mono) simp
  then show ?thesis by (simp add: sig6_def Let_def del: of_int_0)
qed

lemma fmt_g_pos_chars:
  assumes "0 < x"
  shows "\<forall>c\<in>set (fmt_g_pos x). g_char c" and "fmt_g_pos x \<noteq> []"
proof -
  obtain e n where en: "sig6 x = (e, n)" by force
  have ds: "\<forall>c\<in>set (dec_str n). g_char c" using sig6_nonneg[OF assms] en by (intro dec_str_g) simp
  have z: "g_char 48" "g_char 101" by (simp_all add: g_char_def ascii_digit_def)
  have "\<forall>c\<in>set (take k (dec_str n)). g_char c" "\<forall>c\<in>set (drop k (dec_str n)). g_char c" for k
    using ds by (auto dest: in_set_takeD in_set_dropD)
  then have parts: "\<forall>c\<in>set (with_point (take k (dec_str n)) (drop k (dec_str n))). g_char c"
    "\<forall>c\<in>set (with_point [48] (replicate k 48 @ dec_str n)). g_char c" for k
    using ds z by (intro with_point_chars; auto)+
  show "\<forall>c\<in>set (fmt_g_pos x). g_char c"
    using parts z fmt_exp_chars[of e] by (simp add: fmt_g_pos_def en Let_def ball_Un)
  show "fmt_g_pos x \<noteq> []"
    by (auto simp: fmt_g_pos_def en Let_def with_point_def)
qed

lemma fmt_g_chars: "\<forall>c\<in>set (fmt_g x). g_char c" and fmt_g_not_Nil: "fmt_g x \<noteq> []"
  using fmt_g_pos_chars[of x] fmt_g_pos_chars[of "- x"]
  by (auto simp: fmt_g_def g_char_def ascii_digit_def)

lemma fmt_gx_chars: "\<forall>c\<in>set (fmt_gx d). g_char c" and fmt_gx_not_Nil: "fmt_gx d \<noteq> []"
  by (cases d; simp add: fmt_g_chars fmt_g_not_Nil; simp add: g_char_def)+

text \<open>
  The durations that the wire carries exactly: six-digit integers, and the special values.
\<close>

definition g_exact :: "xfloat \<Rightarrow> bool" where
  "g_exact d \<longleftrightarrow> py_float (fmt_gx d) = Inr d"

lemma g_exact_int: "0 \<le> n \<Longrightarrow> n < 10 ^ 6 \<Longrightarrow> g_exact (Finite (of_int n))"
  by (simp add: g_exact_def py_float_fmt_g_int)

lemma g_exact_special: "g_exact PosInf" "g_exact NegInf" "g_exact NotANum"
  unfolding g_exact_def by code_simp+

end
