(* ===== verification/ArgParse.thy ===== *)
theory ArgParse
  imports PyNumber Prelude
begin

text \<open>
  The command lines of the five programs: what \<open>argparse\<close> makes of an argument list, for parsers that
  have, like these, only long options with one value, flags, and the help option.  Abbreviations,
  \<open>--name=value\<close> and values that look like negative numbers are there.  Every error, and the help option, ends
  the program with \<open>SystemExit\<close>; what is written to the terminal then is left out.  An argument \<open>--\<close> is
  outside the model (value None).
\<close>

datatype opt_kind = OStr | OInt | OFloat | OFlag | OChoice "pystr list"

datatype opt_value = VNone | VStr pystr | VInt int | VFloat xfloat | VBool bool

record option_spec =
  o_name :: pystr
  o_kind :: opt_kind
  o_default :: opt_value

type_synonym namespace = "pystr \<Rightarrow> opt_value"

definition defaults :: "option_spec list \<Rightarrow> namespace" where
  "defaults specs = (\<lambda>n. case find (\<lambda>sp. o_name sp = n) specs of None \<Rightarrow> VNone | Some sp \<Rightarrow> o_default sp)"

section \<open>What an argument is\<close>

datatype token = Plain | Option option_spec "pystr option" | Help | Bad

definition help_names :: "pystr list" where
  "help_names = [u ''--help'', u ''-h'']"

text \<open>\<open>s.split('=', 1)\<close>, when there is an equals sign.\<close>

definition split_equals :: "pystr \<Rightarrow> pystr \<times> pystr option" where
  "split_equals s =
     (if 61 \<in> set s then (takeWhile (\<lambda>c. c \<noteq> 61) s, Some (tl (dropWhile (\<lambda>c. c \<noteq> 61) s))) else (s, None))"

text \<open>The pattern \<open>^-\d+$|^-\d*\.\d+$\<close>; its end also matches before a last newline.\<close>

definition negative_number :: "pystr \<Rightarrow> bool" where
  "negative_number s \<longleftrightarrow>
     (let t = tl s; t = (if t \<noteq> [] \<and> last t = 10 then butlast t else t); p = dropWhile is_digit t
      in hd s = 45 \<and> (all_digits t \<or> (p \<noteq> [] \<and> hd p = 46 \<and> all_digits (tl p))))"

text \<open>An option in full, or the only one that an abbreviation can mean.\<close>

definition exact :: "option_spec list \<Rightarrow> pystr \<Rightarrow> option_spec option" where
  "exact specs n = find (\<lambda>sp. o_name sp = n) specs"

definition starts_with :: "pystr \<Rightarrow> pystr \<Rightarrow> bool" where
  "starts_with p s \<longleftrightarrow> take (length p) s = p"

definition abbreviated :: "option_spec list \<Rightarrow> pystr \<Rightarrow> pystr option \<Rightarrow> token option" where
  "abbreviated specs p v =
     (case map (\<lambda>sp. Option sp v) (filter (\<lambda>sp. starts_with p (o_name sp)) specs)
           @ map (\<lambda>_. Help) (filter (starts_with p) help_names) of
        [] \<Rightarrow> None
      | [t] \<Rightarrow> Some t
      | _ \<Rightarrow> Some Bad)"

definition classify :: "option_spec list \<Rightarrow> pystr \<Rightarrow> token" where
  "classify specs s =
     (if s = [] \<or> hd s \<noteq> 45 then Plain
      else case exact specs s of
        Some sp \<Rightarrow> Option sp None
      | None \<Rightarrow>
          if s \<in> set help_names then Help
          else if length s = 1 then Plain
          else
            (let (p, v) = split_equals s in
             case (if v = None then None else exact specs p) of
               Some sp \<Rightarrow> Option sp v
             | None \<Rightarrow>
                 if v \<noteq> None \<and> p \<in> set help_names then Help
                 else if take 2 s = u ''-h'' then Help
                 else
                   (case (if take 2 s = u ''--'' then abbreviated specs p v else None) of
                      Some t \<Rightarrow> t
                    | None \<Rightarrow> if negative_number s \<or> 32 \<in> set s then Plain else Bad)))"

section \<open>Parsing\<close>

text \<open>The conversion by the \<open>type\<close> of the option, and its \<open>choices\<close>.\<close>

fun convert :: "opt_kind \<Rightarrow> pystr \<Rightarrow> opt_value result" where
  "convert OStr v = Inr (VStr v)"
| "convert OInt v = (case py_int v of Inl e \<Rightarrow> Inl SystemExit | Inr n \<Rightarrow> Inr (VInt n))"
| "convert OFloat v = (case py_float v of Inl e \<Rightarrow> Inl SystemExit | Inr x \<Rightarrow> Inr (VFloat x))"
| "convert (OChoice cs) v = (if v \<in> set cs then Inr (VStr v) else Inl SystemExit)"
| "convert OFlag v = Inl SystemExit"

fun parse_tokens :: "option_spec list \<Rightarrow> namespace \<Rightarrow> pystr list \<Rightarrow> namespace result" where
  "parse_tokens specs ns [] = Inr ns"
| "parse_tokens specs ns (t # ts) =
     (case classify specs t of
        Option sp (Some v) \<Rightarrow>
          bind_res (convert (o_kind sp) v) (\<lambda>x. parse_tokens specs (ns(o_name sp := x)) ts)
      | Option sp None \<Rightarrow>
          if o_kind sp = OFlag then parse_tokens specs (ns(o_name sp := VBool True)) ts
          else (case ts of
                  [] \<Rightarrow> Inl SystemExit
                | v # ts' \<Rightarrow>
                    if classify specs v = Plain
                    then bind_res (convert (o_kind sp) v) (\<lambda>x. parse_tokens specs (ns(o_name sp := x)) ts')
                    else Inl SystemExit)
      | _ \<Rightarrow> Inl SystemExit)"

definition parse_args :: "option_spec list \<Rightarrow> pystr list \<Rightarrow> namespace result option" where
  "parse_args specs args = (if u ''--'' \<in> set args then None else Some (parse_tokens specs (defaults specs) args))"


section \<open>Lemmas\<close>

text \<open>The values of an option: those of its type, and None when that is its default.\<close>

fun has_type :: "opt_kind \<Rightarrow> opt_value \<Rightarrow> bool" where
  "has_type OStr (VStr s) = True"
| "has_type OInt (VInt n) = True"
| "has_type OFloat (VFloat x) = True"
| "has_type OFlag (VBool b) = True"
| "has_type (OChoice cs) (VStr s) \<longleftrightarrow> s \<in> set cs"
| "has_type _ _ = False"

definition allowed :: "option_spec \<Rightarrow> opt_value \<Rightarrow> bool" where
  "allowed sp v \<longleftrightarrow> has_type (o_kind sp) v \<or> (v = VNone \<and> o_default sp = VNone)"

definition well_typed :: "option_spec list \<Rightarrow> namespace \<Rightarrow> bool" where
  "well_typed specs ns \<longleftrightarrow> list_all (\<lambda>sp. allowed sp (ns (o_name sp))) specs"

text \<open>Parsers as these programs build them.\<close>

definition parser_ok :: "option_spec list \<Rightarrow> bool" where
  "parser_ok specs \<longleftrightarrow> distinct (map o_name specs)
     \<and> list_all (\<lambda>sp. take 2 (o_name sp) = u ''--'' \<and> 2 < length (o_name sp) \<and> 61 \<notin> set (o_name sp)
         \<and> o_name sp \<notin> set help_names \<and> allowed sp (o_default sp)) specs"

lemma find_Some_hd: "find P xs = Some x \<longleftrightarrow> filter P xs \<noteq> [] \<and> hd (filter P xs) = x"
  by (induction xs) auto

lemma exact_self: "parser_ok specs \<Longrightarrow> sp \<in> set specs \<Longrightarrow> exact specs (o_name sp) = Some sp"
proof -
  assume a: "parser_ok specs" "sp \<in> set specs"
  then obtain x where x: "exact specs (o_name sp) = Some x"
    by (cases "exact specs (o_name sp)") (auto simp: exact_def find_None_iff)
  then have "x \<in> set specs" "o_name x = o_name sp" by (auto simp: exact_def find_Some_iff)
  with a x show ?thesis by (auto simp: parser_ok_def distinct_map inj_on_def)
qed

lemma exact_name: "exact specs n = Some sp \<Longrightarrow> sp \<in> set specs \<and> o_name sp = n"
  by (auto simp: exact_def find_Some_iff)

lemma defaults_of: "parser_ok specs \<Longrightarrow> sp \<in> set specs \<Longrightarrow> defaults specs (o_name sp) = o_default sp"
  using exact_self by (simp add: defaults_def exact_def)

lemma split_equals_eq: "61 \<notin> set n \<Longrightarrow> split_equals (n @ 61 # v) = (n, Some v)"
  by (induction n) (auto simp: split_equals_def)

text \<open>\<open>--name=value\<close>, and the name alone.\<close>

lemma classify_assignment:
  assumes "parser_ok specs" and "sp \<in> set specs"
  shows "classify specs (o_name sp @ 61 # v) = Option sp (Some v)"
proof -
  have n: "take 2 (o_name sp) = u ''--''" "2 < length (o_name sp)" "61 \<notin> set (o_name sp)"
    using assms by (auto simp: parser_ok_def list_all_iff)
  then obtain t where t: "o_name sp = 45 # 45 # t" by (cases "o_name sp"; cases "tl (o_name sp)") auto
  have "exact specs (o_name sp @ 61 # v) = None"
  proof (cases "exact specs (o_name sp @ 61 # v)")
    case (Some x)
    then have "x \<in> set specs" "61 \<in> set (o_name x)" using exact_name by force+
    then show ?thesis using assms(1) by (auto simp: parser_ok_def list_all_iff)
  qed
  moreover have "61 \<in> set (o_name sp @ 61 # v)" "\<forall>h\<in>set help_names. 61 \<notin> set h" by (simp_all add: help_names_def)
  then have "o_name sp @ 61 # v \<notin> set help_names" by blast
  ultimately show ?thesis using split_equals_eq[OF n(3)] exact_self[OF assms] by (simp add: classify_def t Let_def)
qed

lemma classify_name: "parser_ok specs \<Longrightarrow> sp \<in> set specs \<Longrightarrow> classify specs (o_name sp) = Option sp None"
proof -
  assume a: "parser_ok specs" "sp \<in> set specs"
  then have "take 2 (o_name sp) = u ''--''" "2 < length (o_name sp)" by (auto simp: parser_ok_def list_all_iff)
  then have "o_name sp \<noteq> []" "hd (o_name sp) = 45" by (cases "o_name sp"; auto)+
  then show ?thesis using exact_self[OF a] by (simp add: classify_def)
qed

lemma classify_plain: "s = [] \<or> hd s \<noteq> 45 \<Longrightarrow> classify specs s = Plain"
  by (simp add: classify_def)

text \<open>An option and its value, written in one argument or, when it does not look like an option, in two.\<close>

fun written :: "option_spec list \<Rightarrow> (option_spec \<times> pystr) \<times> bool \<Rightarrow> pystr list" where
  "written specs ((sp, v), True) = [o_name sp @ 61 # v]"
| "written specs ((sp, v), False) = [o_name sp, v]"

definition set_option :: "namespace \<Rightarrow> (option_spec \<times> pystr) \<times> bool \<Rightarrow> namespace" where
  "set_option ns p = ns(o_name (fst (fst p)) := projr (convert (o_kind (fst (fst p))) (snd (fst p))))"

lemma parse_written:
  assumes "parser_ok specs"
  shows "list_all (\<lambda>((sp, v), one). sp \<in> set specs \<and> ok (convert (o_kind sp) v) \<and> (one \<or> classify specs v = Plain)) ps \<Longrightarrow>
    parse_tokens specs ns (concat (map (written specs) ps))
      = Inr (foldl set_option ns ps)"
proof (induction ps arbitrary: ns)
  case (Cons p ps)
  obtain sp v one where p: "p = ((sp, v), one)" by (metis surj_pair)
  have a: "sp \<in> set specs" "ok (convert (o_kind sp) v)" "one \<or> classify specs v = Plain" using Cons.prems by (auto simp: p)
  then obtain x where x: "convert (o_kind sp) v = Inr x" by (auto simp: ok_iff)
  then have "o_kind sp \<noteq> OFlag" "set_option ns p = ns(o_name sp := x)" by (auto simp: set_option_def p)
  then show ?case using Cons.IH Cons.prems x a classify_assignment[OF assms a(1)] classify_name[OF assms a(1)]
    by (cases one) (simp_all add: p)
qed simp

text \<open>The only way to fail.\<close>

lemma convert_error: "convert k v = Inl e \<Longrightarrow> e = SystemExit"
  by (cases k) (auto split: sum.splits if_splits)

lemma bind_res_Inl: "bind_res r f = Inl e \<longleftrightarrow> r = Inl e \<or> (\<exists>x. r = Inr x \<and> f x = Inl e)"
  by (cases r) auto

lemma bind_res_Inr: "bind_res r f = Inr y \<longleftrightarrow> (\<exists>x. r = Inr x \<and> f x = Inr y)"
  by (cases r) auto

lemma parse_tokens_error: "parse_tokens specs ns ts = Inl e \<Longrightarrow> e = SystemExit"
  by (induction specs ns ts rule: parse_tokens.induct)
    (auto split: token.splits option.splits if_splits list.splits simp: bind_res_Inl simp del: fun_upd_apply dest: convert_error)

lemma convert_type: "convert k v = Inr x \<Longrightarrow> has_type k x"
  by (cases k) (auto split: sum.splits if_splits)

lemma exact_in: "exact specs n = Some sp \<Longrightarrow> sp \<in> set specs"
  using exact_name by blast

lemma abbreviated_in: "abbreviated specs p v = Some (Option sp w) \<Longrightarrow> sp \<in> set specs"
  by (auto simp: abbreviated_def append_eq_Cons_conv filter_eq_Cons_iff map_eq_Cons_conv split: list.splits)

lemma classify_in: "classify specs s = Option sp w \<Longrightarrow> sp \<in> set specs"
  by (auto simp: classify_def Let_def split: if_splits option.splits prod.splits dest: exact_in abbreviated_in)

lemma well_typed_update:
  assumes "parser_ok specs" and "well_typed specs ns" and "sp \<in> set specs" and "has_type (o_kind sp) x"
  shows "well_typed specs (ns(o_name sp := x))"
proof -
  have "sp' = sp" if "sp' \<in> set specs" "o_name sp' = o_name sp" for sp'
    using assms(1,3) that by (auto simp: parser_ok_def distinct_map inj_on_def)
  then show ?thesis using assms(2,4) by (auto simp: well_typed_def allowed_def list_all_iff)
qed

lemma parse_tokens_typed:
  "parser_ok specs \<Longrightarrow> well_typed specs ns \<Longrightarrow> parse_tokens specs ns ts = Inr ns' \<Longrightarrow> well_typed specs ns'"
proof (induction specs ns ts rule: parse_tokens.induct)
  case (2 specs ns t ts)
  show ?case
  proof (cases "classify specs t")
    case (Option sp w)
    note upd = well_typed_update[OF "2.prems"(1,2) classify_in[OF Option]]
    show ?thesis
    proof (cases w)
      case (Some v)
      then obtain x where "convert (o_kind sp) v = Inr x" "parse_tokens specs (ns(o_name sp := x)) ts = Inr ns'"
        using "2.prems"(3) Option by (auto simp: bind_res_Inr simp del: fun_upd_apply)
      then show ?thesis using "2.IH"(3)[OF Option Some _ "2.prems"(1) upd] convert_type by blast
    next
      case None
      then consider (flag) "o_kind sp = OFlag" "parse_tokens specs (ns(o_name sp := VBool True)) ts = Inr ns'"
        | (val) v ts' x where "o_kind sp \<noteq> OFlag" "ts = v # ts'" "classify specs v = Plain" "convert (o_kind sp) v = Inr x"
            "parse_tokens specs (ns(o_name sp := x)) ts' = Inr ns'"
        using "2.prems"(3) Option
        by (cases ts) (auto simp: bind_res_Inr simp del: fun_upd_apply split: if_splits)
      then show ?thesis
      proof cases
        case flag
        then show ?thesis using "2.IH"(1)[OF Option None _ "2.prems"(1) upd] by (simp del: fun_upd_apply)
      next
        case val
        then show ?thesis using "2.IH"(2)[OF Option None _ _ _ _ "2.prems"(1) upd] convert_type by blast
      qed
    qed
  qed (use "2.prems" in simp_all)
qed simp

lemma defaults_typed: "parser_ok specs \<Longrightarrow> well_typed specs (defaults specs)"
  by (simp add: well_typed_def list_all_iff defaults_of) (simp add: parser_ok_def list_all_iff)

text \<open>What a command line can lead to.\<close>

lemma parse_args_cases:
  assumes "parser_ok specs" and "parse_args specs args = Some r"
  shows "r = Inl SystemExit \<or> (\<exists>ns. r = Inr ns \<and> well_typed specs ns)"
proof -
  have r: "r = parse_tokens specs (defaults specs) args" using assms(2) by (auto simp: parse_args_def split: if_splits)
  then show ?thesis using parse_tokens_error[of specs "defaults specs" args] parse_tokens_typed[OF assms(1) defaults_typed[OF assms(1)]]
    by (cases "parse_tokens specs (defaults specs) args") auto
qed

end
