(* ===== verification/PyPath.thy ===== *)
theory PyPath
  imports PyText
begin

text \<open>
  What the programs use of \<open>pathlib\<close> on POSIX: the parts of a path, its name, stem and parent, appending a
  relative path, and the text of a path.
\<close>

record path =
  path_root :: pystr
  path_parts :: "pystr list"

text \<open>\<open>s.split('/')\<close>.\<close>

fun split_slash :: "pystr \<Rightarrow> pystr list" where
  "split_slash [] = [[]]"
| "split_slash (c # s) =
     (if c = 47 then [] # split_slash s else (case split_slash s of p # ps \<Rightarrow> (c # p) # ps | [] \<Rightarrow> [[c]]))"

definition parts_of :: "pystr \<Rightarrow> pystr list" where
  "parts_of s = filter (\<lambda>p. p \<noteq> [] \<and> p \<noteq> u ''.'') (split_slash s)"

text \<open>Exactly two leading slashes are kept.\<close>

definition Path :: "pystr \<Rightarrow> path" where
  "Path s =
     \<lparr>path_root = (case length (takeWhile (\<lambda>c. c = 47) s) of 0 \<Rightarrow> [] | Suc 0 \<Rightarrow> [47] | Suc (Suc 0) \<Rightarrow> [47, 47] | _ \<Rightarrow> [47]),
      path_parts = parts_of s\<rparr>"

definition path_name :: "path \<Rightarrow> pystr" where
  "path_name p = (if path_parts p = [] then [] else last (path_parts p))"

text \<open>The name up to its last dot, unless that is its first or last character.\<close>

definition path_stem :: "path \<Rightarrow> pystr" where
  "path_stem p =
     (let n = path_name p; ext = takeWhile (\<lambda>c. c \<noteq> 46) (rev n); i = length n - length ext - 1
      in if 46 \<in> set n \<and> 0 < i \<and> ext \<noteq> [] then take i n else n)"

definition path_parent :: "path \<Rightarrow> path" where
  "path_parent p = p\<lparr>path_parts := butlast (path_parts p)\<rparr>"

definition path_append :: "path \<Rightarrow> pystr \<Rightarrow> path" where
  "path_append p s = (if s \<noteq> [] \<and> hd s = 47 then Path s else p\<lparr>path_parts := path_parts p @ parts_of s\<rparr>)"

definition path_str :: "path \<Rightarrow> pystr" where
  "path_str p = (if path_root p = [] \<and> path_parts p = [] then u ''.'' else path_root p @ join [47] (path_parts p))"

lemma path_examples:
  "path_stem (Path (u ''experiments/sudden_drop.json'')) = u ''sudden_drop''" "path_stem (Path (u ''a/.hidden'')) = u ''.hidden''"
  "path_stem (Path (u ''a.tar.gz'')) = u ''a.tar''" "path_str (Path (u ''./out//x/.'')) = u ''out/x''"
  "path_str (path_append (path_parent (Path (u ''database/streaming.db''))) (u ''last_comparison.json''))
     = u ''database/last_comparison.json''"
  by code_simp+

text \<open>The text of a path is read as the same path.\<close>

definition path_ok :: "path \<Rightarrow> bool" where
  "path_ok p \<longleftrightarrow> path_root p \<in> {[], [47], [47, 47]}
     \<and> list_all (\<lambda>s. s \<noteq> [] \<and> s \<noteq> u ''.'' \<and> 47 \<notin> set s) (path_parts p)"

lemma split_slash_free: "47 \<notin> set s \<Longrightarrow> split_slash s = [s]"
  by (induction s) auto

lemma split_slash_append: "47 \<notin> set s \<Longrightarrow> split_slash (s @ 47 # t) = s # split_slash t"
  by (induction s) auto

lemma split_slash_join:
  "ps \<noteq> [] \<Longrightarrow> list_all (\<lambda>s. 47 \<notin> set s) ps \<Longrightarrow> split_slash (join [47] ps) = ps"
  by (induction "[47] :: pystr" ps rule: join.induct) (simp_all add: split_slash_free split_slash_append)

lemma split_slash_parts: "p \<in> set (split_slash s) \<Longrightarrow> 47 \<notin> set p"
  by (induction s arbitrary: p) (auto split: if_splits list.splits)

lemma Path_ok: "path_ok (Path s)"
  using split_slash_parts by (auto simp: path_ok_def Path_def parts_of_def list_all_iff split: nat.split)

lemma parts_of_slash [simp]: "parts_of (47 # s) = parts_of s"
  by (simp add: parts_of_def)

lemma parts_of_join: "list_all (\<lambda>s. s \<noteq> [] \<and> s \<noteq> u ''.'' \<and> 47 \<notin> set s) ps \<Longrightarrow> parts_of (join [47] ps) = ps"
proof (cases "ps = []")
  case False
  assume ps: "list_all (\<lambda>s. s \<noteq> [] \<and> s \<noteq> u ''.'' \<and> 47 \<notin> set s) ps"
  then have "split_slash (join [47] ps) = ps" by (intro split_slash_join False) (auto simp: list_all_iff)
  then show ?thesis using ps by (auto simp: parts_of_def list_all_iff filter_id_conv)
qed (simp add: parts_of_def)

lemma join_start: "p \<noteq> [] \<Longrightarrow> hd (join sep (p # ps)) = hd p \<and> join sep (p # ps) \<noteq> []"
  by (cases ps) auto

lemma Path_str: "path_ok p \<Longrightarrow> Path (path_str p) = p"
proof (cases "path_parts p")
  case Nil
  assume "path_ok p"
  then show ?thesis using Nil by (cases p) (auto simp: path_ok_def path_str_def Path_def parts_of_def)
next
  case (Cons s ps)
  assume p: "path_ok p"
  let ?j = "join [47] (s # ps)"
  have "s \<noteq> []" "47 \<notin> set s" using p Cons by (simp_all add: path_ok_def)
  then have "takeWhile (\<lambda>c. c = 47) ?j = []" using join_start[of s "[47]" ps] by (cases ?j; cases s) auto
  moreover have "parts_of ?j = s # ps" using p Cons by (intro parts_of_join) (simp add: path_ok_def)
  ultimately show ?thesis using p Cons by (cases p) (auto simp: path_ok_def path_str_def Path_def simp del: join.simps)
qed

end
