(* ===== verification/PyFormat.thy ===== *)
theory PyFormat
  imports PyNumber
begin

text \<open>
  How the reports print numbers: \<open>f"{x:.3f}"\<close>, padding to a width, and \<open>repr\<close> of a float, which
  \<open>json\<close> and \<open>csv\<close> use: the shortest decimal that reads back as the same float.
\<close>

section \<open>Fixed point and padding\<close>

definition zero_pad :: "nat \<Rightarrow> pystr \<Rightarrow> pystr" where
  "zero_pad w s = replicate (w - length s) 48 @ s"

text \<open>The exact value, rounded to \<open>k\<close> places with ties to even; the sign is kept also when all digits are zero.\<close>

definition fmt_f :: "nat \<Rightarrow> real \<Rightarrow> pystr" where
  "fmt_f k x =
     (let n = round_even (\<bar>x\<bar> * 10 ^ k);
          t = dec_str (n div 10 ^ k) @ (if k = 0 then [] else 46 # zero_pad k (dec_str (n mod 10 ^ k)))
      in if x < 0 then 45 # t else t)"

definition pad_left :: "nat \<Rightarrow> pystr \<Rightarrow> pystr" where
  "pad_left w s = replicate (w - length s) 32 @ s"

definition pad_right :: "nat \<Rightarrow> pystr \<Rightarrow> pystr" where
  "pad_right w s = s @ replicate (w - length s) 32"

lemma length_pad [simp]: "length (pad_left w s) = max w (length s)" "length (pad_right w s) = max w (length s)"
  by (auto simp: pad_left_def pad_right_def)

lemma fmt_f_examples:
  "fmt_f 3 (5 / 2) = u ''2.500''" "fmt_f 0 (5 / 2) = u ''2''" "fmt_f 2 (- 1 / 1000) = u ''-0.00''" "fmt_f 2 (fl (1 / 10)) = u ''0.10''"
  by code_simp+

section \<open>Shortest representation\<close>

text \<open>Decimals \<open>d * 10 powi k\<close> with \<open>n\<close> digits next to \<open>x > 0\<close>, the nearest one first.\<close>

definition neighbours :: "real \<Rightarrow> nat \<Rightarrow> (int \<times> int) list" where
  "neighbours x n =
     (let k = flog 10 x - int n + 1; q = x * 10 powi (- k)
      in map (\<lambda>d. (d, k)) [round_even q, \<lfloor>q\<rfloor>, \<lfloor>q\<rfloor> + 1])"

definition decimal :: "int \<times> int \<Rightarrow> real" where
  "decimal p = of_int (fst p) * 10 powi (snd p)"

text \<open>The fewest digits, from one to 17, with a neighbour that reads back as \<open>x\<close>.\<close>

fun shortest_from :: "real \<Rightarrow> nat list \<Rightarrow> int \<times> int" where
  "shortest_from x [] = hd (neighbours x 17)"
| "shortest_from x (n # ns) =
     (case find (\<lambda>p. fl (decimal p) = x) (neighbours x n) of Some p \<Rightarrow> p | None \<Rightarrow> shortest_from x ns)"

definition shortest :: "real \<Rightarrow> int \<times> int" where
  "shortest x = shortest_from x [1..<18]"

text \<open>The significant digits and the position of the point, as \<open>repr\<close> lays them out.\<close>

definition place_digits :: "pystr \<Rightarrow> int \<Rightarrow> pystr" where
  "place_digits ds p =
     (if p \<le> -4 \<or> 16 < p then take 1 ds @ (if length ds = 1 then [] else 46 # drop 1 ds) @ 101 # fmt_exp (p - 1)
      else if p \<le> 0 then u ''0.'' @ replicate (nat (- p)) 48 @ ds
      else if p < int (length ds) then take (nat p) ds @ 46 # drop (nat p) ds
      else ds @ replicate (nat p - length ds) 48 @ u ''.0'')"

definition repr_pos :: "real \<Rightarrow> pystr" where
  "repr_pos x =
     (let (d, k) = shortest x; s = dec_str d in place_digits (rstrip_zeros s) (int (length s) + k))"

definition repr_float :: "real \<Rightarrow> pystr" where
  "repr_float x = (if x = 0 then u ''0.0'' else if x < 0 then 45 # repr_pos (- x) else repr_pos x)"

section \<open>A decimal near a float reads back as that float\<close>

lemma round_even_near: "\<bar>x - of_int n\<bar> < 1 / 2 \<Longrightarrow> round_even x = n"
  using round_even_error[of x] by linarith

lemma float_scaled:
  assumes "is_float x" and "x \<noteq> 0"
  shows "\<exists>m. x = of_int m * 2 powi fexp x \<and> \<bar>m\<bar> < 2 ^ 53"
proof -
  let ?m = "round_even (x * 2 powi (- fexp x))"
  have e: "x = of_int ?m * 2 powi fexp x" using fl_is_float[OF assms(1)] assms(2) by (simp add: fl_def)
  then have "x * 2 powi (- fexp x) = of_int ?m * (2 powi fexp x * 2 powi (- fexp x))" by (metis mult.assoc)
  then have "x * 2 powi (- fexp x) = of_int ?m" by simp
  then have "\<bar>of_int ?m :: real\<bar> < 2 ^ 53" using scaled_less[OF assms(2)] by metis
  then have "\<bar>?m\<bar> < 2 ^ 53" by (metis of_int_abs of_int_less_numeral_power_cancel_iff)
  with e show ?thesis by blast
qed

lemma fexp_bounds:
  assumes "0 < x"
  shows "x < 2 powi (fexp x + 53)" and "-1074 < fexp x \<Longrightarrow> 2 powi (fexp x + 52) \<le> x"
proof -
  have "\<lfloor>log 2 x\<rfloor> + 1 \<le> fexp x + 53" by (simp add: fexp_def abs_of_pos[OF assms])
  then have "2 powi (\<lfloor>log 2 x\<rfloor> + 1) \<le> (2::real) powi (fexp x + 53)" by (rule powi2_mono)
  then show "x < 2 powi (fexp x + 53)" using log2_bounds(2)[of x] assms by simp
  show "-1074 < fexp x \<Longrightarrow> 2 powi (fexp x + 52) \<le> x" using log2_bounds(1)[of x] assms by (simp add: fexp_def max_def split: if_splits)
qed

lemma fl_of_scaled: "0 < y \<Longrightarrow> fexp y = g \<Longrightarrow> \<bar>y - of_int m * 2 powi g\<bar> < 2 powi g / 2 \<Longrightarrow> fl y = of_int m * 2 powi g"
proof -
  assume y: "0 < y" "fexp y = g" "\<bar>y - of_int m * 2 powi g\<bar> < 2 powi g / 2"
  have "y * 2 powi (- g) - of_int m = (y - of_int m * 2 powi g) * 2 powi (- g)" by (simp add: left_diff_distrib mult.assoc)
  then have "\<bar>y * 2 powi (- g) - of_int m\<bar> = \<bar>y - of_int m * 2 powi g\<bar> * 2 powi (- g)" by (simp only: abs_mult abs_of_pos[OF powi2_pos])
  also have "\<dots> < 2 powi g / 2 * 2 powi (- g)" by (rule mult_strict_right_mono[OF y(3)]) simp
  also have "\<dots> = 1 / 2" using powi2_inverse(1)[of g] by simp
  finally show ?thesis using y(1,2) round_even_near by (simp add: fl_def)
qed

lemma fexp_ge: "-1074 \<le> fexp x"
  by (simp add: fexp_def)

text \<open>A relative distance below \<open>2 powi (-54)\<close> is less than half a unit of the last place.\<close>

lemma powi_54: "(2::real) powi (-54) = 1 / 2 ^ 54"
  by (simp add: power_int_def power_one_over)

lemma near_half:
  assumes "0 < x" and "\<bar>y - x\<bar> < x * 2 powi (-54)"
  shows "\<bar>y - x\<bar> < 2 powi fexp x / 2" and "0 < y"
proof -
  have "x < 2 ^ 53 * 2 powi fexp x" using fexp_bounds(1)[OF assms(1)] by (simp add: powi2_add mult.commute)
  then have "x * 2 powi (-54) < 2 ^ 53 * 2 powi fexp x * 2 powi (-54)" by (rule mult_strict_right_mono) simp
  also have "\<dots> = 2 powi fexp x / 2" unfolding powi_54 by simp
  finally show "\<bar>y - x\<bar> < 2 powi fexp x / 2" using assms(2) by linarith
  have "x * 2 powi (-54) \<le> x * 1" using assms(1) by (intro mult_left_mono) (simp_all add: powi_54)
  then show "0 < y" using assms(2) by linarith
qed

text \<open>It cannot lead to a larger exponent; a smaller one only from just below a power of two.\<close>

lemma near_exponent:
  assumes x: "is_float x" "0 < x" and d: "\<bar>y - x\<bar> < x * 2 powi (-54)"
  shows "fexp y \<le> fexp x"
proof (rule ccontr)
  let ?p = "2 powi fexp x :: real"
  obtain m where m: "x = of_int m * ?p" "\<bar>m\<bar> < 2 ^ 53" using float_scaled[OF x(1)] x(2) by auto
  then have "m \<le> 2 ^ 53 - 1" by linarith
  then have "(of_int m :: real) \<le> of_int (2 ^ 53 - 1)" by (simp only: of_int_le_iff)
  then have "of_int m * ?p \<le> (2 ^ 53 - 1) * ?p" by (intro mult_right_mono) simp_all
  then have "x \<le> 2 ^ 53 * ?p - ?p" unfolding m(1)[symmetric] by (simp add: left_diff_distrib)
  moreover have "0 < ?p" by simp
  ultimately have lt: "y < 2 ^ 53 * ?p" using near_half(1)[OF x(2) d] by linarith
  assume "\<not> fexp y \<le> fexp x"
  then have "-1074 < fexp y" "fexp x + 53 \<le> fexp y + 52" using fexp_ge[of x] by simp_all
  then have "2 powi (fexp x + 53) \<le> y" using fexp_bounds(2)[OF near_half(2)[OF x(2) d]] powi2_mono order_trans by blast
  then show False using lt by (simp add: powi2_add mult.commute)
qed

lemma near_power:
  assumes x: "is_float x" "0 < x" and d: "\<bar>y - x\<bar> < x * 2 powi (-54)" and low: "fexp y < fexp x"
  shows "x = 2 ^ 52 * 2 powi fexp x"
proof -
  define p :: real where "p = 2 powi fexp x"
  have p0: "0 < p" by (simp add: p_def)
  have shift: "(2::real) powi (fexp x + int k) = 2 ^ k * p" for k by (simp add: p_def powi2_add power_int_of_nat)
  obtain m where m: "x = of_int m * p" using float_scaled[OF x(1)] x(2) by (auto simp: p_def)
  have "-1074 < fexp x" using low fexp_ge[of y] by simp
  then have "2 ^ 52 * p \<le> x" using fexp_bounds(2)[OF x(2)] shift[of 52] by simp
  moreover have "y < 2 ^ 52 * p"
    using fexp_bounds(1)[OF near_half(2)[OF x(2) d]] powi2_mono[of "fexp y + 53" "fexp x + 52"] low shift[of 52] by simp
  moreover have "x < y + p / 2" using near_half(1)[OF x(2) d] unfolding p_def by linarith
  ultimately have "2 ^ 52 * p \<le> of_int m * p" "of_int m * p < (2 ^ 52 + 1) * p"
    unfolding m[symmetric] using p0 by simp_all
  then have "(2::real) ^ 52 \<le> of_int m" "of_int m < (2 ^ 52 + 1 :: real)"
    using p0 by (simp_all only: mult_le_cancel_right_pos mult_less_cancel_right_pos)
  then have "of_int (2 ^ 52) \<le> (of_int m :: real)" "(of_int m :: real) < of_int (2 ^ 52 + 1)" by simp_all
  then have "m = 2 ^ 52" unfolding of_int_le_iff of_int_less_iff by linarith
  then show ?thesis using m by (simp add: p_def)
qed

lemma fl_near:
  assumes x: "is_float x" "0 < x" and d: "\<bar>y - x\<bar> < x * 2 powi (-54)"
  shows "fl y = x"
proof (cases "fexp y = fexp x")
  case True
  obtain m where "x = of_int m * 2 powi fexp x" using float_scaled[OF x(1)] x(2) by auto
  then show ?thesis using fl_of_scaled[OF near_half(2)[OF x(2) d] True, of m] near_half(1)[OF x(2) d] by simp
next
  case False
  define e where "e = fexp x - 1"
  define q :: real where "q = 2 powi e"
  have y: "0 < y" by (rule near_half(2)[OF x(2) d])
  have low: "fexp y < fexp x" using False near_exponent[OF assms] by simp
  have "2 powi fexp x = 2 * q" using powi2_add[of e 1] by (simp add: q_def e_def)
  then have x53: "x = 2 ^ 53 * q" using near_power[OF assms low] by simp
  have q0: "0 < q" by (simp add: q_def)
  have "x * 2 powi (-54) = q / 2" unfolding x53 powi_54 by simp
  then have near: "\<bar>y - 2 ^ 53 * q\<bar> < q / 2" using d unfolding x53 by simp
  then have "2 ^ 53 * q - q / 2 < y" by linarith
  then have "2 ^ 52 * q \<le> y" using q0 by simp
  moreover have "2 powi (e + 52) = 2 ^ 52 * q" unfolding q_def powi2_add by simp
  ultimately have "\<not> fexp y + 53 \<le> e + 52"
    using fexp_bounds(1)[OF y] powi2_mono[of "fexp y + 53" "e + 52"] by linarith
  then have "fexp y = e" using low unfolding e_def by linarith
  moreover have "\<bar>y - of_int (2 ^ 53) * 2 powi e\<bar> < 2 powi e / 2" using near unfolding q_def by simp
  ultimately have "fl y = of_int (2 ^ 53) * 2 powi e" by (intro fl_of_scaled[OF y]) simp_all
  then show ?thesis unfolding x53 q_def by simp
qed

lemma powi10_add: "(10::real) powi (a + b) = 10 powi a * 10 powi b"
  by (simp add: power_int_add)

lemma neighbours_scale:
  assumes "0 < x" and "1 \<le> n"
  shows "1 \<le> x * 10 powi (int n - 1 - flog 10 x)"
proof -
  have "(10::real) powi flog 10 x * 10 powi (int n - 1 - flog 10 x) \<le> x * 10 powi (int n - 1 - flog 10 x)"
    using flog_bounds(1)[of 10 x] assms(1) by (intro mult_right_mono) simp_all
  moreover have "(1::real) \<le> 10 powi (int n - 1)" using assms(2) by (simp add: power_int_def)
  ultimately show ?thesis by (simp flip: powi10_add)
qed

lemma neighbours_pos: "0 < x \<Longrightarrow> 1 \<le> n \<Longrightarrow> p \<in> set (neighbours x n) \<Longrightarrow> 1 \<le> fst p"
proof -
  assume a: "0 < x" "1 \<le> n" "p \<in> set (neighbours x n)"
  let ?q = "x * 10 powi (- (flog 10 x - int n + 1))"
  have "- (flog 10 x - int n + 1) = int n - 1 - flog 10 x" by simp
  then have "1 \<le> \<lfloor>?q\<rfloor>" using neighbours_scale[OF a(1,2)] by (simp only: le_floor_iff of_int_1)
  moreover from this have "1 \<le> round_even ?q" using round_even_bounds[of ?q] by linarith
  moreover have "fst p \<in> {round_even ?q, \<lfloor>?q\<rfloor>, \<lfloor>?q\<rfloor> + 1}" using a(3) by (auto simp: neighbours_def Let_def)
  ultimately show ?thesis by (elim insertE) simp_all
qed

lemma seventeen_digits:
  assumes "is_float x" and "0 < x"
  shows "fl (decimal (hd (neighbours x 17))) = x"
proof -
  let ?k = "flog 10 x - 16" let ?q = "x * 10 powi (- ?k)"
  have i: "(10::real) powi (- ?k) * 10 powi ?k = 1" by (simp flip: powi10_add)
  have x: "x = ?q * 10 powi ?k" using i by (simp add: mult.assoc)
  have "decimal (hd (neighbours x 17)) - x = (of_int (round_even ?q) - ?q) * 10 powi ?k"
    using x by (simp add: decimal_def neighbours_def Let_def left_diff_distrib)
  then have "\<bar>decimal (hd (neighbours x 17)) - x\<bar> = \<bar>of_int (round_even ?q) - ?q\<bar> * 10 powi ?k" by (simp add: abs_mult)
  also have "\<dots> \<le> 1 / 2 * 10 powi ?k" by (intro mult_right_mono round_even_error) simp
  also have "(10::real) powi ?k = 10 powi flog 10 x * 10 powi (-16)"
    using powi10_add[of "flog 10 x" "-16"] by simp
  also have "1 / 2 * (10 powi flog 10 x * 10 powi (-16)) \<le> 1 / 2 * (x * 10 powi (-16))"
    using flog_bounds(1)[of 10 x] assms(2) by (intro mult_left_mono mult_right_mono) simp_all
  also have "\<dots> = x * (10 powi (-16) / 2)" by simp
  also have "\<dots> < x * 2 powi (-54)"
    by (intro mult_strict_left_mono assms(2)) (simp add: power_int_def power_divide)
  finally show ?thesis by (rule fl_near[OF assms])
qed

lemma shortest_reads_back:
  assumes "is_float x" and "0 < x"
  shows "fl (decimal (shortest x)) = x" and "1 \<le> fst (shortest x)"
proof -
  have "fl (decimal (shortest_from x ns)) = x \<and> 1 \<le> fst (shortest_from x ns)" if "\<forall>n\<in>set ns. 1 \<le> n" for ns
    using that
  proof (induction ns)
    case Nil
    have "hd (neighbours x 17) \<in> set (neighbours x 17)" by (simp add: neighbours_def Let_def)
    then show ?case using seventeen_digits[OF assms] neighbours_pos[OF assms(2), of 17] by simp
  next
    case (Cons n ns)
    show ?case
    proof (cases "find (\<lambda>p. fl (decimal p) = x) (neighbours x n)")
      case (Some p)
      then have "fl (decimal p) = x" "p \<in> set (neighbours x n)" by (auto simp: find_Some_iff)
      then show ?thesis using Some Cons.prems neighbours_pos[OF assms(2), of n p] by simp
    qed (use Cons in simp)
  qed
  from this[of "[1..<18]"] show "fl (decimal (shortest x)) = x" "1 \<le> fst (shortest x)" by (simp_all add: shortest_def)
qed

text \<open>The layout of the digits is a decimal with the same value.\<close>

lemma digits_of_zeros [simp]: "digits_of (replicate j 48) = replicate j 0"
  by (simp add: digits_of_def ascii_digit_def)

lemma parse_exponent_fmt: "parse_exponent (101 # fmt_exp e) = Some e"
proof -
  define ds where "ds = replicate (2 - length (dec_str \<bar>e\<bar>)) 48 @ dec_str \<bar>e\<bar>"
  have "digits_val (digits_of ds) = \<bar>e\<bar>" by (simp add: ds_def digits_of_append digits_val_append)
  moreover have "all_digits ds" by (rule all_digits_ascii) (auto simp: ds_def ascii_digit_def[of 48])
  moreover have "fmt_exp e = (if e < 0 then 45 else 43) # ds" by (simp add: fmt_exp_def Let_def ds_def)
  ultimately show ?thesis by (simp add: parse_exponent_def split_sign_def)
qed

definition digit_str :: "pystr \<Rightarrow> bool" where
  "digit_str s \<longleftrightarrow> s \<noteq> [] \<and> (\<forall>c\<in>set s. ascii_digit c)"

lemma takeWhile_digits:
  assumes "\<forall>c\<in>set s. ascii_digit c" and "r = [] \<or> \<not> is_digit (hd r)"
  shows "takeWhile is_digit (s @ r) = s" "dropWhile is_digit (s @ r) = r"
proof -
  have "\<forall>c\<in>set s. is_digit c" using assms(1) by simp
  then show "takeWhile is_digit (s @ r) = s" "dropWhile is_digit (s @ r) = r"
    using assms(2) by (cases r; simp add: takeWhile_append2 dropWhile_append2)+
qed

lemma not_digits [simp]: "\<not> is_digit 46" "\<not> is_digit 101"
  by (simp_all add: not_digit_low ascii_digit_def)

lemma parse_decimal_point:
  assumes "digit_str ip" and "\<forall>c\<in>set fp. ascii_digit c" and "r = [] \<or> \<not> is_digit (hd r)"
  shows "parse_decimal (ip @ 46 # fp @ r) =
    map_option (\<lambda>e. of_int (digits_val (digits_of (ip @ fp))) * 10 powi (e - int (length fp))) (parse_exponent r)"
  using assms takeWhile_digits[of ip "46 # fp @ r"] takeWhile_digits[OF assms(2,3)]
  by (simp add: parse_decimal_def digit_str_def)

lemma parse_decimal_plain:
  assumes "digit_str ip" and "r = [] \<or> \<not> is_digit (hd r) \<and> hd r \<noteq> 46"
  shows "parse_decimal (ip @ r) = map_option (\<lambda>e. of_int (digits_val (digits_of ip)) * 10 powi e) (parse_exponent r)"
  using assms takeWhile_digits[of ip r] by (auto simp: parse_decimal_def digit_str_def)

lemma digits_of_zero [simp]: "digits_of (48 # s) = 0 # digits_of s"
  by (simp add: digits_of_def ascii_digit_def)

lemma digits_val_zero [simp]: "digits_val (0 # xs) = digits_val xs"
  by (simp add: digits_val_def)

lemma parse_exponent_Nil [simp]: "parse_exponent [] = Some 0"
  by (simp add: parse_exponent_def)

lemma powi10_nat: "(10::real) powi int k = of_int (10 ^ k)"
  by (simp add: power_int_of_nat)

lemma digit_48: "ascii_digit 48"
  by (simp add: ascii_digit_def)

text \<open>Zeros in front after the point, and zeros behind before it.\<close>

lemma parse_leading_zeros:
  assumes "digit_str ds" and "p \<le> 0"
  shows "parse_decimal (u ''0.'' @ replicate (nat (- p)) 48 @ ds) = Some (of_int (digits_val (digits_of ds)) * 10 powi (p - int (length ds)))"
proof -
  let ?z = "replicate (nat (- p)) 48"
  have "parse_decimal ([48] @ 46 # (?z @ ds) @ []) = map_option (\<lambda>e. of_int (digits_val (digits_of ([48] @ ?z @ ds))) *
      10 powi (e - int (length (?z @ ds)))) (parse_exponent [])"
    using assms(1) digit_48 by (intro parse_decimal_point) (auto simp: digit_str_def)
  moreover have "digits_val (digits_of ([48] @ ?z @ ds)) = digits_val (digits_of ds)" by (simp add: digits_of_append digits_val_append)
  moreover have "0 - int (length (?z @ ds)) = p - int (length ds)" using assms(2) by simp
  moreover have "u ''0.'' @ ?z @ ds = [48] @ 46 # (?z @ ds) @ []" by simp
  ultimately show ?thesis by (simp only: parse_exponent_Nil option.map)
qed

lemma parse_trailing_zeros:
  assumes "digit_str ds" and "int (length ds) \<le> p"
  shows "parse_decimal (ds @ replicate (nat p - length ds) 48 @ u ''.0'') = Some (of_int (digits_val (digits_of ds)) * 10 powi (p - int (length ds)))"
proof -
  let ?z = "replicate (nat p - length ds) 48" and ?v = "digits_val (digits_of ds)"
  have "parse_decimal ((ds @ ?z) @ 46 # [48] @ []) = map_option (\<lambda>e. of_int (digits_val (digits_of ((ds @ ?z) @ [48]))) *
      10 powi (e - int (length [48::int]))) (parse_exponent [])"
    using assms(1) digit_48 by (intro parse_decimal_point) (auto simp: digit_str_def)
  moreover have "digits_val (digits_of ((ds @ ?z) @ [48])) = ?v * 10 ^ (nat p - length ds) * 10"
    by (simp add: digits_of_append digits_val_append) (simp add: digits_of_def digits_val_def)
  moreover have "of_int (?v * 10 ^ (nat p - length ds) * 10) * 10 powi (0 - int (length [48::int]))
      = (of_int ?v * 10 powi (p - int (length ds)) :: real)"
  proof -
    have "p - int (length ds) = int (nat p - length ds)" using assms(2) by simp
    then show ?thesis by (simp only: power_int_of_nat) (simp add: power_int_def)
  qed
  moreover have "ds @ ?z @ u ''.0'' = (ds @ ?z) @ 46 # [48] @ []" by simp
  ultimately show ?thesis by (simp only: parse_exponent_Nil option.map)
qed

lemma parse_place_digits:
  assumes ds: "digit_str ds"
  shows "parse_decimal (place_digits ds p) = Some (of_int (digits_val (digits_of ds)) * 10 powi (p - int (length ds)))"
proof -
  let ?n = "length ds"
  have n: "0 < ?n" and asc: "\<forall>c\<in>set ds. ascii_digit c" using ds by (auto simp: digit_str_def)
  have pre: "digit_str (take (Suc j) ds)" "\<forall>c\<in>set (drop j ds). ascii_digit c" for j
    using ds asc by (auto simp: digit_str_def dest: in_set_takeD in_set_dropD)
  consider (expo) "p \<le> -4 \<or> 16 < p" | (small) "-4 < p" "p \<le> 0" | (mid) "0 < p" "p \<le> 16" "p < int ?n"
    | (large) "0 < p" "p \<le> 16" "int ?n \<le> p" by linarith
  then show ?thesis
  proof cases
    case expo
    show ?thesis
    proof (cases "?n = 1")
      case True
      then have "place_digits ds p = ds @ 101 # fmt_exp (p - 1)" using expo by (simp add: place_digits_def)
      then show ?thesis using parse_decimal_plain[OF ds, of "101 # fmt_exp (p - 1)"] True by (simp add: parse_exponent_fmt)
    next
      case False
      then have "place_digits ds p = take (Suc 0) ds @ 46 # drop 1 ds @ 101 # fmt_exp (p - 1)"
        using expo by (simp add: place_digits_def)
      moreover have "p - 1 - int (length (drop 1 ds)) = p - int ?n" using n by (simp add: of_nat_diff Suc_leI)
      ultimately show ?thesis
        using parse_decimal_point[OF pre(1)[of 0] pre(2)[of 1], of "101 # fmt_exp (p - 1)"]
        by (simp add: parse_exponent_fmt flip: drop_Suc)
    qed
  next
    case small
    then show ?thesis using parse_leading_zeros[OF ds] by (simp add: place_digits_def del: u_simps)
  next
    case mid
    then obtain j where j: "nat p = Suc j" by (cases "nat p") auto
    have "place_digits ds p = take (Suc j) ds @ 46 # drop (Suc j) ds @ []" using mid j by (simp add: place_digits_def)
    moreover have "0 - int (length (drop (Suc j) ds)) = p - int ?n" using mid j by simp
    ultimately show ?thesis using parse_decimal_point[OF pre(1)[of j] pre(2)[of "Suc j"], of "[]"]
      by (simp only: parse_exponent_Nil option.map append_take_drop_id simp_thms)
  next
    case large
    then show ?thesis using parse_trailing_zeros[OF ds] by (simp add: place_digits_def del: u_simps)
  qed
qed

lemma rstrip_zeros_split: "\<exists>j. s = rstrip_zeros s @ replicate j 48"
proof -
  have "rev s = takeWhile (\<lambda>c. c = 48) (rev s) @ dropWhile (\<lambda>c. c = 48) (rev s)" by simp
  moreover have "takeWhile (\<lambda>c. c = 48) (rev s) = replicate (length (takeWhile (\<lambda>c. c = 48) (rev s))) 48"
    using set_takeWhileD[of _ "\<lambda>c. c = 48" "rev s"] by (intro replicate_length_same[symmetric]) auto
  ultimately have "s = rstrip_zeros s @ replicate (length (takeWhile (\<lambda>c. c = 48) (rev s))) 48"
    unfolding rstrip_zeros_def by (metis rev_append rev_replicate rev_rev_ident)
  then show ?thesis by blast
qed

lemma parse_repr_pos:
  assumes "is_float x" and "0 < x"
  shows "parse_decimal (repr_pos x) = Some (decimal (shortest x))"
proof -
  obtain d k where p: "shortest x = (d, k)" by force
  then have d: "1 \<le> d" using shortest_reads_back(2)[OF assms] by simp
  let ?s = "dec_str d" let ?ds = "rstrip_zeros ?s"
  obtain j where j: "?s = ?ds @ replicate j 48" using rstrip_zeros_split by blast
  have "d = digits_val (digits_of ?s)" using d by simp
  also have "\<dots> = digits_val (digits_of ?ds) * 10 ^ j" by (subst j) (simp add: digits_of_append digits_val_append)
  finally have v: "d = digits_val (digits_of ?ds) * 10 ^ j" .
  then have "?ds \<noteq> []" using d by (auto simp: digits_of_def)
  moreover have "\<forall>c\<in>set ?ds. ascii_digit c" using set_rstrip_zeros[of ?s] d by auto
  ultimately have "digit_str ?ds" by (simp add: digit_str_def)
  moreover have e: "int (length ?s) + k - int (length ?ds) = int j + k" using arg_cong[OF j, of length] by simp
  moreover have "of_int (digits_val (digits_of ?ds)) * 10 powi (int j + k) = (of_int d * 10 powi k :: real)"
    by (subst (2) v) (simp add: powi10_add power_int_of_nat)
  ultimately have "parse_decimal (place_digits ?ds (int (length ?s) + k)) = Some (of_int d * 10 powi k)"
    by (simp only: parse_place_digits e)
  then show ?thesis by (simp add: repr_pos_def p decimal_def Let_def)
qed

text \<open>\<open>float\<close> on text that starts like a number and has only the characters of one.\<close>

definition num_char :: "int \<Rightarrow> bool" where
  "num_char c \<longleftrightarrow> ascii_digit c \<or> c \<in> {43, 45, 46, 101}"

lemma py_float_number:
  assumes "s \<noteq> []" and "\<forall>c\<in>set s. num_char c" and "ascii_digit (hd s)" and "parse_decimal s = Some x"
  shows "py_float s = Inr (to_float False x)" and "py_float (45 # s) = Inr (to_float True x)"
proof -
  have g: "\<not> is_space c" "c \<noteq> 95" "c \<notin> {105, 110}" if "num_char c" for c
    using that by (auto simp: num_char_def is_space_def ascii_digit_def)
  have h: "num_char (hd s)" "num_char (last s)" using assms(1,2) by simp_all
  have sp: "strip s = s" "strip (45 # s) = 45 # s"
    using assms(1) g(1)[OF h(1)] g(1)[OF h(2)] by (auto intro!: strip_id simp: ends_nonspace_def is_space_def)
  have us: "95 \<notin> set s" using assms(2) g(2) by auto
  have "hd (lower_ascii s) = hd s" using assms(1,3) by (cases s) (auto simp: lower_ascii_def ascii_digit_def)
  then have "hd (lower_ascii s) \<notin> {105, 110}" using g(3)[OF h(1)] by simp
  then have l: "lower_ascii s \<noteq> u ''inf''" "lower_ascii s \<noteq> u ''infinity''" "lower_ascii s \<noteq> u ''nan''" by auto
  have "split_sign s = (False, s)" "split_sign (45 # s) = (True, s)" using assms(1,3) by (auto simp: split_sign_def ascii_digit_def)
  then show "py_float s = Inr (to_float False x)" "py_float (45 # s) = Inr (to_float True x)"
    using l us assms(4) by (simp_all add: py_float_def sp drop_underscores_id Let_def del: u_simps)
qed

lemma fmt_exp_num: "\<forall>c\<in>set (fmt_exp e). num_char c"
  by (auto simp: fmt_exp_def Let_def num_char_def ascii_digit_def[of 48])

lemma place_digits_chars:
  assumes "digit_str ds"
  shows "place_digits ds p \<noteq> []" "\<forall>c\<in>set (place_digits ds p). num_char c" "ascii_digit (hd (place_digits ds p))"
proof -
  have c: "\<forall>c\<in>set ds. num_char c" "\<forall>c\<in>set ds. ascii_digit c" "ds \<noteq> []" using assms by (auto simp: digit_str_def num_char_def)
  then have td: "\<forall>c\<in>set (take j ds). num_char c" "\<forall>c\<in>set (drop j ds). num_char c" for j
    by (auto dest: in_set_takeD in_set_dropD)
  have n: "num_char 46" "num_char 48" "num_char 101" by (simp_all add: num_char_def ascii_digit_def)
  show "place_digits ds p \<noteq> []" using c(3) by (auto simp: place_digits_def)
  show "\<forall>c\<in>set (place_digits ds p). num_char c"
    using c(1) td n fmt_exp_num[of "p - 1"] by (auto simp: place_digits_def)
  have "ascii_digit (hd ds)" using c(2,3) by simp
  then show "ascii_digit (hd (place_digits ds p))"
    using c(3) by (cases ds) (auto simp: place_digits_def ascii_digit_def take_Cons')
qed

lemma repr_pos_digits:
  assumes "is_float x" and "0 < x"
  shows "\<exists>ds p. digit_str ds \<and> repr_pos x = place_digits ds p"
proof -
  obtain d k where p: "shortest x = (d, k)" by force
  then have d: "1 \<le> d" using shortest_reads_back(2)[OF assms] by simp
  obtain j where j: "dec_str d = rstrip_zeros (dec_str d) @ replicate j 48" using rstrip_zeros_split by blast
  have "rstrip_zeros (dec_str d) \<noteq> []"
  proof
    assume "rstrip_zeros (dec_str d) = []"
    then have "digits_of (dec_str d) = replicate j 0" using j by simp
    then have "digits_val (digits_of (dec_str d)) = 0" by simp
    then show False using d by simp
  qed
  then have "digit_str (rstrip_zeros (dec_str d))" using set_rstrip_zeros[of "dec_str d"] d by (auto simp: digit_str_def)
  then show ?thesis by (auto simp: repr_pos_def p Let_def)
qed

lemma to_float_near: "fl y = x \<Longrightarrow> x < 2 ^ 1024 \<Longrightarrow> to_float neg y = Finite (if neg then - x else x)"
  by (simp add: to_float_def not_le)

lemma py_float_repr_pos:
  assumes "is_float x" and "0 < x" "x < 2 ^ 1024"
  shows "py_float (repr_pos x) = Inr (Finite x)" and "py_float (45 # repr_pos x) = Inr (Finite (- x))"
proof -
  obtain ds p where r: "digit_str ds" "repr_pos x = place_digits ds p" using repr_pos_digits[OF assms(1,2)] by blast
  note c = place_digits_chars[OF r(1), of p, folded r(2)]
  note f = py_float_number[OF c parse_repr_pos[OF assms(1,2)]]
  show "py_float (repr_pos x) = Inr (Finite x)" "py_float (45 # repr_pos x) = Inr (Finite (- x))"
    unfolding f using to_float_near[OF shortest_reads_back(1)[OF assms(1,2)] assms(3)] by simp_all
qed

lemma py_float_repr:
  assumes "is_float x" and "\<bar>x\<bar> < 2 ^ 1024"
  shows "py_float (repr_float x) = Inr (Finite x)"
proof -
  have "parse_decimal [48, 46, 48] = Some 0"
    using parse_decimal_point[of "[48]" "[48]" "[]"] by (simp add: digit_str_def ascii_digit_def digits_of_def)
  from py_float_number(1)[OF _ _ _ this] have "py_float (u ''0.0'') = Inr (Finite 0)"
    by (simp add: num_char_def ascii_digit_def to_float_near)
  then show ?thesis using assms py_float_repr_pos[of x] py_float_repr_pos[of "- x"] by (auto simp: repr_float_def)
qed

text \<open>A fixed-point number is within half a unit of its last place.\<close>

lemma length_digits_of [simp]: "length (digits_of s) = length s"
  by (simp add: digits_of_def)

lemma fmt_f_pos:
  assumes "0 \<le> x" and "0 < k"
  shows "parse_decimal (fmt_f k x) = Some (of_int (round_even (x * 10 ^ k)) / 10 ^ k)"
proof -
  let ?n = "round_even (x * 10 ^ k)"
  have n: "0 \<le> ?n" using round_even_mono[of "of_int 0" "x * 10 ^ k"] assms(1) unfolding round_even_of_int by simp
  let ?ip = "dec_str (?n div 10 ^ k)" and ?fp = "zero_pad k (dec_str (?n mod 10 ^ k))"
  have m: "0 \<le> ?n mod 10 ^ k" "?n mod 10 ^ k < 10 ^ k" "0 \<le> ?n div 10 ^ k" using n by (simp_all add: pos_imp_zdiv_nonneg_iff)
  have asc: "digit_str ?ip" "\<forall>c\<in>set ?fp. ascii_digit c"
    using m(1,3) by (auto simp: digit_str_def zero_pad_def ascii_digit_def[of 48])
  have "length (dec_str (?n mod 10 ^ k)) \<le> k" using length_dec_digits[OF m(1,2) assms(2)] by (simp add: dec_str_def)
  then have len: "length ?fp = k" by (simp add: zero_pad_def)
  have "digits_val (digits_of ?fp) = ?n mod 10 ^ k" using m(1) by (simp add: zero_pad_def digits_of_append digits_val_append)
  then have "digits_val (digits_of (?ip @ ?fp)) = ?n div 10 ^ k * 10 ^ k + ?n mod 10 ^ k"
    using m(3) len by (simp add: digits_of_append digits_val_append)
  also have "\<dots> = ?n" by (rule div_mult_mod_eq)
  finally have "parse_decimal (?ip @ 46 # ?fp @ []) = Some (of_int ?n * 10 powi (0 - int k))"
    using parse_decimal_point[OF asc, of "[]"] len by simp
  moreover have "(10::real) powi (0 - int k) = 1 / 10 ^ k" by (simp add: power_int_minus power_int_of_nat divide_inverse)
  moreover have "fmt_f k x = ?ip @ 46 # ?fp @ []" using assms by (simp add: fmt_f_def Let_def)
  ultimately show ?thesis by simp
qed

lemma fmt_f_whole: "0 \<le> x \<Longrightarrow> parse_decimal (fmt_f 0 x) = Some (of_int (round_even x))"
proof -
  assume x: "0 \<le> x"
  then have n: "0 \<le> round_even x" using round_even_mono[of "of_int 0" x] unfolding round_even_of_int by simp
  then have "parse_decimal (dec_str (round_even x)) = Some (of_int (round_even x))"
    using parse_decimal_digits[of "dec_str (round_even x)"] by simp
  then show ?thesis using x by (simp add: fmt_f_def)
qed

lemma round_even_scaled: "\<bar>of_int (round_even (x * 10 ^ k)) / 10 ^ k - x\<bar> \<le> 1 / (2 * 10 ^ k)"
proof -
  have "of_int (round_even (x * 10 ^ k)) / 10 ^ k - x = (of_int (round_even (x * 10 ^ k)) - x * 10 ^ k) / 10 ^ k"
    by (simp add: diff_divide_distrib)
  then have "\<bar>of_int (round_even (x * 10 ^ k)) / 10 ^ k - x\<bar> = \<bar>of_int (round_even (x * 10 ^ k)) - x * 10 ^ k\<bar> / 10 ^ k" by simp
  also have "\<dots> \<le> 1 / 2 / 10 ^ k" by (intro divide_right_mono round_even_error) simp
  finally show ?thesis by simp
qed

end
