(* ===== verification/PyUtf8.thy ===== *)
theory PyUtf8
  imports PyText
begin

text \<open>
  \<open>str.encode("utf-8")\<close> and \<open>bytes.decode("utf-8", errors="replace")\<close>.  Encoding fails on a
  surrogate; decoding never fails: a byte sequence that is not well-formed is replaced, one
  U+FFFD per maximal well-formed prefix, as CPython does it.
\<close>

section \<open>Encoding\<close>

definition encode_char :: "int \<Rightarrow> int list result" where
  "encode_char c =
     (if c < 0x80 then Inr [c]
      else if c < 0x800 then Inr [0xC0 + c div 64, 0x80 + c mod 64]
      else if 0xD800 \<le> c \<and> c \<le> 0xDFFF then Inl UnicodeEncodeError
      else if c < 0x10000 then Inr [0xE0 + c div 4096, 0x80 + c div 64 mod 64, 0x80 + c mod 64]
      else Inr [0xF0 + c div 262144, 0x80 + c div 4096 mod 64, 0x80 + c div 64 mod 64, 0x80 + c mod 64])"

definition utf8_encode :: "pystr \<Rightarrow> pybytes result" where
  "utf8_encode s = bind_res (seq_res (map encode_char s)) (\<lambda>bs. Inr (concat bs))"

section \<open>Decoding\<close>

definition is_cont :: "int \<Rightarrow> bool" where
  "is_cont b \<longleftrightarrow> 0x80 \<le> b \<and> b \<le> 0xBF"

text \<open>The second bytes that a lead byte allows: no overlong forms, surrogates or values above U+10FFFF.\<close>

definition second_ok :: "int \<Rightarrow> int \<Rightarrow> bool" where
  "second_ok b b1 \<longleftrightarrow>
     (if b = 0xE0 then 0xA0 \<le> b1 \<and> b1 \<le> 0xBF
      else if b = 0xED then 0x80 \<le> b1 \<and> b1 \<le> 0x9F
      else if b = 0xF0 then 0x90 \<le> b1 \<and> b1 \<le> 0xBF
      else if b = 0xF4 then 0x80 \<le> b1 \<and> b1 \<le> 0x8F
      else is_cont b1)"

text \<open>The character that starts with byte \<open>b\<close>, and how many of the following bytes it takes.\<close>

definition decode_char :: "int \<Rightarrow> int list \<Rightarrow> int \<times> nat" where
  "decode_char b bs =
     (if b < 0x80 then (b, 0)
      else if 0xC2 \<le> b \<and> b \<le> 0xDF then
        (case bs of b1 # _ \<Rightarrow> if is_cont b1 then ((b - 0xC0) * 64 + (b1 - 0x80), 1) else (0xFFFD, 0)
         | _ \<Rightarrow> (0xFFFD, 0))
      else if 0xE0 \<le> b \<and> b \<le> 0xEF then
        (case bs of
           b1 # bs1 \<Rightarrow>
             if second_ok b b1 then
               (case bs1 of
                  b2 # _ \<Rightarrow> if is_cont b2 then ((b - 0xE0) * 4096 + (b1 - 0x80) * 64 + (b2 - 0x80), 2)
                           else (0xFFFD, 1)
                | _ \<Rightarrow> (0xFFFD, 1))
             else (0xFFFD, 0)
         | _ \<Rightarrow> (0xFFFD, 0))
      else if 0xF0 \<le> b \<and> b \<le> 0xF4 then
        (case bs of
           b1 # bs1 \<Rightarrow>
             if second_ok b b1 then
               (case bs1 of
                  b2 # bs2 \<Rightarrow>
                    if is_cont b2 then
                      (case bs2 of
                         b3 # _ \<Rightarrow>
                           if is_cont b3 then
                             ((b - 0xF0) * 262144 + (b1 - 0x80) * 4096 + (b2 - 0x80) * 64 + (b3 - 0x80), 3)
                           else (0xFFFD, 2)
                       | _ \<Rightarrow> (0xFFFD, 2))
                    else (0xFFFD, 1)
                | _ \<Rightarrow> (0xFFFD, 1))
             else (0xFFFD, 0)
         | _ \<Rightarrow> (0xFFFD, 0))
      else (0xFFFD, 0))"

function utf8_decode :: "pybytes \<Rightarrow> pystr" where
  "utf8_decode [] = []"
| "utf8_decode (b # bs) = fst (decode_char b bs) # utf8_decode (drop (snd (decode_char b bs)) bs)"
  by pat_completeness auto
termination
  by (relation "measure length") auto

section \<open>The round trip\<close>

definition scalar :: "int \<Rightarrow> bool" where
  "scalar c \<longleftrightarrow> 0 \<le> c \<and> c < 0x110000 \<and> \<not> (0xD800 \<le> c \<and> c \<le> 0xDFFF)"

lemma base64_2: "(c::int) div 4096 * 4096 + c div 64 mod 64 * 64 + c mod 64 = c"
proof -
  have "c div 4096 = c div 64 div 64" by (simp flip: zdiv_zmult2_eq)
  then show ?thesis
    using div_mult_mod_eq[of c 64] div_mult_mod_eq[of "c div 64" 64] by linarith
qed

lemma base64_3:
  "(c::int) div 262144 * 262144 + c div 4096 mod 64 * 4096 + c div 64 mod 64 * 64 + c mod 64 = c"
proof -
  have "c div 262144 = c div 4096 div 64" by (simp flip: zdiv_zmult2_eq)
  then show ?thesis
    using base64_2[of c] div_mult_mod_eq[of "c div 4096" 64] by linarith
qed

text \<open>The second byte of a character with lead digit \<open>k\<close> is bounded by what remains below the limit.\<close>

lemma low_digit: "(q::int) div 64 = k \<Longrightarrow> q < k * 64 + r \<Longrightarrow> q mod 64 < r"
  using div_mult_mod_eq[of q 64] by linarith

lemma decode_two:
  "2 \<le> a \<Longrightarrow> a < 32 \<Longrightarrow> 0 \<le> l \<Longrightarrow> l < 64 \<Longrightarrow>
   decode_char (0xC0 + a) ((0x80 + l) # rest) = (a * 64 + l, 1)"
  by (simp add: decode_char_def is_cont_def)

lemma decode_three:
  "0 \<le> a \<Longrightarrow> a < 16 \<Longrightarrow> second_ok (0xE0 + a) (0x80 + m) \<Longrightarrow> 0 \<le> l \<Longrightarrow> l < 64 \<Longrightarrow>
   decode_char (0xE0 + a) ((0x80 + m) # (0x80 + l) # rest) = (a * 4096 + m * 64 + l, 2)"
  by (simp add: decode_char_def is_cont_def)

lemma decode_four:
  "0 \<le> a \<Longrightarrow> a < 5 \<Longrightarrow> second_ok (0xF0 + a) (0x80 + h) \<Longrightarrow> 0 \<le> m \<Longrightarrow> m < 64 \<Longrightarrow> 0 \<le> l \<Longrightarrow> l < 64 \<Longrightarrow>
   decode_char (0xF0 + a) ((0x80 + h) # (0x80 + m) # (0x80 + l) # rest) =
     (a * 262144 + h * 4096 + m * 64 + l, 3)"
  by (simp add: decode_char_def is_cont_def)

lemma second_ok_three:
  assumes "0 \<le> m" "m < 64" "a = 0 \<Longrightarrow> 32 \<le> m" "a = 13 \<Longrightarrow> m < 32" "0 \<le> a" "a < 16"
  shows "second_ok (0xE0 + a) (0x80 + m)"
  using assms by (auto simp: second_ok_def is_cont_def)

lemma second_ok_four:
  assumes "0 \<le> h" "h < 64" "a = 0 \<Longrightarrow> 16 \<le> h" "a = 4 \<Longrightarrow> h < 16" "0 \<le> a" "a < 5"
  shows "second_ok (0xF0 + a) (0x80 + h)"
  using assms by (auto simp: second_ok_def is_cont_def)

text \<open>The second byte of a longer character is one that the decoder accepts.\<close>

lemma second_ok_encoded:
  assumes "scalar c"
  shows "0x800 \<le> c \<Longrightarrow> c < 0x10000 \<Longrightarrow> second_ok (0xE0 + c div 4096) (0x80 + c div 64 mod 64)"
    "0x10000 \<le> c \<Longrightarrow> second_ok (0xF0 + c div 262144) (0x80 + c div 4096 mod 64)"
proof -
  let ?m = "c div 64 mod 64" and ?h = "c div 4096 mod 64"
  have rng: "0 \<le> ?m" "?m < 64" "0 \<le> ?h" "?h < 64" by simp_all
  have q: "c div 4096 = c div 64 div 64" "c div 262144 = c div 4096 div 64"
    by (simp_all flip: zdiv_zmult2_eq)
  show "second_ok (0xE0 + c div 4096) (0x80 + ?m)" if 3: "0x800 \<le> c" "c < 0x10000"
  proof -
    have "c div 4096 = 0 \<Longrightarrow> 32 \<le> ?m"
      using 3 div_mult_mod_eq[of "c div 64" 64] unfolding q by linarith
    moreover have "?m < 32" if k: "c div 4096 = 13"
    proof -
      have "c < 14 * 4096" using k by linarith
      then have "c div 64 < 13 * 64 + 32" using assms unfolding scalar_def by linarith
      then show ?thesis using low_digit k unfolding q by blast
    qed
    ultimately show ?thesis using 3 rng by (intro second_ok_three) linarith+
  qed
  show "second_ok (0xF0 + c div 262144) (0x80 + ?h)" if 4: "0x10000 \<le> c"
  proof -
    have "c div 262144 = 0 \<Longrightarrow> 16 \<le> ?h"
      using 4 div_mult_mod_eq[of "c div 4096" 64] unfolding q(2) by linarith
    moreover have "?h < 16" if k: "c div 262144 = 4"
    proof -
      have "c div 4096 < 4 * 64 + 16" using assms unfolding scalar_def by linarith
      then show ?thesis using low_digit k unfolding q(2) by blast
    qed
    ultimately show ?thesis using 4 assms rng unfolding scalar_def by (intro second_ok_four) linarith+
  qed
qed

lemma decode_encode_char:
  assumes "scalar c" and "encode_char c = Inr (b # bs)"
  shows "decode_char b (bs @ rest) = (c, length bs)"
proof -
  let ?l = "c mod 64" and ?m = "c div 64 mod 64" and ?h = "c div 4096 mod 64"
  have rng: "0 \<le> ?l" "?l < 64" "0 \<le> ?m" "?m < 64" "0 \<le> ?h" "?h < 64" by simp_all
  consider "c < 0x80" | "0x80 \<le> c" "c < 0x800" | "0x800 \<le> c" "c < 0x10000" | "0x10000 \<le> c"
    by linarith
  then show ?thesis
  proof cases
    case 1
    then show ?thesis using assms by (simp add: encode_char_def decode_char_def)
  next
    case 2
    have "2 \<le> c div 64" "c div 64 < 32" using 2 by linarith+
    then have "decode_char (0xC0 + c div 64) ((0x80 + ?l) # rest) = (c, 1)"
      using decode_two[OF _ _ rng(1,2)] by (simp only: div_mult_mod_eq)
    moreover have "encode_char c = Inr [0xC0 + c div 64, 0x80 + ?l]"
      using 2 by (simp add: encode_char_def)
    ultimately show ?thesis using assms(2) by auto
  next
    case 3
    have a: "0 \<le> c div 4096" "c div 4096 < 16" using 3 by linarith+
    note second_ok_encoded(1)[OF assms(1) 3]
    then have "decode_char (0xE0 + c div 4096) ((0x80 + ?m) # (0x80 + ?l) # rest) = (c, 2)"
      using decode_three[OF a _ rng(1,2)] by (simp only: base64_2)
    moreover have "encode_char c = Inr [0xE0 + c div 4096, 0x80 + ?m, 0x80 + ?l]"
      using 3 assms(1) by (simp add: encode_char_def scalar_def)
    ultimately show ?thesis using assms(2) by auto
  next
    case 4
    have a: "0 \<le> c div 262144" "c div 262144 < 5" using 4 assms(1) unfolding scalar_def by linarith+
    note second_ok_encoded(2)[OF assms(1) 4]
    then have "decode_char (0xF0 + c div 262144) ((0x80 + ?h) # (0x80 + ?m) # (0x80 + ?l) # rest) = (c, 3)"
      using decode_four[OF a _ rng(3,4,1,2)] by (simp only: base64_3)
    moreover have "encode_char c = Inr [0xF0 + c div 262144, 0x80 + ?h, 0x80 + ?m, 0x80 + ?l]"
      using 4 by (simp add: encode_char_def)
    ultimately show ?thesis using assms(2) by simp
  qed
qed

lemma encode_char_not_Nil: "encode_char c = Inr bs \<Longrightarrow> bs \<noteq> []"
  by (auto simp: encode_char_def split: if_splits)

lemma utf8_encode_Cons:
  "utf8_encode (c # s) =
     bind_res (encode_char c) (\<lambda>bs. bind_res (utf8_encode s) (\<lambda>cs. Inr (bs @ cs)))"
  by (cases "encode_char c"; cases "seq_res (map encode_char s)") (simp_all add: utf8_encode_def)

lemma utf8_decode_encode:
  "\<forall>c\<in>set s. scalar c \<Longrightarrow> utf8_encode s = Inr bs \<Longrightarrow> utf8_decode bs = s"
proof (induction s arbitrary: bs)
  case Nil
  then show ?case by (simp add: utf8_encode_def)
next
  case (Cons c s)
  then obtain b bs' cs where e: "encode_char c = Inr (b # bs')" "utf8_encode s = Inr cs"
    and bs: "bs = b # bs' @ cs"
    using encode_char_not_Nil[of c] by (auto simp: utf8_encode_Cons py_simps neq_Nil_conv)
  have "decode_char b (bs' @ cs) = (c, length bs')"
    using decode_encode_char[OF _ e(1)] Cons.prems(1) by simp
  then show ?case using Cons.IH[OF _ e(2)] Cons.prems(1) by (simp add: bs)
qed

lemma encode_char_total: "scalar c \<Longrightarrow> \<exists>bs. encode_char c = Inr bs"
  by (auto simp: encode_char_def scalar_def)

lemma utf8_encode_total: "\<forall>c\<in>set s. scalar c \<Longrightarrow> \<exists>bs. utf8_encode s = Inr bs"
proof (induction s)
  case (Cons c s)
  moreover have "\<exists>bs. encode_char c = Inr bs"
    using Cons.prems encode_char_total by simp
  ultimately show ?case by (auto simp: utf8_encode_Cons)
qed (simp add: utf8_encode_def)

text \<open>ASCII text is its own encoding.\<close>

definition is_ascii :: "pystr \<Rightarrow> bool" where
  "is_ascii s \<longleftrightarrow> list_all (\<lambda>c. 0 \<le> c \<and> c < 128) s"

lemma is_ascii_simps [simp]:
  "is_ascii []" "is_ascii (c # s) \<longleftrightarrow> 0 \<le> c \<and> c < 128 \<and> is_ascii s"
  "is_ascii (s @ t) \<longleftrightarrow> is_ascii s \<and> is_ascii t"
  by (auto simp: is_ascii_def)

lemma is_asciiI: "(\<And>c. c \<in> set s \<Longrightarrow> 0 \<le> c \<and> c < 128) \<Longrightarrow> is_ascii s"
  by (auto simp: is_ascii_def list_all_iff)

lemma utf8_encode_ascii [simp]: "is_ascii s \<Longrightarrow> utf8_encode s = Inr s"
  by (induction s) (simp_all add: utf8_encode_Cons encode_char_def utf8_encode_def[of "[]"])

lemma utf8_decode_ascii [simp]: "is_ascii s \<Longrightarrow> utf8_decode s = s"
  by (induction s) (simp_all add: decode_char_def)

section \<open>Encoding piece by piece\<close>

definition enc :: "pystr \<Rightarrow> pybytes" where
  "enc s = the_ok (utf8_encode s)"

lemma utf8_encode_enc: "list_all scalar s \<Longrightarrow> utf8_encode s = Inr (enc s)"
  using utf8_encode_total[of s] by (auto simp: enc_def list_all_iff)

lemma utf8_decode_enc: "list_all scalar s \<Longrightarrow> utf8_decode (enc s) = s"
  using utf8_decode_encode[of s "enc s"] utf8_encode_enc[of s] by (simp add: list_all_iff)

lemma enc_Nil [simp]: "enc [] = []"
  by (simp add: enc_def)

lemma enc_ascii [simp]: "is_ascii s \<Longrightarrow> enc s = s"
  by (simp add: enc_def)

lemma enc_Cons: "scalar c \<Longrightarrow> list_all scalar s \<Longrightarrow> enc (c # s) = enc [c] @ enc s"
proof -
  assume h: "scalar c" "list_all scalar s"
  then obtain bs where "encode_char c = Inr bs" using encode_char_total by blast
  moreover obtain cs where "utf8_encode s = Inr cs" using utf8_encode_enc[OF h(2)] by blast
  ultimately show ?thesis by (simp add: enc_def utf8_encode_Cons utf8_encode_def[of "[]"])
qed

lemma enc_append: "list_all scalar s \<Longrightarrow> list_all scalar t \<Longrightarrow> enc (s @ t) = enc s @ enc t"
proof (induction s)
  case (Cons c s)
  then have "enc ((c # s) @ t) = enc [c] @ enc (s @ t)" using enc_Cons[of c "s @ t"] by simp
  then show ?case using Cons enc_Cons[of c s] by simp
qed simp

text \<open>A byte below 128 in the encoding is a character of the text.\<close>

lemma div64_nonneg: "0 \<le> (c::int) \<Longrightarrow> 0 \<le> c div 64" "0 \<le> c \<Longrightarrow> 0 \<le> c div 4096" "0 \<le> c \<Longrightarrow> 0 \<le> c div 262144"
  by (simp_all only: pos_imp_zdiv_nonneg_iff zero_less_numeral)

lemma lead_high:
  "0 \<le> (x::int) \<Longrightarrow> 128 \<le> 0xC0 + x" "0 \<le> x \<Longrightarrow> 128 \<le> 0xE0 + x"
  "0 \<le> x \<Longrightarrow> 128 \<le> 0xF0 + x" "0 \<le> x \<Longrightarrow> 128 \<le> 0x80 + x"
  by simp_all

lemma mod64_nonneg: "0 \<le> (x::int) mod 64"
  by simp

lemma encode_char_forms:
  "0x80 \<le> c \<Longrightarrow> c < 0x800 \<Longrightarrow> encode_char c = Inr [0xC0 + c div 64, 0x80 + c mod 64]"
  "\<not> c < 0x800 \<Longrightarrow> \<not> (0xD800 \<le> c \<and> c \<le> 0xDFFF) \<Longrightarrow> c < 0x10000 \<Longrightarrow>
     encode_char c = Inr [0xE0 + c div 4096, 0x80 + c div 64 mod 64, 0x80 + c mod 64]"
  "\<not> c < 0x10000 \<Longrightarrow>
     encode_char c = Inr [0xF0 + c div 262144, 0x80 + c div 4096 mod 64, 0x80 + c div 64 mod 64, 0x80 + c mod 64]"
  "0xD800 \<le> c \<Longrightarrow> c \<le> 0xDFFF \<Longrightarrow> encode_char c = Inl UnicodeEncodeError"
  by (simp_all add: encode_char_def)

lemma encode_char_high:
  assumes "0x80 \<le> c" and e: "encode_char c = Inr bs"
  shows "list_all (\<lambda>b. 128 \<le> b) bs"
proof -
  have nn: "0 \<le> c" using assms(1) by simp
  have high:
    "list_all (\<lambda>b. 128 \<le> b) [0xC0 + c div 64, 0x80 + c mod 64]"
    "list_all (\<lambda>b. 128 \<le> b) [0xE0 + c div 4096, 0x80 + c div 64 mod 64, 0x80 + c mod 64]"
    "list_all (\<lambda>b. 128 \<le> b)
       [0xF0 + c div 262144, 0x80 + c div 4096 mod 64, 0x80 + c div 64 mod 64, 0x80 + c mod 64]"
    by (simp_all only: list.pred_inject div64_nonneg[OF nn] lead_high mod64_nonneg simp_thms)
  show ?thesis
  proof (cases "c < 0x800")
    case True
    from e[unfolded encode_char_forms(1)[OF assms(1) True]] high(1) show ?thesis
      by (simp only: sum.inject)
  next
    case two: False
    show ?thesis
    proof (cases "0xD800 \<le> c \<and> c \<le> 0xDFFF")
      case True
      from e[unfolded encode_char_forms(4)[OF conjunct1[OF True] conjunct2[OF True]]] show ?thesis
        by (simp only: sum.distinct)
    next
      case ns: False
      show ?thesis
      proof (cases "c < 0x10000")
        case True
        from e[unfolded encode_char_forms(2)[OF two ns True]] high(2) show ?thesis
          by (simp only: sum.inject)
      next
        case False
        from e[unfolded encode_char_forms(3)[OF False]] high(3) show ?thesis
          by (simp only: sum.inject)
      qed
    qed
  qed
qed

lemma enc_char_low: "scalar c \<Longrightarrow> b \<in> set (enc [c]) \<Longrightarrow> b < 128 \<Longrightarrow> b = c"
proof -
  assume h: "scalar c" "b \<in> set (enc [c])" "b < 128"
  then obtain bs where bs: "encode_char c = Inr bs" using encode_char_total by blast
  then have e: "enc [c] = bs" by (simp add: enc_def utf8_encode_Cons utf8_encode_def[of "[]"])
  show ?thesis
  proof (cases "c < 0x80")
    case True
    then have "bs = [c]" using bs by (simp add: encode_char_def)
    then show ?thesis using h(2) by (simp only: e list.set empty_iff insert_iff simp_thms)
  next
    case False
    then show ?thesis using encode_char_high[OF _ bs] e h(2,3) by (auto simp: list_all_iff)
  qed
qed

lemma enc_low: "list_all scalar s \<Longrightarrow> b \<in> set (enc s) \<Longrightarrow> b < 128 \<Longrightarrow> b \<in> set s"
proof (induction s)
  case (Cons c s)
  then show ?case using enc_char_low[of c b] by (auto simp: enc_Cons[of c s])
qed simp

end
