(* ===== verification/Protocol.thy ===== *)
theory Protocol
  imports PyNumber PyUtf8
begin

text \<open>
  \<open>common/protocol.py\<close>: building and parsing of the request line and of the response header.
  The regular expression \<open>_REQUEST_RE\<close> is written as the left-to-right scan it amounts to: its
  groups are delimited by characters they cannot contain, so there is no backtracking.
\<close>

definition LINE_SEP :: pystr where
  "LINE_SEP = [13, 10]"

definition DATA_LINE :: pystr where
  "DATA_LINE = u ''DATA''"

lemmas line_consts = LINE_SEP_def DATA_LINE_def

section \<open>Requests\<close>

definition build_request :: "pystr \<Rightarrow> int \<Rightarrow> pybytes result" where
  "build_request rep segment_id =
     (let path = u ''/video/'' @ rep @ u ''/segment_'' @ fmt_03d segment_id @ u ''.m4s''
      in utf8_encode (u ''GET '' @ path @ LINE_SEP))"

definition strip_prefix :: "pystr \<Rightarrow> pystr \<Rightarrow> pystr option" where
  "strip_prefix p s = (if take (length p) s = p then Some (drop (length p) s) else None)"

text \<open>The character class \<open>[A-Za-z0-9p]\<close>.\<close>

definition is_rep_char :: "int \<Rightarrow> bool" where
  "is_rep_char c \<longleftrightarrow> (65 \<le> c \<and> c \<le> 90) \<or> (97 \<le> c \<and> c \<le> 122) \<or> ascii_digit c"

text \<open>
  \<open>^GET\s+/video/([A-Za-z0-9p]+)/segment_(\d+)\.m4s$\<close>: the two groups, or None.  The dollar sign
  also matches before a final newline.
\<close>

definition match_request :: "pystr \<Rightarrow> (pystr \<times> pystr) option" where
  "match_request s =
     Option.bind (strip_prefix (u ''GET'') s) (\<lambda>r1.
     let sp = takeWhile is_space r1; r2 = dropWhile is_space r1 in
     if sp = [] then None else
     Option.bind (strip_prefix (u ''/video/'') r2) (\<lambda>r3.
     let rep = takeWhile is_rep_char r3; r4 = dropWhile is_rep_char r3 in
     if rep = [] then None else
     Option.bind (strip_prefix (u ''/segment_'') r4) (\<lambda>r5.
     let seg = takeWhile is_digit r5; r6 = dropWhile is_digit r5 in
     if seg = [] then None else
     if r6 = u ''.m4s'' \<or> r6 = u ''.m4s'' @ [10] then Some (rep, seg) else None)))"

definition parse_request :: "pystr \<Rightarrow> (pystr \<times> int) result" where
  "parse_request line =
     (case match_request (strip line) of
        None \<Rightarrow> Inl ProtocolError
      | Some (rep, digits) \<Rightarrow>
          bind_res (py_int digits) (\<lambda>seg.
            if seg < 1 then Inl ProtocolError else Inr (rep, seg)))"

section \<open>Responses\<close>

definition response_lines :: "int \<Rightarrow> int \<Rightarrow> int \<Rightarrow> xfloat \<Rightarrow> pystr \<Rightarrow> int \<Rightarrow> pystr list" where
  "response_lines status sz bitrate duration rep segment_id =
     [u ''STATUS '' @ fmt_d status,
      u ''SIZE '' @ fmt_d sz,
      u ''BITRATE '' @ fmt_d bitrate,
      u ''DURATION '' @ fmt_gx duration,
      u ''REPRESENTATION '' @ rep,
      u ''SEGMENT '' @ fmt_d segment_id,
      DATA_LINE]"

definition build_response_header ::
    "int \<Rightarrow> int \<Rightarrow> int \<Rightarrow> xfloat \<Rightarrow> pystr \<Rightarrow> int \<Rightarrow> pybytes result" where
  "build_response_header status sz bitrate duration rep segment_id =
     utf8_encode
       (join LINE_SEP (response_lines status sz bitrate duration rep segment_id) @ LINE_SEP)"

text \<open>
  The parsed header: the dictionary of the lines as text, whether the DATA line was seen, and
  the four entries that the code converts.
\<close>

record response_header =
  entries :: "pystr \<rightharpoonup> pystr"
  data_follows :: bool
  STATUS :: int
  SIZE :: int
  BITRATE :: int
  DURATION :: xfloat

text \<open>The loop over the lines: the dictionary, and whether it ended at the DATA line.\<close>

fun header_entries :: "(pystr \<rightharpoonup> pystr) \<Rightarrow> pystr list \<Rightarrow> ((pystr \<rightharpoonup> pystr) \<times> bool) result" where
  "header_entries h [] = Inr (h, False)"
| "header_entries h (raw # lines) =
     (let line = strip raw in
      if line = [] then header_entries h lines
      else if line = DATA_LINE then Inr (h, True)
      else case split_ws1 line of
             [key] \<Rightarrow> header_entries (h(key \<mapsto> [])) lines
           | [key, value] \<Rightarrow> header_entries (h(key \<mapsto> value)) lines
           | _ \<Rightarrow> Inl ProtocolError)"

definition get_int :: "(pystr \<rightharpoonup> pystr) \<Rightarrow> pystr \<Rightarrow> int result" where
  "get_int h k = (case h k of None \<Rightarrow> Inr 0 | Some v \<Rightarrow> py_int v)"

definition get_float :: "(pystr \<rightharpoonup> pystr) \<Rightarrow> pystr \<Rightarrow> xfloat result" where
  "get_float h k = (case h k of None \<Rightarrow> Inr (Finite 0) | Some v \<Rightarrow> py_float v)"

definition parse_response_header :: "pystr \<Rightarrow> response_header result" where
  "parse_response_header raw =
     bind_res (header_entries Map.empty (splitlines raw)) (\<lambda>(h, follows).
     if h (u ''STATUS'') = None \<or> h (u ''SIZE'') = None then Inl ProtocolError
     else bind_res (get_int h (u ''STATUS'')) (\<lambda>status.
          bind_res (get_int h (u ''SIZE'')) (\<lambda>sz.
          bind_res (get_int h (u ''BITRATE'')) (\<lambda>bitrate.
          bind_res (get_float h (u ''DURATION'')) (\<lambda>duration.
          if sz < 0 then Inl ProtocolError
          else Inr \<lparr>entries = h, data_follows = follows, STATUS = status, SIZE = sz,
                    BITRATE = bitrate, DURATION = duration\<rparr>)))))"

section \<open>The request round trip\<close>

lemma strip_prefix_append [simp]: "strip_prefix p (p @ s) = Some s"
  by (simp add: strip_prefix_def)

lemma rep_char_ascii: "is_rep_char c \<Longrightarrow> 48 \<le> c \<and> c < 123"
  by (auto simp: is_rep_char_def ascii_digit_def)

lemma rep_char_47 [simp]: "\<not> is_rep_char 47"
  by (simp add: is_rep_char_def ascii_digit_def)

lemma not_digit_46 [simp]: "\<not> is_digit 46"
  by (simp add: not_digit_low ascii_digit_def)

text \<open>A request line as the code writes it, with the digits of the segment number abstract.\<close>

definition request_line :: "pystr \<Rightarrow> pystr \<Rightarrow> pystr" where
  "request_line rep digits = u ''GET '' @ u ''/video/'' @ rep @ u ''/segment_'' @ digits @ u ''.m4s''"

lemma match_request_line:
  assumes "rep \<noteq> []" and "\<forall>c\<in>set rep. is_rep_char c" and "digits \<noteq> []" and "\<forall>c\<in>set digits. is_digit c"
  shows "match_request (request_line rep digits) = Some (rep, digits)"
proof -
  have t: "takeWhile is_rep_char (rep @ 47 # s) = rep" "dropWhile is_rep_char (rep @ 47 # s) = 47 # s" for s
    using assms(2) takeWhile_append_hd[of rep is_rep_char "47 # s"] by auto
  have d: "takeWhile is_digit (digits @ 46 # s) = digits" "dropWhile is_digit (digits @ 46 # s) = 46 # s" for s
    using assms(4) takeWhile_append_hd[of digits is_digit "46 # s"] by auto
  have "is_space 32" by (simp add: is_space_def)
  then show ?thesis using assms(1,3)
    by (simp add: match_request_def request_line_def strip_prefix_def t d Let_def)
qed

lemma request_line_ends: "ends_nonspace (request_line rep digits)"
  by (simp add: request_line_def ends_nonspace_def)

lemma build_request_bytes:
  assumes "\<forall>c\<in>set rep. is_rep_char c" and "0 \<le> seg"
  shows "build_request rep seg = Inr (request_line rep (fmt_03d seg) @ LINE_SEP)"
    and "is_ascii (request_line rep (fmt_03d seg))"
proof -
  have "is_ascii rep" using assms(1) rep_char_ascii by (force intro: is_asciiI)
  moreover have "is_ascii (fmt_03d seg)"
    using fmt_03d_digits(2)[OF assms(2)] by (force intro: is_asciiI simp: ascii_digit_def)
  ultimately show "is_ascii (request_line rep (fmt_03d seg))"
    by (simp add: request_line_def)
  then show "build_request rep seg = Inr (request_line rep (fmt_03d seg) @ LINE_SEP)"
    by (simp add: build_request_def request_line_def LINE_SEP_def Let_def)
qed

lemma parse_request_line:
  assumes "rep \<noteq> []" and "\<forall>c\<in>set rep. is_rep_char c" and "1 \<le> seg" and "seg < 10 ^ max_int_digits"
  shows "parse_request (request_line rep (fmt_03d seg)) = Inr (rep, seg)"
proof -
  have s: "0 \<le> seg" using assms(3) by simp
  note f = fmt_03d_digits[OF s]
  have "length (dec_str seg) \<le> max_int_digits"
    using length_dec_digits[OF s assms(4)] by (simp add: dec_str_def)
  then have "py_int (fmt_03d seg) = Inr seg"
    using f py_int_digits[OF f(1,2)] length_fmt_03d[OF s] by (simp add: max_int_digits_def)
  moreover have "match_request (request_line rep (fmt_03d seg)) = Some (rep, fmt_03d seg)"
    using assms f by (intro match_request_line) auto
  ultimately show ?thesis
    using assms(3) by (simp add: parse_request_def strip_id[OF request_line_ends])
qed

text \<open>Nothing outside the documented form is accepted: what a parsed line looks like.\<close>

lemma strip_prefix_Some: "strip_prefix p s = Some r \<longleftrightarrow> s = p @ r"
  by (auto simp: strip_prefix_def) (metis append_take_drop_id)

lemma match_request_sound:
  assumes "match_request s = Some (rep, digits)"
  shows "\<exists>sp tl. s = u ''GET'' @ sp @ u ''/video/'' @ rep @ u ''/segment_'' @ digits @ u ''.m4s'' @ tl
     \<and> sp \<noteq> [] \<and> (\<forall>c\<in>set sp. is_space c) \<and> rep \<noteq> [] \<and> (\<forall>c\<in>set rep. is_rep_char c)
     \<and> digits \<noteq> [] \<and> (\<forall>c\<in>set digits. is_digit c) \<and> (tl = [] \<or> tl = [10])"
proof -
  from assms obtain r1 r3 r5 where
    r1: "s = u ''GET'' @ r1" and r3: "dropWhile is_space r1 = u ''/video/'' @ r3"
    and r5: "dropWhile is_rep_char r3 = u ''/segment_'' @ r5"
    and sp: "takeWhile is_space r1 \<noteq> []" and rep: "rep = takeWhile is_rep_char r3" "rep \<noteq> []"
    and dg: "digits = takeWhile is_digit r5" "digits \<noteq> []"
    and tl: "dropWhile is_digit r5 = u ''.m4s'' \<or> dropWhile is_digit r5 = u ''.m4s'' @ [10]"
    unfolding match_request_def Let_def
    by (auto simp: strip_prefix_Some Option.bind_eq_Some_conv split: if_splits)
  obtain tl where t: "dropWhile is_digit r5 = u ''.m4s'' @ tl" "tl = [] \<or> tl = [10]"
    using tl by (metis append_Nil2)
  have "r5 = digits @ u ''.m4s'' @ tl" using dg(1) t(1) by (metis takeWhile_dropWhile_id)
  moreover have "r3 = rep @ u ''/segment_'' @ r5" using rep(1) r5 by (metis takeWhile_dropWhile_id)
  moreover have "r1 = takeWhile is_space r1 @ u ''/video/'' @ r3" using r3 by (metis takeWhile_dropWhile_id)
  ultimately have "s = u ''GET'' @ takeWhile is_space r1 @ u ''/video/'' @ rep @ u ''/segment_'' @ digits @ u ''.m4s'' @ tl"
    using r1 by (metis append_assoc)
  then show ?thesis using sp rep dg t(2) by (blast dest: set_takeWhileD)
qed

section \<open>The response round trip\<close>

definition no_break :: "pystr \<Rightarrow> bool" where
  "no_break s \<longleftrightarrow> (\<forall>c\<in>set s. \<not> is_linebreak c)"

text \<open>What goes over the wire: every line with its terminator.\<close>

definition wire :: "pystr list \<Rightarrow> pystr" where
  "wire ls = concat (map (\<lambda>l. l @ LINE_SEP) ls)"

lemma wire_simps [simp]: "wire [] = []" "wire (l # ls) = l @ LINE_SEP @ wire ls"
  by (simp_all add: wire_def)

lemma join_wire: "ls \<noteq> [] \<Longrightarrow> join LINE_SEP ls @ LINE_SEP = wire ls"
  by (induction LINE_SEP ls rule: join.induct) simp_all

lemma splitlines_from_line:
  "no_break l \<Longrightarrow> splitlines_from cur (l @ 13 # 10 # rest) = (rev cur @ l) # splitlines_from [] rest"
proof (induction l arbitrary: cur)
  case (Cons c l)
  then have "\<not> is_linebreak c" "c \<noteq> 13" by (auto simp: no_break_def is_linebreak_def)
  with Cons show ?case by (simp add: no_break_def)
qed simp

lemma splitlines_wire: "\<forall>l\<in>set ls. no_break l \<Longrightarrow> splitlines (wire ls) = ls"
  unfolding splitlines_def
  by (induction ls) (simp_all add: LINE_SEP_def splitlines_from_line)

text \<open>A header line: a key, a space and a value, or nothing after the space.\<close>

definition is_key :: "pystr \<Rightarrow> bool" where
  "is_key k \<longleftrightarrow> k \<noteq> [] \<and> list_all (\<lambda>c. \<not> is_space c) k \<and> k \<noteq> DATA_LINE"

lemma space_32 [simp]: "is_space 32"
  by (simp add: is_space_def)

lemma key_ends: "is_key k \<Longrightarrow> ends_nonspace k"
  by (cases k rule: rev_cases) (auto simp: is_key_def ends_nonspace_def list_all_iff hd_append)

lemma split_ws1_key:
  assumes "is_key k" and "v = [] \<or> ends_nonspace v"
  shows "split_ws1 (k @ 32 # v) = (if v = [] then [k] else [k, v])"
proof -
  have k: "k \<noteq> []" "\<forall>c\<in>set k. \<not> is_space c" using assms(1) by (auto simp: is_key_def list_all_iff)
  then have "lstrip (k @ 32 # v) = k @ 32 # v" by (intro lstrip_id) simp
  moreover have "takeWhile (\<lambda>c. \<not> is_space c) (k @ 32 # v) = k"
    "dropWhile (\<lambda>c. \<not> is_space c) (k @ 32 # v) = 32 # v"
    using k takeWhile_append_hd[of k "\<lambda>c. \<not> is_space c" "32 # v"] by auto
  moreover have "lstrip (32 # v) = v"
    using assms(2) lstrip_id[of v] by (auto simp: lstrip_def ends_nonspace_def)
  ultimately show ?thesis using k by (simp add: split_ws1_def Let_def)
qed

lemma split_ws1_key_only: "is_key k \<Longrightarrow> split_ws1 k = [k]"
proof -
  assume "is_key k"
  then have k: "k \<noteq> []" "\<forall>c\<in>set k. \<not> is_space c" by (auto simp: is_key_def list_all_iff)
  then have t: "takeWhile (\<lambda>c. \<not> is_space c) k = k" "dropWhile (\<lambda>c. \<not> is_space c) k = []"
    "lstrip k = k" "lstrip [] = []"
    by (auto simp: takeWhile_eq_all_conv lstrip_id)
  show ?thesis using k(1) unfolding split_ws1_def Let_def t by simp
qed

lemma strip_key_line:
  assumes "is_key k" and "v = [] \<or> ends_nonspace v"
  shows "strip (k @ 32 # v) = (if v = [] then k else k @ 32 # v)"
    and "strip (k @ 32 # v) \<noteq> DATA_LINE"
proof -
  show s: "strip (k @ 32 # v) = (if v = [] then k else k @ 32 # v)"
  proof (cases "v = []")
    case True
    then show ?thesis
      using strip_append_spaces[of "[32]" k] strip_id[OF key_ends[OF assms(1)]] by simp
  next
    case False
    then have "ends_nonspace (k @ [32] @ v)"
      using assms key_ends ends_nonspace_append by blast
    then show ?thesis using False by (simp add: strip_id)
  qed
  have "k @ 32 # v \<noteq> DATA_LINE"
  proof
    assume "k @ 32 # v = DATA_LINE"
    then have "32 \<in> set DATA_LINE" by (metis in_set_conv_decomp)
    then show False by (simp add: DATA_LINE_def)
  qed
  then show "strip (k @ 32 # v) \<noteq> DATA_LINE"
    using assms(1) unfolding s by (simp add: is_key_def)
qed

lemma header_entries_line:
  assumes "is_key k" and "v = [] \<or> ends_nonspace v"
  shows "header_entries h ((k @ 32 # v) # ls) = header_entries (h(k \<mapsto> v)) ls"
  using strip_key_line[OF assms] split_ws1_key[OF assms] split_ws1_key_only[OF assms(1)] assms(1)
  by (simp add: is_key_def Let_def split: if_splits)

lemma header_keys:
  "is_key (u ''STATUS'')" "is_key (u ''SIZE'')" "is_key (u ''BITRATE'')" "is_key (u ''DURATION'')"
  "is_key (u ''REPRESENTATION'')" "is_key (u ''SEGMENT'')"
  by (simp_all add: is_key_def DATA_LINE_def)

definition rep_ok :: "pystr \<Rightarrow> bool" where
  "rep_ok rep \<longleftrightarrow> (rep = [] \<or> ends_nonspace rep) \<and> no_break rep \<and> (\<forall>c\<in>set rep. scalar c)"

definition sent_entries :: "int \<Rightarrow> int \<Rightarrow> int \<Rightarrow> xfloat \<Rightarrow> pystr \<Rightarrow> int \<Rightarrow> (pystr \<rightharpoonup> pystr)" where
  "sent_entries status sz bitrate duration rep seg =
     [u ''STATUS'' \<mapsto> fmt_d status, u ''SIZE'' \<mapsto> fmt_d sz, u ''BITRATE'' \<mapsto> fmt_d bitrate,
      u ''DURATION'' \<mapsto> fmt_gx duration, u ''REPRESENTATION'' \<mapsto> rep, u ''SEGMENT'' \<mapsto> fmt_d seg]"

lemma header_line_split:
  "u ''STATUS '' @ x = u ''STATUS'' @ 32 # x" "u ''SIZE '' @ x = u ''SIZE'' @ 32 # x"
  "u ''BITRATE '' @ x = u ''BITRATE'' @ 32 # x" "u ''DURATION '' @ x = u ''DURATION'' @ 32 # x"
  "u ''REPRESENTATION '' @ x = u ''REPRESENTATION'' @ 32 # x" "u ''SEGMENT '' @ x = u ''SEGMENT'' @ 32 # x"
  by simp_all

lemma fmt_gx_ends: "ends_nonspace (fmt_gx x)"
  using fmt_gx_chars[of x] fmt_gx_not_Nil[of x] g_char_graph
  by (simp add: ends_nonspace_def)

lemma header_entries_response:
  assumes "rep_ok rep"
  shows "header_entries Map.empty (response_lines status sz bitrate duration rep seg) =
           Inr (sent_entries status sz bitrate duration rep seg, True)"
proof -
  have d: "header_entries h [DATA_LINE] = Inr (h, True)" for h
  proof -
    have "strip DATA_LINE = DATA_LINE" by (rule strip_id) (simp add: DATA_LINE_def ends_nonspace_def)
    then show ?thesis by (simp add: DATA_LINE_def)
  qed
  have "rep = [] \<or> ends_nonspace rep" using assms by (simp add: rep_ok_def)
  then show ?thesis
    unfolding response_lines_def header_line_split sent_entries_def
    by (simp only: header_entries_line header_keys d fmt_d_ends fmt_gx_ends disjI2)
qed

text \<open>Only the last line of a response is the DATA line.\<close>

lemma response_lines_data:
  assumes "rep_ok rep"
  obtains ls where "response_lines status sz bitrate duration rep seg = ls @ [DATA_LINE]"
    and "length ls = 6" and "\<forall>l\<in>set ls. strip l \<noteq> DATA_LINE"
proof -
  have "rep = [] \<or> ends_nonspace rep" using assms by (simp add: rep_ok_def)
  then show ?thesis
    using that[of "butlast (response_lines status sz bitrate duration rep seg)"]
    unfolding response_lines_def header_line_split
    by (simp add: strip_key_line(2) header_keys fmt_d_ends fmt_gx_ends del: u_simps)
qed

lemma graph_no_break: "(\<And>c. c \<in> set s \<Longrightarrow> 33 \<le> c \<and> c < 127) \<Longrightarrow> no_break s"
  by (force simp: no_break_def is_linebreak_def)

lemma fmt_d_graph: "c \<in> set (fmt_d n) \<Longrightarrow> 33 \<le> c \<and> c < 127"
  by (auto simp: ascii_digit_def dest!: fmt_d_chars)

lemma response_lines_no_break:
  assumes "rep_ok rep"
  shows "\<forall>l\<in>set (response_lines status sz bitrate duration rep seg). no_break l"
proof -
  have "no_break (fmt_d n)" for n using fmt_d_graph by (blast intro: graph_no_break)
  moreover have "no_break (fmt_gx x)" for x using fmt_gx_chars[of x] g_char_graph by (blast intro: graph_no_break)
  moreover have "no_break rep" using assms by (simp add: rep_ok_def)
  moreover have "no_break (s @ t) \<longleftrightarrow> no_break s \<and> no_break t" for s t by (auto simp: no_break_def)
  moreover have "no_break (u ''STATUS '')" "no_break (u ''SIZE '')" "no_break (u ''BITRATE '')"
    "no_break (u ''DURATION '')" "no_break (u ''REPRESENTATION '')" "no_break (u ''SEGMENT '')"
    "no_break DATA_LINE"
    by (simp_all add: no_break_def is_linebreak_def DATA_LINE_def)
  ultimately show ?thesis by (simp only: response_lines_def list.set ball_simps)
qed

lemma scalar_ascii: "0 \<le> c \<Longrightarrow> c < 128 \<Longrightarrow> scalar c"
  by (simp add: scalar_def)

lemma response_lines_scalar:
  assumes "rep_ok rep"
  shows "\<forall>l\<in>set (response_lines status sz bitrate duration rep seg). list_all scalar l"
proof -
  have "list_all scalar (fmt_d n)" for n using fmt_d_graph by (force intro: scalar_ascii simp: list_all_iff)
  moreover have "list_all scalar (fmt_gx x)" for x
    using fmt_gx_chars[of x] g_char_graph by (force intro: scalar_ascii simp: list_all_iff)
  moreover have "list_all scalar rep" using assms by (simp add: rep_ok_def list_all_iff)
  moreover have "list_all scalar (u ''STATUS '')" "list_all scalar (u ''SIZE '')"
    "list_all scalar (u ''BITRATE '')" "list_all scalar (u ''DURATION '')"
    "list_all scalar (u ''REPRESENTATION '')" "list_all scalar (u ''SEGMENT '')"
    "list_all scalar DATA_LINE"
    by (simp_all add: scalar_def DATA_LINE_def)
  ultimately show ?thesis
    by (simp only: response_lines_def list.set ball_simps list_all_append simp_thms)
qed

lemma scalar_crlf: "scalar 13" "scalar 10"
  by (simp_all add: scalar_def)

lemma wire_scalar: "\<forall>l\<in>set ls. list_all scalar l \<Longrightarrow> \<forall>c\<in>set (wire ls). scalar c"
  by (induction ls) (auto simp: LINE_SEP_def scalar_crlf list_all_iff)

text \<open>The numbers a header can carry: \<open>int()\<close> reads them back.\<close>

definition int_ok :: "int \<Rightarrow> bool" where
  "int_ok n \<longleftrightarrow> \<bar>n\<bar> < 10 ^ max_int_digits"

lemma parse_response_entries:
  assumes "header_entries Map.empty (splitlines raw) = Inr (sent_entries status sz bitrate duration rep seg, fl')"
    and "int_ok status" "int_ok sz" "int_ok bitrate" "0 \<le> sz" "py_float (fmt_gx duration) = Inr d"
  shows "parse_response_header raw =
    Inr \<lparr>entries = sent_entries status sz bitrate duration rep seg, data_follows = fl', STATUS = status,
         SIZE = sz, BITRATE = bitrate, DURATION = d\<rparr>"
proof -
  let ?h = "sent_entries status sz bitrate duration rep seg"
  have "?h (u ''STATUS'') = Some (fmt_d status)" "?h (u ''SIZE'') = Some (fmt_d sz)"
    "?h (u ''BITRATE'') = Some (fmt_d bitrate)" "?h (u ''DURATION'') = Some (fmt_gx duration)"
    by (simp_all add: sent_entries_def)
  then show ?thesis
    using assms by (simp only: parse_response_header_def get_int_def get_float_def int_ok_def
        bind_res.simps option.case prod.case py_int_fmt_d option.distinct simp_thms if_False not_less[symmetric])
qed

lemma parse_built_response:
  assumes "rep_ok rep" "int_ok status" "int_ok sz" "int_ok bitrate" "0 \<le> sz"
    and "py_float (fmt_gx duration) = Inr d"
  obtains bs where "build_response_header status sz bitrate duration rep seg = Inr bs"
    and "parse_response_header (utf8_decode bs) =
      Inr \<lparr>entries = sent_entries status sz bitrate duration rep seg, data_follows = True,
           STATUS = status, SIZE = sz, BITRATE = bitrate, DURATION = d\<rparr>"
proof -
  let ?ls = "response_lines status sz bitrate duration rep seg"
  have sc: "\<forall>c\<in>set (wire ?ls). scalar c" by (intro wire_scalar response_lines_scalar assms)
  then obtain bs where bs: "utf8_encode (wire ?ls) = Inr bs" using utf8_encode_total by blast
  have "?ls \<noteq> []" by (simp add: response_lines_def)
  then have "build_response_header status sz bitrate duration rep seg = Inr bs"
    using bs by (simp add: build_response_header_def join_wire)
  moreover have "utf8_decode bs = wire ?ls" using utf8_decode_encode[OF sc bs] .
  moreover have "splitlines (wire ?ls) = ?ls"
    by (intro splitlines_wire response_lines_no_break assms)
  ultimately show ?thesis
    using that parse_response_entries[of "wire ?ls", OF _ assms(2-6)] header_entries_response[OF assms(1)] by metis
qed

section \<open>Properties\<close>

text \<open>C21: A request survives the wire: for every name made of the letters and digits the server
  accepts and every segment number from 1 (of at most 4300 digits), the bytes that
  \<open>build_request\<close> makes decode to a line from which \<open>parse_request\<close> gets back name and number.\<close>

theorem request_roundtrip:
  assumes "rep \<noteq> []" and "\<forall>c\<in>set rep. is_rep_char c" and "1 \<le> seg" and "seg < 10 ^ max_int_digits"
  shows "\<exists>bs. build_request rep seg = Inr bs \<and> parse_request (utf8_decode bs) = Inr (rep, seg)"
proof -
  have b: "build_request rep seg = Inr (request_line rep (fmt_03d seg) @ LINE_SEP)"
    "is_ascii (request_line rep (fmt_03d seg))"
    using build_request_bytes[of rep seg] assms by simp_all
  have "strip (request_line rep (fmt_03d seg) @ LINE_SEP) = strip (request_line rep (fmt_03d seg))"
    by (rule strip_append_spaces) (simp add: LINE_SEP_def is_space_def)
  then have "parse_request (request_line rep (fmt_03d seg) @ LINE_SEP) =
      parse_request (request_line rep (fmt_03d seg))"
    by (simp add: parse_request_def)
  then show ?thesis using b parse_request_line[OF assms] by (simp add: LINE_SEP_def)
qed

lemma request_roundtrip_witness:
  "\<exists>bs. build_request (u ''720p'') 7 = Inr bs \<and> parse_request (utf8_decode bs) = Inr (u ''720p'', 7)"
proof -
  have "(10::int) ^ 1 \<le> 10 ^ max_int_digits"
    by (rule power_increasing) (simp_all add: max_int_digits_def)
  then show ?thesis
    using request_roundtrip[of "u ''720p''" 7] by (simp add: is_rep_char_def ascii_digit_def)
qed

text \<open>A line that \<open>parse_request\<close> accepts has the documented form: \<open>GET\<close>, white space, the
  path with a non-empty name of ASCII letters and digits and a non-empty run of decimal digits,
  and nothing else but one final newline and surrounding white space; the number is the value
  of the digits and at least 1.\<close>

lemma parse_request_accepts:
  assumes "parse_request line = Inr (rep, seg)"
  shows "\<exists>sp digits tl. strip line =
      u ''GET'' @ sp @ u ''/video/'' @ rep @ u ''/segment_'' @ digits @ u ''.m4s'' @ tl
    \<and> sp \<noteq> [] \<and> (\<forall>c\<in>set sp. is_space c) \<and> rep \<noteq> [] \<and> (\<forall>c\<in>set rep. is_rep_char c)
    \<and> digits \<noteq> [] \<and> (\<forall>c\<in>set digits. is_digit c) \<and> (tl = [] \<or> tl = [10])
    \<and> py_int digits = Inr seg \<and> 1 \<le> seg"
proof -
  from assms obtain digits where m: "match_request (strip line) = Some (rep, digits)"
    and n: "py_int digits = Inr seg" "1 \<le> seg"
    by (auto simp: parse_request_def py_simps split: option.splits if_splits)
  from match_request_sound[OF m] n show ?thesis by blast
qed

lemma parse_request_accepts_example:
  "\<exists>sp digits tl. strip (u ''GET  /video/360p/segment_12.m4s '') =
      u ''GET'' @ sp @ u ''/video/'' @ u ''360p'' @ u ''/segment_'' @ digits @ u ''.m4s'' @ tl
    \<and> sp \<noteq> [] \<and> (\<forall>c\<in>set sp. is_space c) \<and> u ''360p'' \<noteq> [] \<and> (\<forall>c\<in>set (u ''360p''). is_rep_char c)
    \<and> digits \<noteq> [] \<and> (\<forall>c\<in>set digits. is_digit c) \<and> (tl = [] \<or> tl = [10])
    \<and> py_int digits = Inr 12 \<and> (1::int) \<le> 12"
  by (rule parse_request_accepts) code_simp

text \<open>C22: A response header survives the wire: whatever the status, the size, the bitrate and the
  name (without line breaks or outer blanks), \<open>parse_response_header\<close> reads from the bytes of
  \<open>build_response_header\<close> the six entries as they were written, the DATA mark, the integers,
  and for the duration the number that its six significant digits denote.\<close>

theorem response_roundtrip:
  assumes "rep_ok rep" "int_ok status" "int_ok sz" "int_ok bitrate" "0 \<le> sz"
    and "py_float (fmt_gx duration) = Inr d"
  shows "\<exists>bs. build_response_header status sz bitrate duration rep seg = Inr bs
    \<and> parse_response_header (utf8_decode bs) =
        Inr \<lparr>entries = sent_entries status sz bitrate duration rep seg, data_follows = True,
             STATUS = status, SIZE = sz, BITRATE = bitrate, DURATION = d\<rparr>"
  using parse_built_response[OF assms, of seg] by metis

lemma response_roundtrip_witness:
  "\<exists>bs. build_response_header 200 524288 2500000 (Finite 2) (u ''720p'') 1 = Inr bs
    \<and> parse_response_header (utf8_decode bs) =
        Inr \<lparr>entries = sent_entries 200 524288 2500000 (Finite 2) (u ''720p'') 1, data_follows = True,
             STATUS = 200, SIZE = 524288, BITRATE = 2500000, DURATION = Finite 2\<rparr>"
proof -
  have "(10::int) ^ 18 \<le> 10 ^ max_int_digits"
    by (rule power_increasing) (simp_all add: max_int_digits_def)
  then have "int_ok 200" "int_ok 524288" "int_ok 2500000"
    by (simp_all add: int_ok_def)
  moreover have "rep_ok (u ''720p'')"
    by (simp add: rep_ok_def ends_nonspace_def is_space_def no_break_def is_linebreak_def scalar_def)
  moreover have "py_float (fmt_gx (Finite 2)) = Inr (Finite 2)"
    using g_exact_int[of 2] by (simp add: g_exact_def)
  ultimately show ?thesis
    using response_roundtrip[of "u ''720p''" 200 524288 2500000 "Finite 2" "Finite 2" 1] by simp
qed

end
