(* ===== verification/Config.thy ===== *)
theory Config
  imports PyText
begin

text \<open>
  \<open>common/config.py\<close>: the bitrate ladder and the timing constants that server and client share.
\<close>

type_synonym ladder = "(pystr \<times> int) list"

definition DEFAULT_LADDER :: ladder where
  "DEFAULT_LADDER =
     [(u ''360p'', 500000), (u ''480p'', 1000000), (u ''720p'', 2500000), (u ''1080p'', 5000000)]"

definition LADDER_BY_REP :: "pystr \<rightharpoonup> int" where
  "LADDER_BY_REP = map_of DEFAULT_LADDER"

definition DEFAULT_SEGMENT_DURATION :: real where
  "DEFAULT_SEGMENT_DURATION = 2"

definition DEFAULT_SEGMENT_COUNT :: int where
  "DEFAULT_SEGMENT_COUNT = 60"

definition MAX_BITRATE :: int where
  "MAX_BITRATE = snd (last DEFAULT_LADDER)"

definition DEFAULT_MAX_BUFFER_SECONDS :: real where
  "DEFAULT_MAX_BUFFER_SECONDS = 60"

definition DEFAULT_EWMA_ALPHA :: real where
  "DEFAULT_EWMA_ALPHA = fl (3 / 10)"

lemmas config_defs =
  DEFAULT_SEGMENT_DURATION_def DEFAULT_SEGMENT_COUNT_def DEFAULT_MAX_BUFFER_SECONDS_def
  DEFAULT_EWMA_ALPHA_def

lemma DEFAULT_LADDER_simps [simp]:
  "length DEFAULT_LADDER = 4"
  "map snd DEFAULT_LADDER = [500000, 1000000, 2500000, 5000000]"
  "DEFAULT_LADDER \<noteq> []"
  by (simp_all add: DEFAULT_LADDER_def)

lemma MAX_BITRATE_eq: "MAX_BITRATE = 5000000"
  by (simp add: MAX_BITRATE_def DEFAULT_LADDER_def)

lemma LADDER_BY_REP_dom: "dom LADDER_BY_REP = {u ''360p'', u ''480p'', u ''720p'', u ''1080p''}"
  by (simp add: LADDER_BY_REP_def DEFAULT_LADDER_def dom_map_of_conv_image_fst)

end
