(* ===== verification/RequestParser.thy ===== *)
theory RequestParser
  imports Protocol Config
begin

text \<open>
  \<open>server/request_parser.py\<close>: validation of a request line, and reading one line from a socket.
  The receiving side of a socket is an \<open>inbox\<close>: the results of the coming calls of \<open>recv\<close>, in
  order, each the bytes of one chunk or the exception the call raises.  When it is empty the peer
  has closed, and \<open>recv\<close> returns no bytes.
\<close>

type_synonym inbox = "pybytes result list"

definition parse_segment_request :: "pystr \<Rightarrow> int \<Rightarrow> (pystr \<times> int) result" where
  "parse_segment_request line segment_count =
     (case parse_request line of
        Inl ProtocolError \<Rightarrow> Inl RequestError
      | Inl e \<Rightarrow> Inl e
      | Inr (rep, segment_id) \<Rightarrow>
          if rep \<notin> dom LADDER_BY_REP then Inl NotFoundError
          else if segment_id > segment_count then Inl NotFoundError
          else Inr (rep, segment_id))"

text \<open>The loop that fills the buffer until it holds a newline.\<close>

fun read_until_newline :: "pybytes \<Rightarrow> inbox \<Rightarrow> pybytes result \<times> inbox" where
  "read_until_newline buf [] =
     (if 10 \<in> set buf then (Inr buf, []) else (Inl RequestError, []))"
| "read_until_newline buf (r # ib) =
     (if 10 \<in> set buf then (Inr buf, r # ib)
      else case r of
             Inl e \<Rightarrow> (Inl e, ib)
           | Inr chunk \<Rightarrow>
               if chunk = [] then (Inl RequestError, ib)
               else if length (buf @ chunk) > 4096 then (Inl RequestError, ib)
               else read_until_newline (buf @ chunk) ib)"

definition read_request_line :: "inbox \<Rightarrow> pystr result \<times> inbox" where
  "read_request_line ib =
     (let (r, ib') = read_until_newline [] ib
      in (bind_res r (\<lambda>buf. Inr (strip (utf8_decode (takeWhile (\<lambda>b. b \<noteq> 10) buf)))), ib'))"

section \<open>Validation\<close>

lemma rep_in_ladder_chars: "rep \<in> dom LADDER_BY_REP \<Longrightarrow> rep \<noteq> [] \<and> (\<forall>c\<in>set rep. is_rep_char c)"
  by (auto simp: LADDER_BY_REP_dom is_rep_char_def ascii_digit_def)

lemma parse_segment_request_ok:
  "parse_segment_request line n = Inr (rep, seg) \<longleftrightarrow>
     parse_request line = Inr (rep, seg) \<and> rep \<in> dom LADDER_BY_REP \<and> seg \<le> n"
  by (auto simp: parse_segment_request_def split: sum.splits exn.splits if_splits)

lemma parse_request_range: "parse_request line = Inr (rep, seg) \<Longrightarrow> 1 \<le> seg"
  by (auto simp: parse_request_def py_simps split: option.splits if_splits)

lemma parse_segment_request_range:
  "parse_segment_request line n = Inr (rep, seg) \<Longrightarrow> 1 \<le> seg \<and> seg \<le> n \<and> rep \<in> dom LADDER_BY_REP"
  using parse_request_range[of line rep seg] by (simp add: parse_segment_request_ok)

section \<open>The grammar of request lines\<close>

text \<open>
  The documented form of a request: \<open>GET\<close>, white space, the path with a name \<open>rep\<close> of ASCII
  letters and digits and a number written with the digits \<open>ds\<close>, and white space around it all.
  It is stated as the text itself, with no reference to how the code takes a line apart.
\<close>

definition request_form :: "pystr \<Rightarrow> pystr \<Rightarrow> pystr \<Rightarrow> bool" where
  "request_form line rep ds \<longleftrightarrow>
     rep \<noteq> [] \<and> list_all is_rep_char rep \<and> ds \<noteq> [] \<and> list_all is_digit ds
     \<and> (\<exists>pre ws post. list_all is_space (pre @ ws @ post) \<and> ws \<noteq> []
          \<and> line = pre @ u ''GET'' @ ws @ u ''/video/'' @ rep @ u ''/segment_'' @ ds @ u ''.m4s'' @ post)"

definition number_of :: "pystr \<Rightarrow> int" where
  "number_of ds = digits_val (digits_of ds)"

lemma digit_not_space: "is_digit c \<Longrightarrow> \<not> is_space c"
  by (auto simp: is_space_def is_digit_def digit_val_def digit_zeros_def)

lemma digit_not_sign: "is_digit c \<Longrightarrow> c \<notin> {43, 45, 95}"
  by (auto simp: not_digit_low ascii_digit_def)

text \<open>\<open>int\<close> on a run of decimal digits of any script.\<close>

lemma py_int_number:
  assumes "ds \<noteq> []" and "list_all is_digit ds"
  shows "py_int ds = (if length ds \<le> max_int_digits then Inr (number_of ds) else Inl ValueError)"
proof -
  have d: "is_digit c" if "c \<in> set ds" for c using assms(2) that by (simp add: list_all_iff)
  have "strip ds = ds"
    using assms(1) d digit_not_space by (intro strip_id) (simp add: ends_nonspace_def)
  moreover have "drop_underscores False ds = ds"
    using d digit_not_sign by (intro drop_underscores_id) blast
  moreover have "split_sign ds = (False, ds)"
    using assms(1) digit_not_sign[OF d[of "hd ds"]] by (simp add: split_sign_def)
  ultimately show ?thesis using assms
    by (simp add: py_int_def all_digits_def number_of_def Let_def)
qed

text \<open>\<open>strip\<close> takes off exactly the outer white space.\<close>

lemma strip_between:
  assumes "list_all is_space pre" and "list_all is_space post" and "ends_nonspace s"
  shows "strip (pre @ s @ post) = s"
proof -
  have "lstrip (pre @ s @ post) = s @ post"
    unfolding lstrip_def using assms(1,3)
    by (intro takeWhile_append_hd(2)) (auto simp: list_all_iff ends_nonspace_def)
  moreover have "strip (s @ post) = s"
    using assms(2,3) by (simp add: strip_append_spaces list_all_iff strip_id)
  moreover have "strip (s @ post) = rstrip (s @ post)"
    using assms(3) by (simp add: strip_def lstrip_id ends_nonspace_def)
  ultimately show ?thesis by (simp add: strip_def)
qed

lemma strip_split: "\<exists>pre post. list_all is_space (pre @ post) \<and> s = pre @ strip s @ post"
proof -
  let ?l = "dropWhile is_space s"
  have "s = takeWhile is_space s @ ?l" by simp
  moreover have "?l = strip s @ rev (takeWhile is_space (rev ?l))"
    unfolding strip_def rstrip_def lstrip_def
    by (metis rev_append rev_rev_ident takeWhile_dropWhile_id)
  ultimately have "s = takeWhile is_space s @ strip s @ rev (takeWhile is_space (rev ?l))" by metis
  then show ?thesis by (metis (no_types, lifting) list_all_append list_all_iff set_rev set_takeWhileD)
qed

lemma match_request_complete:
  assumes "rep \<noteq> []" "list_all is_rep_char rep" "ds \<noteq> []" "list_all is_digit ds" "ws \<noteq> []" "list_all is_space ws"
  shows "match_request (u ''GET'' @ ws @ u ''/video/'' @ rep @ u ''/segment_'' @ ds @ u ''.m4s'') = Some (rep, ds)"
proof -
  have w: "takeWhile is_space (ws @ 47 # s) = ws" "dropWhile is_space (ws @ 47 # s) = 47 # s" for s
    using assms(6) takeWhile_append_hd[of ws is_space "47 # s"] by (auto simp: list_all_iff)
  have r: "takeWhile is_rep_char (rep @ 47 # s) = rep" "dropWhile is_rep_char (rep @ 47 # s) = 47 # s" for s
    using assms(2) takeWhile_append_hd[of rep is_rep_char "47 # s"] by (auto simp: list_all_iff)
  have d: "takeWhile is_digit (ds @ 46 # s) = ds" "dropWhile is_digit (ds @ 46 # s) = 46 # s" for s
    using assms(4) takeWhile_append_hd[of ds is_digit "46 # s"] by (auto simp: list_all_iff)
  show ?thesis using assms(1,3,5)
    by (simp add: match_request_def strip_prefix_def w r d Let_def)
qed

lemma match_request_form: "match_request (strip line) = Some (rep, ds) \<longleftrightarrow> request_form line rep ds"
proof
  assume m: "match_request (strip line) = Some (rep, ds)"
  from match_request_sound[OF m] obtain ws tl where
    s: "strip line = u ''GET'' @ ws @ u ''/video/'' @ rep @ u ''/segment_'' @ ds @ u ''.m4s'' @ tl"
    and p: "ws \<noteq> []" "list_all is_space ws" "rep \<noteq> []" "list_all is_rep_char rep"
      "ds \<noteq> []" "list_all is_digit ds" and tl: "tl = [] \<or> tl = [10]"
    by (auto simp del: u_simps simp: list_all_iff)
  have "tl = []"
  proof (rule ccontr)
    assume "tl \<noteq> []"
    then have "last (strip line) = 10" "strip line \<noteq> []" using s tl by simp_all
    then show False using rstrip_last[of "lstrip line"] by (simp add: strip_def is_space_def)
  qed
  moreover obtain pre post where "list_all is_space (pre @ post)" "line = pre @ strip line @ post"
    using strip_split by blast
  ultimately show "request_form line rep ds"
    unfolding request_form_def using p s
    by (intro conjI exI[of _ pre] exI[of _ ws] exI[of _ post]) (simp_all del: u_simps)
next
  assume "request_form line rep ds"
  then obtain pre ws post where
    p: "rep \<noteq> []" "list_all is_rep_char rep" "ds \<noteq> []" "list_all is_digit ds" "ws \<noteq> []"
      "list_all is_space pre" "list_all is_space ws" "list_all is_space post"
    and l: "line = pre @ (u ''GET'' @ ws @ u ''/video/'' @ rep @ u ''/segment_'' @ ds @ u ''.m4s'') @ post"
    unfolding request_form_def by (auto simp del: u_simps)
  have "strip line = u ''GET'' @ ws @ u ''/video/'' @ rep @ u ''/segment_'' @ ds @ u ''.m4s''"
    unfolding l using p by (intro strip_between) (simp_all add: ends_nonspace_def)
  then show "match_request (strip line) = Some (rep, ds)"
    using p match_request_complete by simp
qed

text \<open>So what a line means is a function of the line, and the whole validation reads off the grammar.\<close>

lemma request_form_unique: "request_form line rep ds \<Longrightarrow> request_form line rep' ds' \<Longrightarrow> rep' = rep \<and> ds' = ds"
  by (simp flip: match_request_form)

lemma parse_segment_request_form:
  assumes "request_form line rep ds"
  shows "parse_segment_request line n =
    (if max_int_digits < length ds then Inl ValueError
     else if number_of ds < 1 then Inl RequestError
     else if rep \<in> dom LADDER_BY_REP \<and> number_of ds \<le> n then Inr (rep, number_of ds)
     else Inl NotFoundError)"
proof -
  have "parse_request line = bind_res (py_int ds) (\<lambda>i. if i < 1 then Inl ProtocolError else Inr (rep, i))"
    using assms by (simp add: parse_request_def flip: match_request_form)
  moreover have "py_int ds = (if length ds \<le> max_int_digits then Inr (number_of ds) else Inl ValueError)"
    using assms by (intro py_int_number) (simp_all add: request_form_def del: u_simps)
  ultimately show ?thesis by (simp add: parse_segment_request_def)
qed

lemma parse_segment_request_no_form:
  assumes "\<nexists>rep ds. request_form line rep ds"
  shows "parse_segment_request line n = Inl RequestError"
proof -
  have "match_request (strip line) = None"
    using assms by (cases "match_request (strip line)") (auto simp: match_request_form)
  then show ?thesis by (simp add: parse_segment_request_def parse_request_def)
qed

section \<open>Reading a line\<close>

text \<open>A read takes at least one element off the inbox, unless the peer has closed.\<close>

lemma read_until_newline_length: "length (snd (read_until_newline buf ib)) \<le> length ib"
  by (induction buf ib rule: read_until_newline.induct) (auto split: sum.splits)

lemma read_request_line_consumes:
  assumes "read_request_line ib = (Inr line, ib')"
  shows "length ib' < length ib"
proof (cases ib)
  case Nil
  then show ?thesis using assms by (simp add: read_request_line_def)
next
  case (Cons r rs)
  have "length (snd (read_until_newline buf rs)) \<le> length rs" for buf
    by (rule read_until_newline_length)
  then have "length (snd (read_until_newline [] ib)) < length ib"
    by (auto simp: Cons le_imp_less_Suc split: sum.splits)
  moreover have "ib' = snd (read_until_newline [] ib)"
    using assms by (auto simp: read_request_line_def split: prod.splits)
  ultimately show ?thesis by simp
qed

text \<open>
  However the line is cut into chunks, the buffer ends up holding them all, as long as no chunk
  before the last holds the newline and the total stays within the limit.
\<close>

lemma read_until_newline_chunks:
  assumes "\<forall>c\<in>set cs. c \<noteq> [] \<and> 10 \<notin> set c" and "10 \<notin> set buf" and "10 \<in> set c"
    and "length (buf @ concat cs @ c) \<le> 4096"
  shows "read_until_newline buf (map Inr cs @ Inr c # ib) = (Inr (buf @ concat cs @ c), ib)"
  using assms
proof (induction cs arbitrary: buf)
  case Nil
  moreover have "read_until_newline (buf @ c) ib = (Inr (buf @ c), ib)"
    using Nil.prems by (cases ib) simp_all
  ultimately show ?case by auto
next
  case (Cons d cs)
  then show ?case by simp
qed

text \<open>The line that is returned, and that the rest of the last chunk is dropped with the buffer.\<close>

lemma read_request_line_chunks:
  assumes cs: "\<forall>c\<in>set cs. c \<noteq> [] \<and> 10 \<notin> set c" and split: "concat cs @ c = bytes @ 10 # tail"
    and nl: "10 \<notin> set bytes" "10 \<in> set c" and len: "length (bytes @ 10 # tail) \<le> 4096"
  shows "read_request_line (map Inr cs @ Inr c # ib) = (Inr (strip (utf8_decode bytes)), ib)"
proof -
  have "read_until_newline [] (map Inr cs @ Inr c # ib) = (Inr (bytes @ 10 # tail), ib)"
    using read_until_newline_chunks[of cs "[]" c ib] assms by simp
  moreover have "takeWhile (\<lambda>b. b \<noteq> 10) (bytes @ 10 # tail) = bytes"
    using nl(1) by (intro takeWhile_append_hd(1)) auto
  ultimately show ?thesis by (simp add: read_request_line_def)
qed

section \<open>Properties\<close>

text \<open>C23: Validation is exact, against the grammar of request lines and the four names of the fixed
  ladder: \<open>parse_segment_request\<close> returns a name and a number exactly for a line of the form
  \<open>GET /video/<name>/segment_<digits>.m4s\<close> (any white space after \<open>GET\<close> and around the line) whose
  name is in the ladder and whose digits, at most 4300 of them, denote the number, from 1 to the count; it
  raises NotFoundError exactly for a line of the form with a number from 1 whose name is not in the
  ladder or whose number is over the count, ValueError exactly for more than 4300 digits, and
  RequestError for every other line: not of the form, or with a number 0.\<close>

theorem parse_segment_request_exact:
  "(parse_segment_request line n = Inr (rep, i) \<longleftrightarrow>
      rep \<in> {u ''360p'', u ''480p'', u ''720p'', u ''1080p''}
      \<and> (\<exists>ds. request_form line rep ds \<and> length ds \<le> 4300 \<and> i = number_of ds \<and> 1 \<le> i \<and> i \<le> n))
   \<and> (parse_segment_request line n = Inl NotFoundError \<longleftrightarrow>
      (\<exists>r ds. request_form line r ds \<and> length ds \<le> 4300 \<and> 1 \<le> number_of ds
        \<and> \<not> (r \<in> {u ''360p'', u ''480p'', u ''720p'', u ''1080p''} \<and> number_of ds \<le> n)))
   \<and> (parse_segment_request line n = Inl ValueError \<longleftrightarrow>
      (\<exists>r ds. request_form line r ds \<and> 4300 < length ds))
   \<and> (parse_segment_request line n = Inl RequestError \<longleftrightarrow>
      \<not> (\<exists>r ds. request_form line r ds \<and> (4300 < length ds \<or> 1 \<le> number_of ds)))"
proof (cases "\<exists>r ds. request_form line r ds")
  case True
  then obtain r ds where f: "request_form line r ds" by blast
  have u: "request_form line r' ds' \<longleftrightarrow> r' = r \<and> ds' = ds" for r' ds'
    using f request_form_unique by blast
  show ?thesis
    unfolding parse_segment_request_form[OF f] u LADDER_BY_REP_dom max_int_digits_def
    by (auto simp del: u_simps)
next
  case False
  then show ?thesis by (simp add: parse_segment_request_no_form del: u_simps)
qed

text \<open>C24: The request line does not depend on how TCP cuts the stream: any non-empty chunks whose
  concatenation is at most 4096 bytes with its first newline in the last chunk give the text
  before the newline, stripped.  What follows the newline in the last chunk is dropped.\<close>

theorem read_request_line_any_chunks:
  assumes "\<forall>c\<in>set cs. c \<noteq> [] \<and> 10 \<notin> set c" and "concat cs @ c = bytes @ 10 # tail"
    and "10 \<notin> set bytes" and "10 \<in> set c" and "length (bytes @ 10 # tail) \<le> 4096"
  shows "read_request_line (map Inr cs @ Inr c # ib) = (Inr (strip (utf8_decode bytes)), ib)"
  using assms by (rule read_request_line_chunks)

lemma read_request_line_any_chunks_witness:
  "read_request_line [Inr (u ''GE''), Inr (u ''T /x'' @ [13, 10, 71]), Inl TimeoutError] =
     (Inr (u ''GET /x''), [Inl TimeoutError])"
proof -
  have "read_request_line (map Inr [u ''GE''] @ Inr (u ''T /x'' @ [13, 10, 71]) # [Inl TimeoutError]) =
      (Inr (strip (utf8_decode (u ''GET /x'' @ [13]))), [Inl TimeoutError])"
    by (rule read_request_line_any_chunks[where tail = "[71]"]) simp_all
  moreover have "strip (utf8_decode (u ''GET /x'' @ [13])) = u ''GET /x''" by code_simp
  ultimately show ?thesis by simp
qed

end
