(* ===== verification/SegmentStore.thy ===== *)
theory SegmentStore
  imports RequestParser
begin

text \<open>
  \<open>server/segment_manager.py\<close>: the segment store.  What it reads from outside is a \<open>host\<close>: the
  parsed \<open>manifest.json\<close> (None if there is no file, an exception if reading or parsing it fails),
  the segment files of the media directory, and the generator \<open>random.Random(seed)\<close>, as the
  functions from the seed that the code calls on it.  Parsed JSON is the datatype \<open>json\<close>; a
  JSON object is an association list with distinct keys, as \<open>json.loads\<close> returns it.
\<close>

datatype json =
    JNull | JBool bool | JInt int | JFloat xfloat | JStr pystr
  | JList "json list" | JObj "(pystr \<times> json) list"

section \<open>Values of JSON\<close>

text \<open>Python's truth value of a parsed document.\<close>

fun falsy :: "json \<Rightarrow> bool" where
  "falsy JNull = True"
| "falsy (JBool b) = (\<not> b)"
| "falsy (JInt n) = (n = 0)"
| "falsy (JFloat x) = (x = Finite 0)"
| "falsy (JStr s) = (s = [])"
| "falsy (JList xs) = (xs = [])"
| "falsy (JObj kvs) = (kvs = [])"

definition trunc :: "real \<Rightarrow> int" where
  "trunc x = (if x < 0 then \<lceil>x\<rceil> else \<lfloor>x\<rfloor>)"

text \<open>\<open>int(v)\<close> and \<open>float(v)\<close>.\<close>

fun json_int :: "json \<Rightarrow> int result" where
  "json_int (JBool b) = Inr (if b then 1 else 0)"
| "json_int (JInt n) = Inr n"
| "json_int (JFloat (Finite x)) = Inr (trunc x)"
| "json_int (JFloat PosInf) = Inl OverflowError"
| "json_int (JFloat NegInf) = Inl OverflowError"
| "json_int (JFloat NotANum) = Inl ValueError"
| "json_int (JStr s) = py_int s"
| "json_int _ = Inl TypeError"

fun json_float :: "json \<Rightarrow> xfloat result" where
  "json_float (JBool b) = Inr (Finite (if b then 1 else 0))"
| "json_float (JInt n) =
     (if 2 ^ 1024 \<le> fl \<bar>of_int n\<bar> then Inl OverflowError else Inr (Finite (fl (of_int n))))"
| "json_float (JFloat x) = Inr x"
| "json_float (JStr s) = py_float s"
| "json_float _ = Inl TypeError"

text \<open>\<open>d.get(k)\<close>, and \<open>d[k]\<close>, where \<open>d\<close> is whatever the document holds.\<close>

fun json_get :: "json \<Rightarrow> pystr \<Rightarrow> json option result" where
  "json_get (JObj kvs) k = Inr (map_of kvs k)"
| "json_get _ k = Inl AttributeError"

fun json_item :: "json \<Rightarrow> pystr \<Rightarrow> json result" where
  "json_item (JObj kvs) k = (case map_of kvs k of None \<Rightarrow> Inl KeyError | Some v \<Rightarrow> Inr v)"
| "json_item _ k = Inl TypeError"

fun json_items :: "json \<Rightarrow> (pystr \<times> json) list result" where
  "json_items (JObj kvs) = Inr kvs"
| "json_items _ = Inl AttributeError"

section \<open>The store\<close>

record host =
  manifest_file :: "json result option"
  segment_file :: "pystr \<Rightarrow> pystr \<Rightarrow> pybytes result option"
  randint :: "pystr \<Rightarrow> int \<Rightarrow> int \<Rightarrow> int"
  randbytes :: "pystr \<Rightarrow> int \<Rightarrow> int \<Rightarrow> nat \<Rightarrow> pybytes"

record segment =
  seg_rep :: pystr
  seg_id :: int
  seg_bitrate :: int
  seg_duration :: xfloat
  seg_data :: pybytes

type_synonym cache = "pystr \<times> int \<rightharpoonup> pybytes"

record segment_manager =
  segment_count :: int
  segment_duration :: xfloat
  representations :: "pystr \<rightharpoonup> int"

text \<open>\<open>_load_manifest\<close>: a missing, unreadable or malformed file counts as an empty manifest.\<close>

definition load_manifest :: "host \<Rightarrow> json result" where
  "load_manifest h =
     (case manifest_file h of
        None \<Rightarrow> Inr (JObj [])
      | Some (Inr j) \<Rightarrow> Inr j
      | Some (Inl e) \<Rightarrow> if e = OSError \<or> e = JSONDecodeError then Inr (JObj []) else Inl e)"

definition or_default :: "json option \<Rightarrow> json \<Rightarrow> json" where
  "or_default v d = (case v of None \<Rightarrow> d | Some x \<Rightarrow> x)"

definition default_representations :: json where
  "default_representations =
     JObj (map (\<lambda>(name, br). (name, JObj [(u ''bitrate'', JInt br)])) DEFAULT_LADDER)"

text \<open>The dictionary comprehension over \<open>reps.items()\<close>; a later key would replace an earlier one.\<close>

fun rep_bitrates :: "(pystr \<rightharpoonup> int) \<Rightarrow> (pystr \<times> json) list \<Rightarrow> (pystr \<rightharpoonup> int) result" where
  "rep_bitrates m [] = Inr m"
| "rep_bitrates m ((name, info) # kvs) =
     bind_res (json_item info (u ''bitrate'')) (\<lambda>v.
     bind_res (json_int v) (\<lambda>br. rep_bitrates (m(name \<mapsto> br)) kvs))"

definition segment_manager_init :: "host \<Rightarrow> json \<Rightarrow> segment_manager result" where
  "segment_manager_init h manifest_arg =
     bind_res (if falsy manifest_arg then load_manifest h else Inr manifest_arg) (\<lambda>manifest.
     bind_res (json_get manifest (u ''segment_count'')) (\<lambda>c.
     bind_res (json_int (or_default c (JInt DEFAULT_SEGMENT_COUNT))) (\<lambda>count.
     bind_res (json_get manifest (u ''segment_duration'')) (\<lambda>d.
     bind_res (json_float (or_default d (JFloat (Finite DEFAULT_SEGMENT_DURATION)))) (\<lambda>duration.
     bind_res (json_get manifest (u ''representations'')) (\<lambda>r.
     let reps = (if falsy (or_default r JNull) then default_representations else or_default r JNull) in
     bind_res (json_items reps) (\<lambda>kvs.
     bind_res (rep_bitrates Map.empty kvs) (\<lambda>br.
     Inr \<lparr>segment_count = count, segment_duration = duration, representations = br\<rparr>))))))))"

text \<open>
  \<open>_synthetic\<close>: pseudo-random bytes, about \<open>bitrate * duration / 8\<close> of them, varied by a tenth.
\<close>

definition synthetic_base :: "int \<Rightarrow> int" where
  "synthetic_base bitrate = trunc (fl (fl (fl (of_int bitrate) * DEFAULT_SEGMENT_DURATION) / 8))"

definition synthetic_jitter :: "int \<Rightarrow> int" where
  "synthetic_jitter base = trunc (fl (fl (of_int base) * fl (1 / 10)))"

definition synthetic :: "host \<Rightarrow> pystr \<Rightarrow> int \<Rightarrow> int \<Rightarrow> pybytes result" where
  "synthetic h rep segment_id bitrate =
     (let base = synthetic_base bitrate;
          seed = rep @ u '':'' @ fmt_d segment_id;
          jitter = synthetic_jitter base
      in if jitter < - jitter then Inl ValueError
         else let n = base + randint h seed (- jitter) jitter
              in Inr (randbytes h seed (- jitter) jitter (nat (max n 1))))"

definition segment_name :: "int \<Rightarrow> pystr" where
  "segment_name segment_id = u ''segment_'' @ fmt_03d segment_id @ u ''.m4s''"

text \<open>The bytes of a segment when they are not in the cache: the file if there is one.\<close>

definition read_or_generate :: "host \<Rightarrow> pystr \<Rightarrow> int \<Rightarrow> int \<Rightarrow> pybytes result" where
  "read_or_generate h rep segment_id bitrate =
     (case segment_file h rep (segment_name segment_id) of
        Some r \<Rightarrow> r
      | None \<Rightarrow> synthetic h rep segment_id bitrate)"

definition load_bytes :: "host \<Rightarrow> cache \<Rightarrow> pystr \<Rightarrow> int \<Rightarrow> int \<Rightarrow> pybytes result \<times> cache" where
  "load_bytes h c rep segment_id bitrate =
     (case c (rep, segment_id) of
        Some data \<Rightarrow> (Inr data, c)
      | None \<Rightarrow>
          (case read_or_generate h rep segment_id bitrate of
             Inl e \<Rightarrow> (Inl e, c)
           | Inr data \<Rightarrow> (Inr data, c((rep, segment_id) \<mapsto> data))))"

definition resolve :: "host \<Rightarrow> segment_manager \<Rightarrow> cache \<Rightarrow> pystr \<Rightarrow> int \<Rightarrow> segment option result \<times> cache" where
  "resolve h sm c rep segment_id =
     (case representations sm rep of
        None \<Rightarrow> (Inr None, c)
      | Some bitrate \<Rightarrow>
          if segment_id < 1 \<or> segment_id > segment_count sm then (Inr None, c)
          else case load_bytes h c rep segment_id bitrate of
                 (Inl e, c') \<Rightarrow> (Inl e, c')
               | (Inr data, c') \<Rightarrow>
                   (Inr (Some \<lparr>seg_rep = rep, seg_id = segment_id, seg_bitrate = bitrate,
                               seg_duration = segment_duration sm, seg_data = data\<rparr>), c'))"

section \<open>The cache is transparent\<close>

text \<open>Everything in the cache is what reading or generating that segment gives.\<close>

definition cache_ok :: "host \<Rightarrow> segment_manager \<Rightarrow> cache \<Rightarrow> bool" where
  "cache_ok h sm c \<longleftrightarrow>
     (\<forall>rep i data. c (rep, i) = Some data \<longrightarrow>
        (\<exists>br. representations sm rep = Some br \<and> 1 \<le> i \<and> i \<le> segment_count sm
           \<and> read_or_generate h rep i br = Inr data))"

definition resolve_fresh :: "host \<Rightarrow> segment_manager \<Rightarrow> pystr \<times> int \<Rightarrow> segment option result" where
  "resolve_fresh h sm k = fst (resolve h sm Map.empty (fst k) (snd k))"

lemma resolve_cached:
  assumes "cache_ok h sm c"
  shows "fst (resolve h sm c rep i) = resolve_fresh h sm (rep, i)"
    and "cache_ok h sm (snd (resolve h sm c rep i))"
proof -
  have hit: "\<exists>br. representations sm rep = Some br \<and> read_or_generate h rep i br = Inr data"
    if "c (rep, i) = Some data" for data
    using assms that unfolding cache_ok_def by blast
  show "fst (resolve h sm c rep i) = resolve_fresh h sm (rep, i)"
    using hit by (auto simp: resolve_fresh_def resolve_def load_bytes_def split: option.splits sum.splits)
  have "cache_ok h sm (c((rep, i) \<mapsto> data))"
    if "representations sm rep = Some br" "1 \<le> i" "i \<le> segment_count sm"
      "read_or_generate h rep i br = Inr data" for br data
    using assms that unfolding cache_ok_def by simp
  then show "cache_ok h sm (snd (resolve h sm c rep i))"
    using assms by (auto simp: resolve_def load_bytes_def not_less split: option.split sum.split)
qed

interpretation store: cached_loader
  "\<lambda>c k. resolve h sm c (fst k) (snd k)" "resolve_fresh h sm" "cache_ok h sm" Map.empty for h sm
  by unfold_locales (simp_all add: resolve_cached, simp add: cache_ok_def)

text \<open>What a fresh load returns, on every branch.\<close>

lemma resolve_fresh_eq:
  "resolve_fresh h sm (rep, i) =
     (case representations sm rep of
        None \<Rightarrow> Inr None
      | Some br \<Rightarrow>
          if i < 1 \<or> segment_count sm < i then Inr None
          else bind_res (read_or_generate h rep i br) (\<lambda>data.
                 Inr (Some \<lparr>seg_rep = rep, seg_id = i, seg_bitrate = br,
                            seg_duration = segment_duration sm, seg_data = data\<rparr>)))"
  by (auto simp: resolve_fresh_def resolve_def load_bytes_def split: option.splits sum.splits)

lemma resolve_fresh_fields:
  assumes "resolve_fresh h sm (rep, i) = Inr (Some seg)"
  shows "seg_rep seg = rep \<and> seg_id seg = i \<and> seg_duration seg = segment_duration sm
    \<and> representations sm rep = Some (seg_bitrate seg) \<and> 1 \<le> i \<and> i \<le> segment_count sm
    \<and> read_or_generate h rep i (seg_bitrate seg) = Inr (seg_data seg)"
  using assms by (auto simp: resolve_fresh_eq py_simps split: option.splits if_splits)

section \<open>The synthetic segments\<close>

text \<open>What the documentation of \<open>random\<close> promises of the two calls.\<close>

definition rng_ok :: "host \<Rightarrow> bool" where
  "rng_ok h \<longleftrightarrow>
     (\<forall>seed lo hi. lo \<le> hi \<longrightarrow> lo \<le> randint h seed lo hi \<and> randint h seed lo hi \<le> hi)
   \<and> (\<forall>seed lo hi n. length (randbytes h seed lo hi n) = n)"

lemma trunc_of_int [simp]: "trunc (of_int n) = n"
  by (simp add: trunc_def)

lemma trunc_nonneg: "0 \<le> x \<Longrightarrow> trunc x = \<lfloor>x\<rfloor>"
  by (simp add: trunc_def)

text \<open>Two seconds at \<open>bitrate\<close> bits are a quarter of it in bytes, rounded down.\<close>

lemma synthetic_base_eq:
  assumes "0 \<le> br" and "br \<le> 2 ^ 50"
  shows "synthetic_base br = br div 4"
proof -
  have "fl (of_int br) = of_int br" using assms by (intro fl_of_int_simp) auto
  moreover have "fl (of_int br * 2) = of_int (br * 2)"
    using assms fl_of_int_simp[of "br * 2"] by simp
  moreover have quarter: "of_int (br * 2) / 8 = (of_int br / 4 :: real)" by simp
  moreover have "fl (of_int br / 4) = of_int br / 4"
    using assms is_float_scaled[of br 2] by (intro fl_is_float) simp
  ultimately have "synthetic_base br = trunc (of_int br / 4)"
    by (simp only: synthetic_base_def DEFAULT_SEGMENT_DURATION_def)
  also have "\<dots> = \<lfloor>of_int br / (4::real)\<rfloor>" using assms by (simp add: trunc_nonneg)
  also have "\<dots> = br div 4" by (simp add: floor_divide_of_int_eq[of br 4, simplified])
  finally show ?thesis .
qed

text \<open>The variation is a tenth, rounded down: the error of the literal 0.1 never shows.\<close>

lemma synthetic_jitter_eq:
  assumes "0 \<le> b" and "b \<le> 2 ^ 40"
  shows "synthetic_jitter b = b div 10"
proof -
  let ?t = "fl (1 / 10)" let ?z = "of_int b * ?t"
  have "(of_int b :: real) \<le> of_int (2 ^ 40)" using assms(2) by (simp only: of_int_le_iff)
  then have b: "fl (of_int b) = of_int b" "0 \<le> (of_int b :: real)" "(of_int b :: real) \<le> 2 ^ 40"
    using assms by simp_all
  have t: "1 / 10 \<le> ?t" "?t \<le> 1 / 10 + 1 / 2 ^ 56" unfolding fl_tenth by simp_all
  have z: "of_int b / 10 \<le> ?z" "?z \<le> of_int b / 10 + 1 / 2 ^ 16"
  proof -
    have "of_int b * (1 / 10) \<le> ?z" using b(2) t(1) by (rule mult_left_mono[rotated])
    then show "of_int b / 10 \<le> ?z" by simp
    have "?z \<le> of_int b * (1 / 10 + 1 / 2 ^ 56)" using b(2) t(2) by (rule mult_left_mono[rotated])
    also have "\<dots> = of_int b / 10 + of_int b / 2 ^ 56" by (simp add: distrib_left)
    also have "of_int b / 2 ^ 56 \<le> (2::real) ^ 40 / 2 ^ 56" using b(3) by (intro divide_right_mono) auto
    finally show "?z \<le> of_int b / 10 + 1 / 2 ^ 16" by simp
  qed
  have "of_int (b div 10) \<le> (of_int b :: real) / 10"
    using floor_divide_of_int_eq[of b 10, where 'a=real] of_int_floor_le[of "of_int b / 10 :: real"] by simp
  then have "of_int (b div 10) \<le> fl ?z"
    using assms z(1) by (intro fl_ge_iff_float is_float_of_int) auto
  moreover have "fl ?z < of_int (b div 10) + 1"
  proof -
    have "10 * (b div 10) + 9 \<ge> b" by linarith
    then have "(of_int b :: real) \<le> of_int (10 * (b div 10) + 9)" by (simp only: of_int_le_iff)
    then have "of_int b \<le> 10 * of_int (b div 10) + (9::real)" by simp
    then have "?z \<le> of_int (b div 10) + 9 / 10 + 1 / 2 ^ 16" using z(2) by linarith
    moreover have "\<bar>fl ?z - ?z\<bar> \<le> 2 powi (40 - 54)"
      using z b(2,3) by (intro fl_error_abs) auto
    moreover have "(2::real) powi (40 - 54) = 1 / 16384" "(1::real) / 2 ^ 16 = 1 / 65536"
      by (simp_all add: power_int_def power_divide)
    ultimately show ?thesis unfolding abs_le_iff by linarith
  qed
  ultimately have "\<lfloor>fl ?z\<rfloor> = b div 10" by (simp add: floor_eq_iff)
  then show ?thesis using b z by (simp add: synthetic_jitter_def trunc_nonneg)
qed

lemma synthetic_length:
  assumes "rng_ok h" and "0 \<le> br" and "br \<le> 2 ^ 40"
  obtains data where "synthetic h rep i br = Inr data"
    and "1 \<le> length data"
    and "br div 4 - br div 4 div 10 \<le> int (length data)"
    and "int (length data) \<le> max 1 (br div 4 + br div 4 div 10)"
proof -
  define b where "b = br div 4"
  define j where "j = b div 10"
  define seed where "seed = rep @ u '':'' @ fmt_d i"
  define r where "r = randint h seed (- j) j"
  define data where "data = randbytes h seed (- j) j (nat (max (b + r) 1))"
  have base: "synthetic_base br = b" using assms unfolding b_def by (intro synthetic_base_eq) auto
  have "0 \<le> b" "b \<le> 2 ^ 40" using assms by (simp_all add: b_def)
  then have jit: "synthetic_jitter b = j" "0 \<le> j"
    unfolding j_def by (simp_all add: synthetic_jitter_eq)
  have r: "- j \<le> r" "r \<le> j" using assms(1) jit(2) by (auto simp: rng_ok_def r_def)
  have len: "length data = nat (max (b + r) 1)" using assms(1) by (simp add: rng_ok_def data_def)
  have "synthetic h rep i br = Inr data"
    using jit by (simp add: synthetic_def base Let_def data_def r_def seed_def)
  moreover have "1 \<le> length data" using len by simp
  moreover have "br div 4 - br div 4 div 10 \<le> int (length data)"
    unfolding b_def[symmetric] j_def[symmetric] using len r by linarith
  moreover have "int (length data) \<le> max 1 (br div 4 + br div 4 div 10)"
    unfolding b_def[symmetric] j_def[symmetric] using len r by linarith
  ultimately show ?thesis using that[of data] by blast
qed

section \<open>Properties\<close>

text \<open>C19: The cache is invisible: from the empty cache, any sequence of calls of \<open>resolve\<close> (in any
  order, with repetitions, failures included) returns for each request what loading it afresh
  returns, so every client gets the same bytes for the same segment.\<close>

theorem resolve_cache_transparent:
  "fst (run_loads (\<lambda>c k. resolve h sm c (fst k) (snd k)) Map.empty ks) = map (resolve_fresh h sm) ks"
  by (rule store.run_loads_start)

text \<open>C20: A generated segment of bitrate \<open>br\<close> has at least one byte and between nine and eleven
  tenths of a quarter of \<open>br\<close> bytes (two seconds at \<open>br\<close> bits): the floating-point
  arithmetic of \<open>_synthetic\<close> is the integer arithmetic it stands for, for every bitrate up to
  2 to the 40, whatever the generator draws within its documented range.\<close>

theorem synthetic_size:
  assumes "rng_ok h" and "0 \<le> br" and "br \<le> 2 ^ 40"
  shows "\<exists>data. synthetic h rep i br = Inr data \<and> 1 \<le> length data
    \<and> br div 4 - br div 4 div 10 \<le> int (length data)
    \<and> int (length data) \<le> max 1 (br div 4 + br div 4 div 10)"
  using synthetic_length[OF assms, of rep i] by metis

definition sample_host :: host where
  "sample_host = \<lparr>manifest_file = None, segment_file = (\<lambda>_ _. None), randint = (\<lambda>_ lo _. lo),
                  randbytes = (\<lambda>_ _ _ n. replicate n 0)\<rparr>"

lemma synthetic_size_witness:
  "\<exists>data. synthetic sample_host (u ''720p'') 3 2500000 = Inr data \<and> 1 \<le> length data
    \<and> 562500 \<le> int (length data) \<and> int (length data) \<le> 687500"
  using synthetic_size[of sample_host 2500000 "u ''720p''" 3]
  by (simp add: sample_host_def rng_ok_def)

text \<open>Without a usable manifest (none given, and the file missing, unreadable or not JSON) the
  store serves the default: 60 segments of 2 seconds in exactly the representations and
  bitrates of the shared ladder, the ones that the request parser accepts.\<close>

lemma segment_manager_default:
  assumes "manifest_file h \<in> {None, Some (Inl OSError), Some (Inl JSONDecodeError)}" and "falsy arg"
  shows "segment_manager_init h arg =
    Inr \<lparr>segment_count = 60, segment_duration = Finite 2, representations = LADDER_BY_REP\<rparr>"
proof -
  have l: "load_manifest h = Inr (JObj [])" using assms(1) by (auto simp: load_manifest_def)
  have "rep_bitrates Map.empty (map (\<lambda>(name, br). (name, JObj [(u ''bitrate'', JInt br)])) DEFAULT_LADDER)
      = Inr LADDER_BY_REP"
    by (auto simp: DEFAULT_LADDER_def LADDER_BY_REP_def fun_upd_twist)
  then show ?thesis using assms(2) l
    by (simp add: segment_manager_init_def or_default_def default_representations_def config_defs Let_def)
qed

lemma segment_manager_default_example:
  "segment_manager_init sample_host JNull =
    Inr \<lparr>segment_count = 60, segment_duration = Finite 2, representations = LADDER_BY_REP\<rparr>"
  by (rule segment_manager_default) (simp_all add: sample_host_def)

end
