(* ===== verification/ConnHandler.thy ===== *)
theory ConnHandler
  imports SegmentStore
begin

text \<open>
  \<open>server/connection_handler.py\<close>: the thread that serves one client.  A connection is its inbox,
  what has been sent so far (one entry per \<open>sendall\<close>), how many further sends the peer will
  accept before \<open>sendall\<close> raises (None: all of them), and how many bytes of the failing send still go out (never
  all of them).  The cache of the segment manager and the
  statistics dictionary are shared between the handlers; \<open>shared\<close> holds both.
\<close>

record conn =
  conn_inbox :: inbox
  sent :: "pybytes list"
  sends_left :: "nat option"
  cut :: nat
  conn_closed :: bool

type_synonym stats = "pystr \<rightharpoonup> int"

record shared =
  sh_cache :: cache
  sh_stats :: stats

definition sendall :: "pybytes \<Rightarrow> conn \<Rightarrow> exn option \<times> conn" where
  "sendall bs c =
     (case sends_left c of
        None \<Rightarrow> (None, c\<lparr>sent := sent c @ [bs]\<rparr>)
      | Some 0 \<Rightarrow> (Some OSError, c\<lparr>sent := sent c @ [take (cut c) (butlast bs)]\<rparr>)
      | Some (Suc n) \<Rightarrow> (None, c\<lparr>sent := sent c @ [bs], sends_left := Some n\<rparr>))"

text \<open>How one turn of the request loop ends: next turn, \<open>break\<close>, or an exception.\<close>

datatype turn = Continue | Break | Raise exn

definition send_header :: "int \<Rightarrow> int \<Rightarrow> turn \<Rightarrow> conn \<Rightarrow> turn \<times> conn" where
  "send_header status sz after c =
     (case build_response_header status sz 0 (Finite 0) [] 0 of
        Inl e \<Rightarrow> (Raise e, c)
      | Inr bs \<Rightarrow> (case sendall bs c of (Some e, c') \<Rightarrow> (Raise e, c') | (None, c') \<Rightarrow> (after, c')))"

text \<open>\<open>stats[k] = stats.get(k, 0) + n\<close>, and the two updates under the lock.\<close>

definition stat_add :: "pystr \<Rightarrow> int \<Rightarrow> stats \<Rightarrow> stats" where
  "stat_add k n st = st(k \<mapsto> (case st k of None \<Rightarrow> 0 | Some v \<Rightarrow> v) + n)"

definition count_segment :: "segment \<Rightarrow> stats \<Rightarrow> stats" where
  "count_segment seg st =
     stat_add (u ''bytes_sent'') (int (length (seg_data seg))) (stat_add (u ''segments_sent'') 1 st)"

definition segment_header :: "segment \<Rightarrow> pybytes result" where
  "segment_header seg =
     build_response_header 200 (int (length (seg_data seg))) (seg_bitrate seg) (seg_duration seg)
       (seg_rep seg) (seg_id seg)"

definition send_segment :: "segment \<Rightarrow> shared \<Rightarrow> conn \<Rightarrow> turn \<times> shared \<times> conn" where
  "send_segment seg sh c =
     (case segment_header seg of
        Inl e \<Rightarrow> (Raise e, sh, c)
      | Inr hdr \<Rightarrow>
          (case sendall hdr c of
             (Some e, c1) \<Rightarrow> (Raise e, sh, c1)
           | (None, c1) \<Rightarrow>
               (case sendall (seg_data seg) c1 of
                  (Some e, c2) \<Rightarrow> (Raise e, sh, c2)
                | (None, c2) \<Rightarrow> (Continue, sh\<lparr>sh_stats := count_segment seg (sh_stats sh)\<rparr>, c2))))"

text \<open>One turn of the loop of \<open>run\<close>.\<close>

definition serve_request :: "host \<Rightarrow> segment_manager \<Rightarrow> pystr \<Rightarrow> shared \<Rightarrow> conn \<Rightarrow> turn \<times> shared \<times> conn" where
  "serve_request h sm line sh c =
     (case parse_segment_request line (segment_count sm) of
        Inl NotFoundError \<Rightarrow> (let (t, c') = send_header 404 0 Continue c in (t, sh, c'))
      | Inl RequestError \<Rightarrow> (let (t, c') = send_header 400 0 Break c in (t, sh, c'))
      | Inl e \<Rightarrow> (Raise e, sh, c)
      | Inr (rep, segment_id) \<Rightarrow>
          (case resolve h sm (sh_cache sh) rep segment_id of
             (Inl e, ca) \<Rightarrow> (Raise e, sh\<lparr>sh_cache := ca\<rparr>, c)
           | (Inr None, ca) \<Rightarrow>
               (let (t, c') = send_header 404 0 Continue c in (t, sh\<lparr>sh_cache := ca\<rparr>, c'))
           | (Inr (Some seg), ca) \<Rightarrow> send_segment seg (sh\<lparr>sh_cache := ca\<rparr>) c))"

definition serve_turn :: "host \<Rightarrow> segment_manager \<Rightarrow> shared \<Rightarrow> conn \<Rightarrow> turn \<times> shared \<times> conn" where
  "serve_turn h sm sh c =
     (let (r, ib) = read_request_line (conn_inbox c); c1 = c\<lparr>conn_inbox := ib\<rparr> in
      case r of
        Inl e \<Rightarrow> if e = RequestError \<or> e = NotFoundError then (Break, sh, c1) else (Raise e, sh, c1)
      | Inr line \<Rightarrow> serve_request h sm line sh c1)"

section \<open>Every turn consumes input\<close>

lemma send_header_inbox: "conn_inbox (snd (send_header st n a c)) = conn_inbox c"
  by (auto simp: send_header_def sendall_def split: sum.splits option.splits nat.splits)

lemma send_segment_inbox: "conn_inbox (snd (snd (send_segment seg sh c))) = conn_inbox c"
  by (auto simp: send_segment_def sendall_def split: sum.splits option.splits nat.splits)

lemma serve_request_inbox: "conn_inbox (snd (snd (serve_request h sm line sh c))) = conn_inbox c"
  using send_header_inbox send_segment_inbox
  by (simp add: serve_request_def case_prod_beta split: sum.split exn.split prod.split option.split)

lemma serve_turn_consumes:
  assumes "serve_turn h sm sh c = (Continue, sh', c')"
  shows "length (conn_inbox c') < length (conn_inbox c)"
proof -
  obtain r ib where r: "read_request_line (conn_inbox c) = (r, ib)" by force
  then obtain line where line: "r = Inr line"
    using assms by (cases r) (auto simp: serve_turn_def Let_def split: if_splits)
  then have "conn_inbox c' = ib"
    using assms r serve_request_inbox[of h sm line sh "c\<lparr>conn_inbox := ib\<rparr>"]
    by (simp add: serve_turn_def)
  then show ?thesis using read_request_line_consumes r line by simp
qed

text \<open>
  The loop, and what follows it: connection errors, timeouts and other OSErrors are swallowed, any
  other exception escapes from the thread, and the connection is closed in every case.
\<close>

definition swallowed :: "exn \<Rightarrow> bool" where
  "swallowed e \<longleftrightarrow> e \<in> {ConnectionError, TimeoutError, OSError}"

function handler_run :: "host \<Rightarrow> segment_manager \<Rightarrow> shared \<Rightarrow> conn \<Rightarrow> exn option \<times> shared \<times> conn" where
  "handler_run h sm sh c =
     (case serve_turn h sm sh c of
        (Continue, sh', c') \<Rightarrow> handler_run h sm sh' c'
      | (Break, sh', c') \<Rightarrow> (None, sh', c'\<lparr>conn_closed := True\<rparr>)
      | (Raise e, sh', c') \<Rightarrow> (if swallowed e then None else Some e, sh', c'\<lparr>conn_closed := True\<rparr>))"
  by pat_completeness auto
termination
  by (relation "measure (\<lambda>(h, sm, sh, c). length (conn_inbox c))") (auto dest: serve_turn_consumes[OF sym])

declare handler_run.simps [simp del]

section \<open>What a handler has sent and counted\<close>

text \<open>
  The abstract view of a connection: a list of responses, each a refusal or a segment, and what
  each puts on the wire.
\<close>

datatype response = Refused int | Served segment

fun response_sends :: "response \<Rightarrow> pybytes list" where
  "response_sends (Refused st) = [the_ok (build_response_header st 0 0 (Finite 0) [] 0)]"
| "response_sends (Served seg) = [the_ok (segment_header seg), seg_data seg]"

fun count_response :: "response \<Rightarrow> stats \<Rightarrow> stats" where
  "count_response (Refused st) s = s"
| "count_response (Served seg) s = count_segment seg s"

text \<open>A response the store stands behind: refusals are 404 or 400, segments are the store's own.\<close>

fun response_ok :: "host \<Rightarrow> segment_manager \<Rightarrow> response \<Rightarrow> bool" where
  "response_ok h sm (Refused st) \<longleftrightarrow> st = 404 \<or> st = 400"
| "response_ok h sm (Served seg) \<longleftrightarrow>
     ok (segment_header seg) \<and> resolve_fresh h sm (seg_rep seg, seg_id seg) = Inr (Some seg)"

text \<open>A response that is broken off in one of its sends.\<close>

definition broken_off :: "response \<Rightarrow> pybytes list \<Rightarrow> bool" where
  "broken_off rsp part \<longleftrightarrow>
     (\<exists>n < length (response_sends rsp). \<exists>k. part = take n (response_sends rsp) @ [take k (butlast (response_sends rsp ! n))])"

text \<open>How many sends the peer accepts before and after complete responses and, perhaps, one that is broken off: that is
  at the first send it does not accept.\<close>

definition spent :: "nat option \<Rightarrow> nat option \<Rightarrow> response list \<Rightarrow> pybytes list \<Rightarrow> bool" where
  "spent a b rs part \<longleftrightarrow>
     (case a of
        None \<Rightarrow> b = None \<and> part = []
      | Some n \<Rightarrow> (let k = length (concat (map response_sends rs)) + length (butlast part)
                   in k \<le> n \<and> b = Some (n - k) \<and> (part \<noteq> [] \<longrightarrow> k = n)))"

definition explained ::
    "host \<Rightarrow> segment_manager \<Rightarrow> shared \<Rightarrow> conn \<Rightarrow> shared \<Rightarrow> conn \<Rightarrow> response list \<Rightarrow> pybytes list \<Rightarrow> bool" where
  "explained h sm sh c sh' c' rs part \<longleftrightarrow>
     sent c' = sent c @ concat (map response_sends rs) @ part
   \<and> sh_stats sh' = fold count_response rs (sh_stats sh)
   \<and> list_all (response_ok h sm) rs
   \<and> (part = [] \<or> (\<exists>rsp. response_ok h sm rsp \<and> broken_off rsp part))
   \<and> spent (sends_left c) (sends_left c') rs part
   \<and> cache_ok h sm (sh_cache sh')"

lemma sendall_cases:
  "sendall bs c = (None, c') \<Longrightarrow> sent c' = sent c @ [bs]"
  "sendall bs c = (Some e, c') \<Longrightarrow>
     e = OSError \<and> sends_left c = Some 0 \<and> sends_left c' = Some 0 \<and> sent c' = sent c @ [take (cut c) (butlast bs)]"
  "sendall bs c = (None, c') \<Longrightarrow> sends_left c \<noteq> Some 0 \<and> sends_left c' = map_option (\<lambda>n. n - 1) (sends_left c)"
  by (auto simp: sendall_def split: option.splits nat.splits)

lemma broken_off_first: "response_sends rsp = bs # bss \<Longrightarrow> broken_off rsp [take k (butlast bs)]"
  unfolding broken_off_def by (intro exI[of _ 0]) auto

lemma broken_off_second: "response_sends rsp = [bs, bs'] \<Longrightarrow> broken_off rsp [bs, take k (butlast bs')]"
  unfolding broken_off_def by (intro exI[of _ 1]) auto

lemma spent_trans: "spent a b rs [] \<Longrightarrow> spent b c rs' part \<Longrightarrow> spent a c (rs @ rs') part"
  by (cases a) (auto simp: spent_def Let_def)

lemma spent_nothing [simp]: "spent a a [] []"
  by (cases a) (simp_all add: spent_def)

lemma send_header_explained:
  assumes "send_header st 0 a c = (t, c')" and "st = 404 \<or> st = 400" and "cache_ok h sm (sh_cache sh')"
    and "sh_stats sh' = sh_stats sh"
  shows "\<exists>rs part. explained h sm sh c sh' c' rs part \<and> (t = a \<and> part = [] \<or> (\<exists>e. t = Raise e))"
proof (cases "build_response_header st 0 0 (Finite 0) [] 0")
  case (Inl e)
  then show ?thesis using assms
    by (auto simp: send_header_def explained_def intro!: exI[of _ "[]"])
next
  case (Inr bs)
  obtain o' c1 where s: "sendall bs c = (o', c1)" by force
  show ?thesis
  proof (cases o')
    case None
    then have "t = a" "c' = c1" using assms(1) Inr s by (simp_all add: send_header_def)
    moreover have "spent (sends_left c) (sends_left c1) [Refused st] []"
      using sendall_cases(3)[of bs c c1] s None by (cases "sends_left c") (auto simp: spent_def)
    ultimately show ?thesis using assms Inr s None sendall_cases(1)[of bs c c1]
      by (auto simp: explained_def the_ok_def intro!: exI[of _ "[Refused st]"])
  next
    case (Some e)
    then have t: "t = Raise e" "c' = c1" using assms(1) Inr s by (simp_all add: send_header_def)
    note f = sendall_cases(2)[OF s[unfolded Some]]
    have "broken_off (Refused st) [take (cut c) (butlast bs)]" by (rule broken_off_first) (simp add: Inr the_ok_def)
    moreover have "response_ok h sm (Refused st)" using assms(2) by simp
    ultimately have "explained h sm sh c sh' c' [] [take (cut c) (butlast bs)]"
      using assms(3,4) f t by (auto simp: explained_def spent_def simp del: response_ok.simps)
    then show ?thesis using t by blast
  qed
qed

lemma send_segment_explained:
  assumes "send_segment seg sh c = (t, sh', c')" and "cache_ok h sm (sh_cache sh)"
    and "resolve_fresh h sm (seg_rep seg, seg_id seg) = Inr (Some seg)"
  shows "\<exists>rs part. explained h sm sh c sh' c' rs part \<and> (t = Continue \<longrightarrow> part = []) \<and> t \<noteq> Break"
proof (cases "segment_header seg")
  case (Inl e)
  then show ?thesis using assms by (auto simp: send_segment_def explained_def intro!: exI[of _ "[]"])
next
  case (Inr hdr)
  obtain o1 c1 where s1: "sendall hdr c = (o1, c1)" by force
  obtain o2 c2 where s2: "sendall (seg_data seg) c1 = (o2, c2)" by force
  have rsp: "response_ok h sm (Served seg)" "response_sends (Served seg) = [hdr, seg_data seg]"
    using assms(3) Inr by (simp_all add: ok_def the_ok_def)
  consider (first) e where "o1 = Some e" | (second) e where "o1 = None" "o2 = Some e"
    | (both) "o1 = None" "o2 = None" by (cases o1; cases o2) auto
  then show ?thesis
  proof cases
    case first
    then have t: "t = Raise e" "sh' = sh" "c' = c1" using assms(1) Inr s1 by (simp_all add: send_segment_def)
    have "explained h sm sh c sh' c' [] [take (cut c) (butlast hdr)]"
      using sendall_cases(2)[OF s1[unfolded first]] t assms(2) rsp(1) broken_off_first[OF rsp(2)]
      by (auto simp: explained_def spent_def simp del: response_ok.simps response_sends.simps)
    then show ?thesis using t by blast
  next
    case second
    then have t: "t = Raise e" "sh' = sh" "c' = c2" using assms(1) Inr s1 s2 by (simp_all add: send_segment_def)
    note f = sendall_cases(1,3)[OF s1[unfolded second(1)]] sendall_cases(2)[OF s2[unfolded second(2)]]
    have "explained h sm sh c sh' c' [] [hdr, take (cut c1) (butlast (seg_data seg))]"
      using f t assms(2) rsp(1) broken_off_second[OF rsp(2)]
      by (cases "sends_left c") (auto simp: explained_def spent_def simp del: response_ok.simps response_sends.simps)
    then show ?thesis using t by blast
  next
    case both
    then have t: "t = Continue" "sh' = sh\<lparr>sh_stats := count_segment seg (sh_stats sh)\<rparr>" "c' = c2"
      using assms(1) Inr s1 s2 by (simp_all add: send_segment_def)
    note f = sendall_cases(1,3)[OF s1[unfolded both(1)]] sendall_cases(1,3)[OF s2[unfolded both(2)]]
    have "spent (sends_left c) (sends_left c2) [Served seg] []"
      using f(2,4) rsp(2) by (cases "sends_left c") (auto simp: spent_def simp del: response_sends.simps)
    then have "explained h sm sh c sh' c' [Served seg] []"
      using f(1,3) t assms(2) rsp by (simp add: explained_def del: response_ok.simps response_sends.simps)
    then show ?thesis using t by blast
  qed
qed

definition turn_explained ::
    "host \<Rightarrow> segment_manager \<Rightarrow> shared \<Rightarrow> conn \<Rightarrow> turn \<times> shared \<times> conn \<Rightarrow> bool" where
  "turn_explained h sm sh c r \<longleftrightarrow>
     (case r of (t, sh', c') \<Rightarrow>
        \<exists>rs part. explained h sm sh c sh' c' rs part \<and> (t = Continue \<longrightarrow> part = []))"

lemma turn_explained_quiet:
  "sent c' = sent c \<Longrightarrow> sends_left c' = sends_left c \<Longrightarrow> sh_stats sh' = sh_stats sh \<Longrightarrow> cache_ok h sm (sh_cache sh') \<Longrightarrow>
   turn_explained h sm sh c (t, sh', c')"
  by (auto simp: turn_explained_def explained_def intro!: exI[of _ "[]"])

lemma turn_explained_header:
  assumes "cache_ok h sm (sh_cache sh')" and "sh_stats sh' = sh_stats sh" and "st = 404 \<or> st = 400"
  shows "turn_explained h sm sh c (let (t, c') = send_header st 0 a c in (t, sh', c'))"
proof -
  obtain t c' where r: "send_header st 0 a c = (t, c')" by force
  from send_header_explained[OF r assms(3,1,2)] show ?thesis
    by (fastforce simp: turn_explained_def r)
qed

lemma serve_request_explained:
  assumes ca: "cache_ok h sm (sh_cache sh)"
  shows "turn_explained h sm sh c (serve_request h sm line sh c)"
proof (cases "parse_segment_request line (segment_count sm)")
  case (Inl e)
  then show ?thesis
    using turn_explained_header[OF ca refl] turn_explained_quiet[OF refl refl refl ca]
    by (cases e) (simp_all add: serve_request_def)
next
  case (Inr p)
  obtain rep i where p: "p = (rep, i)" by force
  obtain r ca' where res: "resolve h sm (sh_cache sh) rep i = (r, ca')" by force
  then have fresh: "r = resolve_fresh h sm (rep, i)" and ca': "cache_ok h sm ca'"
    using resolve_cached[OF ca, of rep i] by simp_all
  show ?thesis
  proof (cases r)
    case (Inl e)
    then show ?thesis using Inr p res ca'
      by (simp add: serve_request_def turn_explained_quiet)
  next
    case r: (Inr s)
    show ?thesis
    proof (cases s)
      case None
      then show ?thesis
        using Inr p res r ca' turn_explained_header[of h sm "sh\<lparr>sh_cache := ca'\<rparr>" sh 404]
        by (simp add: serve_request_def)
    next
      case (Some seg)
      obtain t sh' c' where out: "send_segment seg (sh\<lparr>sh_cache := ca'\<rparr>) c = (t, sh', c')"
        by (metis prod_cases3)
      have "resolve_fresh h sm (seg_rep seg, seg_id seg) = Inr (Some seg)"
        using fresh r Some resolve_fresh_fields by metis
      from send_segment_explained[OF out _ this] ca' show ?thesis
        using Inr p res r Some out
        by (fastforce simp: serve_request_def turn_explained_def explained_def)
    qed
  qed
qed

lemma serve_turn_explained:
  assumes "cache_ok h sm (sh_cache sh)"
  shows "turn_explained h sm sh c (serve_turn h sm sh c)"
proof -
  obtain r ib where r: "read_request_line (conn_inbox c) = (r, ib)" by force
  let ?c = "c\<lparr>conn_inbox := ib\<rparr>"
  have "turn_explained h sm sh ?c (serve_request h sm line sh ?c)" for line
    by (rule serve_request_explained[OF assms])
  moreover have "turn_explained h sm sh ?c x \<longleftrightarrow> turn_explained h sm sh c x" for x
    by (simp add: turn_explained_def explained_def)
  ultimately show ?thesis using r assms
    by (cases r) (simp_all add: serve_turn_def turn_explained_quiet Let_def)
qed

text \<open>Explanations of consecutive turns compose.\<close>

lemma explained_trans:
  "explained h sm sh c sh1 c1 rs [] \<Longrightarrow> explained h sm sh1 c1 sh2 c2 rs' part \<Longrightarrow>
   explained h sm sh c sh2 c2 (rs @ rs') part"
  using spent_trans[of "sends_left c" "sends_left c1" rs "sends_left c2" rs' part] by (auto simp: explained_def)

lemma explained_close: "explained h sm sh c sh' (c'\<lparr>conn_closed := b\<rparr>) rs part \<longleftrightarrow> explained h sm sh c sh' c' rs part"
  by (simp add: explained_def)

lemma handler_run_explained:
  "cache_ok h sm (sh_cache sh) \<Longrightarrow>
   \<exists>rs part. explained h sm sh c (fst (snd (handler_run h sm sh c))) (snd (snd (handler_run h sm sh c))) rs part"
proof (induction h sm sh c rule: handler_run.induct)
  case (1 h sm sh c)
  obtain t sh' c' where turn: "serve_turn h sm sh c = (t, sh', c')" by (metis prod_cases3)
  from serve_turn_explained[OF "1.prems", of c] turn obtain rs part where
    e: "explained h sm sh c sh' c' rs part" "t = Continue \<longrightarrow> part = []"
    by (auto simp: turn_explained_def)
  show ?case
  proof (cases t)
    case Continue
    then have run: "handler_run h sm sh c = handler_run h sm sh' c'"
      using turn by (simp add: handler_run.simps[of h sm sh c])
    have "cache_ok h sm (sh_cache sh')" using e(1) by (simp add: explained_def)
    then show ?thesis
      using "1.IH"[OF turn[symmetric] Continue refl] Continue e explained_trans run by metis
  next
    case Break
    then have "handler_run h sm sh c = (None, sh', c'\<lparr>conn_closed := True\<rparr>)"
      using turn by (simp add: handler_run.simps[of h sm sh c])
    then show ?thesis using e(1) by (auto simp: explained_close)
  next
    case (Raise x)
    then have "snd (handler_run h sm sh c) = (sh', c'\<lparr>conn_closed := True\<rparr>)"
      using turn by (simp add: handler_run.simps[of h sm sh c])
    then show ?thesis using e(1) by (auto simp: explained_close)
  qed
qed

lemma handler_run_closes: "conn_closed (snd (snd (handler_run h sm sh c)))"
proof (induction h sm sh c rule: handler_run.induct)
  case (1 h sm sh c)
  show ?case
    by (subst handler_run.simps) (auto split: prod.split turn.split intro: "1.IH"[OF sym])
qed

section \<open>Properties\<close>

text \<open>C14: What a connection gets and what is counted: whatever arrives on it, a handler that starts
  from a sound cache ends with the connection closed and the cache sound, and has sent a
  sequence of complete responses (each a 404 or 400 header, or a header followed by exactly the
  bytes the store has for that segment); only when a send fails, and then at exactly the first send that the peer does not
  accept, one more such response is begun and broken off: the sends before the failed one complete, and a beginning of
  the failed one.  The shared statistics are what counting the completely served segments gives.\<close>

theorem handler_run_serves:
  assumes "cache_ok h sm (sh_cache sh)" and "handler_run h sm sh c = (e, sh', c')"
  shows "\<exists>rs part. sent c' = sent c @ concat (map response_sends rs) @ part \<and> list_all (response_ok h sm) rs
    \<and> (part = [] \<or> (\<exists>rsp. response_ok h sm rsp \<and> broken_off rsp part
         \<and> sends_left c = Some (length (concat (map response_sends rs)) + length (butlast part))))
    \<and> sh_stats sh' = fold count_response rs (sh_stats sh) \<and> cache_ok h sm (sh_cache sh') \<and> conn_closed c'"
proof -
  obtain rs part where "explained h sm sh c sh' c' rs part" using handler_run_explained[OF assms(1), of c] by (auto simp: assms(2))
  moreover have "conn_closed c'" using handler_run_closes[of h sm sh c] by (simp add: assms(2))
  ultimately show ?thesis
    by (intro exI[of _ rs] exI[of _ part]) (fastforce simp: explained_def spent_def Let_def split: option.splits)
qed

text \<open>A client that is gone after one send, in the middle of the data.\<close>

lemma handler_run_serves_witness:
  fixes sm defines "sm \<equiv> \<lparr>segment_count = 60, segment_duration = Finite 2, representations = LADDER_BY_REP\<rparr>"
  defines "c \<equiv> \<lparr>conn_inbox = [Inr (u ''GET /video/720p/segment_001.m4s'' @ [13, 10]), Inr [10]],
                 sent = [], sends_left = Some 1, cut = 3, conn_closed = False\<rparr>"
  shows "\<exists>e sh' c' rs part. handler_run sample_host sm \<lparr>sh_cache = Map.empty, sh_stats = Map.empty\<rparr> c = (e, sh', c')
    \<and> sent c' = concat (map response_sends rs) @ part \<and> (part = [] \<or> length (concat (map response_sends rs)) + length part = 2)
    \<and> sh_stats sh' = fold count_response rs Map.empty \<and> conn_closed c'"
proof -
  let ?sh = "\<lparr>sh_cache = Map.empty, sh_stats = Map.empty\<rparr>"
  obtain e sh' c' where r: "handler_run sample_host sm ?sh c = (e, sh', c')" by (metis prod_cases3)
  have "cache_ok sample_host sm (sh_cache ?sh)" by (simp add: cache_ok_def)
  from handler_run_serves[OF this r] obtain rs part where
    s: "sent c' = concat (map response_sends rs) @ part" "sh_stats sh' = fold count_response rs Map.empty" "conn_closed c'"
      "part = [] \<or> length (concat (map response_sends rs)) + length (butlast part) = 1"
    by (auto simp: c_def)
  from s(4) have "part = [] \<or> length (concat (map response_sends rs)) + length part = 2" by (cases part rule: rev_cases) auto
  with s(1-3) r show ?thesis by blast
qed

end
