(* ===== verification/SocketClient.thy ===== *)
theory SocketClient
  imports ConnHandler
begin

text \<open>
  \<open>client/network/socket_client.py\<close>: the client's end of the connection.  The socket is a
  \<open>conn\<close> (None before \<open>connect\<close> and after \<open>close\<close>); \<open>buf\<close> is what has been received and not
  yet consumed.  \<open>stream\<close> is the byte stream an inbox still delivers, up to the first failing or
  empty receive: the theorems below say that only the stream matters, not how it is cut.
\<close>

record socket_client =
  sock :: "conn option"
  buf :: pybytes

definition connect :: "conn \<Rightarrow> socket_client \<Rightarrow> socket_client" where
  "connect peer c = c\<lparr>sock := Some peer, buf := []\<rparr>"

definition close :: "socket_client \<Rightarrow> socket_client" where
  "close c = c\<lparr>sock := None\<rparr>"

definition connected :: "socket_client \<Rightarrow> bool" where
  "connected c \<longleftrightarrow> sock c \<noteq> None"

text \<open>The first CRLF of a buffer: what is before it, and what is after.\<close>

fun split_crlf :: "pybytes \<Rightarrow> (pybytes \<times> pybytes) option" where
  "split_crlf [] = None"
| "split_crlf (b # bs) =
     (if b = 13 \<and> bs \<noteq> [] \<and> hd bs = 10 then Some ([], tl bs)
      else map_option (\<lambda>(l, r). (b # l, r)) (split_crlf bs))"

text \<open>\<open>_recv_more\<close>: one more chunk for the buffer; an empty one is the end of the connection.\<close>

definition recv_more :: "pybytes \<Rightarrow> pybytes result \<Rightarrow> pybytes result" where
  "recv_more b x = (case x of Inl e \<Rightarrow> Inl e | Inr chunk \<Rightarrow> if chunk = [] then Inl ConnectionError else Inr (b @ chunk))"

lemma recv_more_simps [simp]:
  "recv_more b (Inl e) = Inl e" "recv_more b (Inr []) = Inl ConnectionError" "chunk \<noteq> [] \<Longrightarrow> recv_more b (Inr chunk) = Inr (b @ chunk)"
  by (simp_all add: recv_more_def)

text \<open>The loop of \<open>_read_line\<close>: receive until the buffer holds a CRLF.\<close>

fun read_line :: "pybytes \<Rightarrow> inbox \<Rightarrow> pystr result \<times> pybytes \<times> inbox" where
  "read_line b [] =
     (case split_crlf b of
        Some (l, r) \<Rightarrow> (Inr (utf8_decode l), r, [])
      | None \<Rightarrow> (Inl ConnectionError, b, []))"
| "read_line b (x # ib) =
     (case split_crlf b of
        Some (l, r) \<Rightarrow> (Inr (utf8_decode l), r, x # ib)
      | None \<Rightarrow>
          (case recv_more b x of
             Inl e \<Rightarrow> (Inl e, b, ib)
           | Inr b' \<Rightarrow> read_line b' ib))"

text \<open>The loop of \<open>_read_header\<close>: at most 33 lines.\<close>

function read_header_lines ::
    "pystr list \<Rightarrow> pybytes \<Rightarrow> inbox \<Rightarrow> pystr list result \<times> pybytes \<times> inbox" where
  "read_header_lines lines b ib =
     (case read_line b ib of
        (Inl e, b', ib') \<Rightarrow> (Inl e, b', ib')
      | (Inr line, b', ib') \<Rightarrow>
          (let ls = lines @ [line] in
           if strip line = DATA_LINE then (Inr ls, b', ib')
           else if length ls > 32 then (Inl ConnectionError, b', ib')
           else read_header_lines ls b' ib'))"
  by pat_completeness auto
termination
  by (relation "measure (\<lambda>(lines, b, ib). 33 - length lines)") auto

declare read_header_lines.simps [simp del]

definition read_header :: "pybytes \<Rightarrow> inbox \<Rightarrow> response_header result \<times> pybytes \<times> inbox" where
  "read_header b ib =
     (let (r, b', ib') = read_header_lines [] b ib
      in (bind_res r (\<lambda>lines. parse_response_header (join LINE_SEP lines @ LINE_SEP)), b', ib'))"

text \<open>The loop of \<open>_read_exact\<close>.\<close>

fun read_exact :: "nat \<Rightarrow> pybytes \<Rightarrow> inbox \<Rightarrow> pybytes result \<times> pybytes \<times> inbox" where
  "read_exact n b [] =
     (if n \<le> length b then (Inr (take n b), drop n b, []) else (Inl ConnectionError, b, []))"
| "read_exact n b (x # ib) =
     (if n \<le> length b then (Inr (take n b), drop n b, x # ib)
      else case recv_more b x of
             Inl e \<Rightarrow> (Inl e, b, ib)
           | Inr b' \<Rightarrow> read_exact n b' ib)"

definition fetch :: "pystr \<Rightarrow> int \<Rightarrow> socket_client \<Rightarrow> (response_header \<times> pybytes) result \<times> socket_client" where
  "fetch rep segment_id c =
     (case sock c of
        None \<Rightarrow> (Inl ConnectionError, c)
      | Some s \<Rightarrow>
          (case build_request rep segment_id of
             Inl e \<Rightarrow> (Inl e, c)
           | Inr req \<Rightarrow>
               (case sendall req s of
                  (Some e, s1) \<Rightarrow> (Inl e, c\<lparr>sock := Some s1\<rparr>)
                | (None, s1) \<Rightarrow>
                    (case read_header (buf c) (conn_inbox s1) of
                       (Inl e, b', ib') \<Rightarrow>
                         (Inl e, c\<lparr>sock := Some (s1\<lparr>conn_inbox := ib'\<rparr>), buf := b'\<rparr>)
                     | (Inr header, b', ib') \<Rightarrow>
                         (if SIZE header = 0
                          then (Inr (header, []), c\<lparr>sock := Some (s1\<lparr>conn_inbox := ib'\<rparr>), buf := b'\<rparr>)
                          else let (r, b'', ib'') = read_exact (nat (SIZE header)) b' ib' in
                               (bind_res r (\<lambda>body. Inr (header, body)),
                                c\<lparr>sock := Some (s1\<lparr>conn_inbox := ib''\<rparr>), buf := b''\<rparr>))))))"

section \<open>Streams\<close>

fun stream :: "inbox \<Rightarrow> pybytes" where
  "stream [] = []"
| "stream (Inl e # ib) = []"
| "stream (Inr c # ib) = (if c = [] then [] else c @ stream ib)"

lemma split_crlf_append:
  "split_crlf b = Some (l, r) \<Longrightarrow> split_crlf (b @ x) = Some (l, r @ x)"
proof (induction b arbitrary: l r)
  case (Cons a b)
  then show ?case by (cases b) (auto split: if_splits)
qed simp

lemma split_crlf_line: "13 \<notin> set l \<Longrightarrow> split_crlf (l @ 13 # 10 # r) = Some (l, r)"
  by (induction l) auto

text \<open>Reading a line takes the line and its CRLF off the stream.\<close>

lemma read_line_stream:
  "split_crlf (b @ stream ib) = Some (l, rest) \<Longrightarrow>
   \<exists>b' ib'. read_line b ib = (Inr (utf8_decode l), b', ib') \<and> b' @ stream ib' = rest"
proof (induction b ib rule: read_line.induct)
  case (1 b)
  then show ?case by simp
next
  case (2 b x ib)
  show ?case
  proof (cases "split_crlf b")
    case (Some p)
    then obtain l' r' where p: "split_crlf b = Some (l', r')" by (cases p) auto
    with "2.prems" split_crlf_append[OF p, of "stream (x # ib)"] show ?thesis by simp
  next
    case None
    then obtain c where "x = Inr c" "c \<noteq> []"
      using "2.prems" by (cases x) (auto split: if_splits)
    then show ?thesis using None "2.IH"[OF None] "2.prems" by simp
  qed
qed

lemma read_exact_stream:
  "n \<le> length (b @ stream ib) \<Longrightarrow>
   \<exists>b' ib'. read_exact n b ib = (Inr (take n (b @ stream ib)), b', ib')
     \<and> b' @ stream ib' = drop n (b @ stream ib)"
proof (induction n b ib rule: read_exact.induct)
  case (2 n b x ib)
  show ?case
  proof (cases "n \<le> length b")
    case False
    then obtain c where "x = Inr c" "c \<noteq> []"
      using "2.prems" by (cases x) (auto split: if_splits)
    then show ?thesis using False "2.IH"[OF False] "2.prems" by simp
  qed simp
qed simp

text \<open>Reading header lines: as many as there are up to and including the DATA line.\<close>

lemma read_header_lines_stream:
  assumes "b @ stream ib = concat (map (\<lambda>l. l @ [13, 10]) (ls @ [d])) @ rest"
    and "\<forall>l\<in>set (ls @ [d]). 13 \<notin> set l" and "\<forall>l\<in>set ls. strip (utf8_decode l) \<noteq> DATA_LINE"
    and "strip (utf8_decode d) = DATA_LINE" and "length got + length ls \<le> 32"
  shows "\<exists>b' ib'. read_header_lines got b ib = (Inr (got @ map utf8_decode (ls @ [d])), b', ib')
    \<and> b' @ stream ib' = rest"
  using assms
proof (induction ls arbitrary: b ib got)
  case Nil
  then have "split_crlf (b @ stream ib) = Some (d, rest)" by (simp add: split_crlf_line)
  from read_line_stream[OF this] obtain b' ib' where
    "read_line b ib = (Inr (utf8_decode d), b', ib')" "b' @ stream ib' = rest" by blast
  then show ?case using Nil.prems by (simp add: read_header_lines.simps[of got b ib])
next
  case (Cons l ls)
  let ?rest = "concat (map (\<lambda>l. l @ [13, 10]) (ls @ [d])) @ rest"
  have "split_crlf (b @ stream ib) = Some (l, ?rest)" using Cons.prems by (simp add: split_crlf_line)
  from read_line_stream[OF this] obtain b' ib' where
    r: "read_line b ib = (Inr (utf8_decode l), b', ib')" "b' @ stream ib' = ?rest" by blast
  have "read_header_lines got b ib = read_header_lines (got @ [utf8_decode l]) b' ib'"
    using r(1) Cons.prems by (simp add: read_header_lines.simps[of got b ib])
  then show ?case
    using Cons.IH[of b' ib' "got @ [utf8_decode l]"] r(2) Cons.prems by simp
qed

section \<open>Fetching what a server sent\<close>

lemma enc_line: "list_all scalar l \<Longrightarrow> no_break l \<Longrightarrow> 13 \<notin> set (enc l)"
  using enc_low[of l 13] by (auto simp: no_break_def is_linebreak_def)

lemma enc_wire:
  "\<forall>l\<in>set ls. list_all scalar l \<Longrightarrow> enc (wire ls) = concat (map (\<lambda>l. enc l @ [13, 10]) ls)"
proof (induction ls)
  case (Cons l ls)
  have "list_all scalar LINE_SEP" "enc LINE_SEP = [13, 10]"
    by (simp_all add: LINE_SEP_def scalar_crlf)
  moreover have "list_all scalar (wire ls)"
    using Cons.prems wire_scalar[of ls] by (simp add: list_all_iff)
  ultimately show ?case using Cons by (simp add: enc_append)
qed simp

lemma read_header_stream:
  assumes rep: "rep_ok rep" and n: "int_ok status" "int_ok sz" "int_ok bitrate" "0 \<le> sz"
    and d: "py_float (fmt_gx duration) = Inr d"
    and hdr: "build_response_header status sz bitrate duration rep seg = Inr hdr"
    and b: "b @ stream ib = hdr @ rest"
  shows "\<exists>b' ib'. read_header b ib =
      (Inr \<lparr>entries = sent_entries status sz bitrate duration rep seg, data_follows = True,
            STATUS = status, SIZE = sz, BITRATE = bitrate, DURATION = d\<rparr>, b', ib')
    \<and> b' @ stream ib' = rest"
proof -
  define all where "all = response_lines status sz bitrate duration rep seg"
  obtain ls where ls: "all = ls @ [DATA_LINE]" "length ls = 6" "\<forall>l\<in>set ls. strip l \<noteq> DATA_LINE"
    using response_lines_data[OF rep] unfolding all_def by blast
  have sc: "\<forall>l\<in>set all. list_all scalar l" and nb: "\<forall>l\<in>set all. no_break l"
    unfolding all_def by (rule response_lines_scalar[OF rep], rule response_lines_no_break[OF rep])
  have dec: "utf8_decode (enc l) = l" if "l \<in> set all" for l
    using sc that utf8_decode_enc by blast
  have "build_response_header status sz bitrate duration rep seg = utf8_encode (wire all)"
    using join_wire[of all] ls(1) by (simp add: build_response_header_def all_def)
  also have "\<dots> = Inr (enc (wire all))"
    using wire_scalar[OF sc] by (intro utf8_encode_enc) (simp add: list_all_iff)
  finally have "hdr = concat (map (\<lambda>l. l @ [13, 10]) (map enc all))"
    using hdr enc_wire[OF sc] by (simp add: comp_def)
  then have "b @ stream ib = concat (map (\<lambda>l. l @ [13, 10]) (map enc ls @ [enc DATA_LINE])) @ rest"
    using b ls(1) by simp
  moreover have "\<forall>l\<in>set (map enc ls @ [enc DATA_LINE]). 13 \<notin> set l"
    using sc nb enc_line ls(1) by auto
  moreover have "\<forall>l\<in>set (map enc ls). strip (utf8_decode l) \<noteq> DATA_LINE"
    using dec ls by auto
  moreover have "strip (utf8_decode (enc DATA_LINE)) = DATA_LINE"
    using dec[of DATA_LINE] ls(1) strip_id[of DATA_LINE] by (simp add: DATA_LINE_def ends_nonspace_def)
  ultimately obtain b' ib' where
    r: "read_header_lines [] b ib = (Inr (map utf8_decode (map enc ls @ [enc DATA_LINE])), b', ib')"
    and rest: "b' @ stream ib' = rest"
    using read_header_lines_stream[of b ib "map enc ls" "enc DATA_LINE" rest "[]"] ls(2) by auto
  have "map utf8_decode (map enc ls @ [enc DATA_LINE]) = all"
    using dec ls(1) by (simp add: map_idI)
  then have "read_header b ib = (parse_response_header (wire all), b', ib')"
    using r join_wire[of all] ls(1) by (simp add: read_header_def)
  moreover have "header_entries Map.empty (splitlines (wire all)) =
      Inr (sent_entries status sz bitrate duration rep seg, True)"
    using splitlines_wire[OF nb] header_entries_response[OF rep] by (simp add: all_def)
  ultimately show ?thesis
    using parse_response_entries[OF _ n d, of "wire all"] rest by simp
qed

text \<open>
  A whole fetch: if what the socket will deliver is a response of the server, however it is cut,
  the caller gets its header and its data, and what follows the response stays for the next fetch.
\<close>

lemma fetch_response:
  assumes s: "sock c = Some s" "sends_left s = None" and req: "build_request rep0 seg0 = Inr req"
    and rep: "rep_ok rep" and n: "int_ok status" "int_ok (int (length body))" "int_ok bitrate"
    and d: "py_float (fmt_gx duration) = Inr d"
    and hdr: "build_response_header status (int (length body)) bitrate duration rep seg = Inr hdr"
    and b: "buf c @ stream (conn_inbox s) = hdr @ body @ rest"
  shows "\<exists>c' s'. fetch rep0 seg0 c =
      (Inr (\<lparr>entries = sent_entries status (int (length body)) bitrate duration rep seg,
             data_follows = True, STATUS = status, SIZE = int (length body), BITRATE = bitrate,
             DURATION = d\<rparr>, body), c')
    \<and> sock c' = Some s' \<and> sends_left s' = None \<and> sent s' = sent s @ [req]
    \<and> buf c' @ stream (conn_inbox s') = rest"
proof -
  obtain b' ib' where h: "read_header (buf c) (conn_inbox s) =
      (Inr \<lparr>entries = sent_entries status (int (length body)) bitrate duration rep seg,
            data_follows = True, STATUS = status, SIZE = int (length body), BITRATE = bitrate,
            DURATION = d\<rparr>, b', ib')"
    and b': "b' @ stream ib' = body @ rest"
    using read_header_stream[OF rep n _ d hdr b] by auto
  show ?thesis
  proof (cases "body = []")
    case True
    then show ?thesis using s req h b' by (simp add: fetch_def sendall_def)
  next
    case False
    obtain b'' ib'' where "read_exact (length body) b' ib' = (Inr body, b'', ib'')"
      and "b'' @ stream ib'' = rest"
      using read_exact_stream[of "length body" b' ib'] b' by auto
    then show ?thesis using s req h False by (simp add: fetch_def sendall_def)
  qed
qed

end
