(* ===== verification/EndToEnd.thy ===== *)
theory EndToEnd
  imports SocketClient
begin

text \<open>
  The two ends of the protocol together: the client's request bytes through one turn of the
  connection handler, and the handler's bytes through the client's \<open>fetch\<close>.
\<close>

lemma int_okI: "\<bar>n\<bar> < 10 ^ 18 \<Longrightarrow> int_ok n"
proof -
  assume n: "\<bar>n\<bar> < 10 ^ 18"
  have "(10::int) ^ 18 \<le> 10 ^ max_int_digits"
    by (rule power_increasing) (simp_all add: max_int_digits_def)
  then show ?thesis using n unfolding int_ok_def by linarith
qed

lemma ladder_rep_ok: "rep \<in> dom LADDER_BY_REP \<Longrightarrow> rep_ok rep \<and> length rep \<le> 5"
  by (auto simp: LADDER_BY_REP_dom rep_ok_def ends_nonspace_def no_break_def is_linebreak_def scalar_def
      is_space_def)

lemma length_request_line:
  "length (request_line rep digits) = 4 + 7 + length rep + 9 + length digits + 4"
  by (simp add: request_line_def)

text \<open>The handler reads back the line that the client built, in whatever chunks it arrives.\<close>

lemma handler_reads_request:
  assumes rep: "rep \<in> dom LADDER_BY_REP" and i: "1 \<le> i" "i < 10 ^ 18"
    and req: "build_request rep i = Inr req"
    and cs: "concat cs @ c = req" "\<forall>c\<in>set cs. c \<noteq> []" "c \<noteq> []"
  shows "\<exists>line. read_request_line (map Inr cs @ Inr c # ib) = (Inr line, ib)
    \<and> parse_request line = Inr (rep, i)"
proof -
  define ln where "ln = request_line rep (fmt_03d i)"
  have chars: "rep \<noteq> []" "\<forall>c\<in>set rep. is_rep_char c" using rep_in_ladder_chars[OF rep] by auto
  have b: "req = ln @ [13, 10]" "is_ascii ln"
    using build_request_bytes[OF chars(2), of i] i(1) req by (simp_all add: ln_def LINE_SEP_def)
  have dig: "length (dec_str i) \<le> 18"
    using length_dec_digits[of i 18] i by (simp add: dec_str_def)
  then have "length (fmt_03d i) \<le> 18"
    using length_fmt_03d[of i] i(1) by simp
  then have len: "length req \<le> 4096"
    using ladder_rep_ok[OF rep] unfolding b(1) ln_def by (simp add: length_request_line)
  have "10 \<notin> set ln"
  proof -
    have "\<forall>c\<in>set (fmt_03d i). c \<noteq> 10" using fmt_03d_digits(2)[of i] i(1) by (auto simp: ascii_digit_def)
    moreover have "\<forall>c\<in>set rep. c \<noteq> 10" using chars(2) rep_char_ascii by fastforce
    ultimately show ?thesis by (auto simp: ln_def request_line_def)
  qed
  then have nl: "10 \<notin> set (ln @ [13])" by simp
  obtain p where p: "c = p @ [10]" "concat cs @ p = ln @ [13]"
    using cs(1,3) b(1) by (cases c rule: rev_cases) auto
  have "10 \<notin> set (concat cs)" using nl unfolding p(2)[symmetric] by simp
  then have cs10: "\<forall>c\<in>set cs. c \<noteq> [] \<and> 10 \<notin> set c" using cs(2) by auto
  have c10: "10 \<in> set c" using p(1) by simp
  have "read_request_line (map Inr cs @ Inr c # ib) = (Inr (strip (utf8_decode (ln @ [13]))), ib)"
    using read_request_line_chunks[OF cs10 _ nl c10, of "[]" ib] cs(1) b(1) len by simp
  moreover have "strip (utf8_decode (ln @ [13])) = ln"
    using b(2) strip_append_spaces[of "[13]" ln] strip_id[OF request_line_ends]
    by (simp add: ln_def is_space_def)
  moreover have "parse_request ln = Inr (rep, i)"
  proof -
    have "\<bar>i\<bar> < 10 ^ max_int_digits" using int_okI[of i] i by (simp add: int_ok_def)
    then show ?thesis unfolding ln_def using parse_request_line[OF chars i(1)] by simp
  qed
  ultimately show ?thesis by auto
qed

text \<open>What the client can make of a response of the handler.\<close>

definition served_header :: "segment \<Rightarrow> response_header" where
  "served_header seg =
     \<lparr>entries = sent_entries 200 (int (length (seg_data seg))) (seg_bitrate seg) (seg_duration seg)
                  (seg_rep seg) (seg_id seg),
      data_follows = True, STATUS = 200, SIZE = int (length (seg_data seg)),
      BITRATE = seg_bitrate seg, DURATION = seg_duration seg\<rparr>"

text \<open>The segments that the wire format can carry without loss.\<close>

definition seg_sendable :: "segment \<Rightarrow> bool" where
  "seg_sendable seg \<longleftrightarrow>
     seg_rep seg \<in> dom LADDER_BY_REP \<and> \<bar>seg_bitrate seg\<bar> < 10 ^ 18
   \<and> int (length (seg_data seg)) < 10 ^ 18 \<and> g_exact (seg_duration seg)"

lemma segment_header_total: "seg_sendable seg \<Longrightarrow> \<exists>hdr. segment_header seg = Inr hdr"
  using parse_built_response[of "seg_rep seg" 200 "int (length (seg_data seg))" "seg_bitrate seg"
      "seg_duration seg" "seg_duration seg" "seg_id seg"] ladder_rep_ok[of "seg_rep seg"]
  by (auto simp: seg_sendable_def segment_header_def g_exact_def int_okI)

lemma fetch_segment:
  assumes "sock c = Some s" "sends_left s = None" and "build_request rep i = Inr req"
    and "seg_sendable seg" and "segment_header seg = Inr hdr"
    and "buf c @ stream (conn_inbox s) = hdr @ seg_data seg @ rest"
  shows "\<exists>c' s'. fetch rep i c = (Inr (served_header seg, seg_data seg), c')
    \<and> sock c' = Some s' \<and> sends_left s' = None \<and> sent s' = sent s @ [req]
    \<and> buf c' @ stream (conn_inbox s') = rest"
  unfolding served_header_def
  by (rule fetch_response[OF assms(1-3), where hdr = hdr])
    (use assms ladder_rep_ok in \<open>auto simp: seg_sendable_def segment_header_def g_exact_def int_okI\<close>)

text \<open>One turn of the handler on a request for a segment that the store has.\<close>

lemma serve_turn_segment:
  assumes seg: "resolve_fresh h sm (rep, i) = Inr (Some seg)" and ok: "seg_sendable seg" "i < 10 ^ 18"
    and req: "build_request rep i = Inr req"
    and cs: "concat cs @ c = req" "\<forall>c\<in>set cs. c \<noteq> []" "c \<noteq> []"
    and sc: "conn_inbox sc = map Inr cs @ Inr c # ib" "sends_left sc = None"
    and ca: "cache_ok h sm (sh_cache sh)" and hdr: "segment_header seg = Inr hdr"
  shows "\<exists>ca'. cache_ok h sm ca' \<and> serve_turn h sm sh sc =
     (Continue, \<lparr>sh_cache = ca', sh_stats = count_segment seg (sh_stats sh)\<rparr>,
      sc\<lparr>conn_inbox := ib, sent := sent sc @ [hdr, seg_data seg]\<rparr>)"
proof -
  have f: "seg_rep seg = rep" "1 \<le> i" "i \<le> segment_count sm"
    using resolve_fresh_fields[OF seg] by simp_all
  have rep: "rep \<in> dom LADDER_BY_REP" using ok(1) f(1) by (simp add: seg_sendable_def)
  obtain line where line: "read_request_line (conn_inbox sc) = (Inr line, ib)"
    "parse_request line = Inr (rep, i)"
    using handler_reads_request[OF rep f(2) ok(2) req cs, of ib] sc(1) by auto
  then have p: "parse_segment_request line (segment_count sm) = Inr (rep, i)"
    using rep f(3) by (simp add: parse_segment_request_ok)
  obtain ca' where r: "resolve h sm (sh_cache sh) rep i = (Inr (Some seg), ca')" and ca': "cache_ok h sm ca'"
    using resolve_cached[OF ca, of rep i] seg by (cases "resolve h sm (sh_cache sh) rep i") auto
  show ?thesis using line p r ca' hdr sc(2)
    by (auto simp: serve_turn_def serve_request_def send_segment_def sendall_def)
qed

section \<open>Properties\<close>

text \<open>C13: The protocol works end to end.  For a segment that the store has and the wire format can
  carry, the handler, on receiving the bytes of the client's \<open>build_request\<close> in any chunks,
  sends one header and the data, counts the segment and goes on; and \<open>fetch\<close>, on receiving
  those bytes in any chunks (also after or followed by others of the stream), returns the header
  with status 200 and the store's bitrate and duration, and exactly the data.\<close>

theorem exchange:
  assumes "resolve_fresh h sm (rep, i) = Inr (Some seg)" and "seg_sendable seg" and "i < 10 ^ 18"
    and "build_request rep i = Inr req" and "cache_ok h sm (sh_cache sh)"
    and "concat cs @ c = req" "\<forall>c\<in>set cs. c \<noteq> []" "c \<noteq> []"
    and "conn_inbox sc = map Inr cs @ Inr c # ib" "sends_left sc = None"
  shows "\<exists>hdr ca. cache_ok h sm ca
    \<and> serve_turn h sm sh sc =
       (Continue, \<lparr>sh_cache = ca, sh_stats = count_segment seg (sh_stats sh)\<rparr>,
        sc\<lparr>conn_inbox := ib, sent := sent sc @ [hdr, seg_data seg]\<rparr>)
    \<and> (\<forall>cl s rest. sock cl = Some s \<longrightarrow> sends_left s = None \<longrightarrow>
         buf cl @ stream (conn_inbox s) = hdr @ seg_data seg @ rest \<longrightarrow>
         (\<exists>cl' s'. fetch rep i cl = (Inr (served_header seg, seg_data seg), cl')
            \<and> sock cl' = Some s' \<and> sent s' = sent s @ [req]
            \<and> buf cl' @ stream (conn_inbox s') = rest))"
proof -
  obtain hdr where hdr: "segment_header seg = Inr hdr"
    using segment_header_total[OF assms(2)] by blast
  from serve_turn_segment[OF assms(1-4,6-10,5) hdr] fetch_segment[OF _ _ assms(4,2) hdr]
  show ?thesis by blast
qed

definition sample_store :: segment_manager where
  "sample_store = \<lparr>segment_count = 60, segment_duration = Finite 2, representations = LADDER_BY_REP\<rparr>"

definition file_host :: host where
  "file_host = sample_host\<lparr>segment_file := (\<lambda>rep name. Some (Inr [7, 13, 10, 255]))\<rparr>"

definition sample_segment :: segment where
  "sample_segment = \<lparr>seg_rep = u ''720p'', seg_id = 5, seg_bitrate = 2500000, seg_duration = Finite 2,
                     seg_data = [7, 13, 10, 255]\<rparr>"

lemma sample_segment_stored: "resolve_fresh file_host sample_store (u ''720p'', 5) = Inr (Some sample_segment)"
  by (simp add: resolve_fresh_eq sample_store_def sample_segment_def LADDER_BY_REP_def DEFAULT_LADDER_def
      read_or_generate_def file_host_def)

lemma sample_segment_sendable: "seg_sendable sample_segment"
  using g_exact_int[of 2] by (simp add: seg_sendable_def sample_segment_def LADDER_BY_REP_dom)

lemma exchange_witness:
  defines "req \<equiv> the_ok (build_request (u ''720p'') 5)"
    and "sh \<equiv> \<lparr>sh_cache = Map.empty, sh_stats = Map.empty\<rparr>"
  defines "sc \<equiv> \<lparr>conn_inbox = [Inr [71], Inr (drop 1 req)], sent = [], sends_left = None, cut = 0, conn_closed = False\<rparr>"
  shows "\<exists>hdr ca. cache_ok file_host sample_store ca
    \<and> serve_turn file_host sample_store sh sc =
       (Continue, \<lparr>sh_cache = ca, sh_stats = count_segment sample_segment Map.empty\<rparr>,
        sc\<lparr>conn_inbox := [], sent := [hdr, [7, 13, 10, 255]]\<rparr>)"
proof -
  have req: "build_request (u ''720p'') 5 = Inr req" "[71] @ drop 1 req = req" "drop 1 req \<noteq> []"
    unfolding req_def by code_simp+
  note res = sample_segment_stored
  have "seg_sendable sample_segment" by (rule sample_segment_sendable)
  with exchange[of file_host sample_store "u ''720p''" 5 sample_segment req sh "[[71]]" "drop 1 req" sc "[]"]
  show ?thesis using req res
    by (fastforce simp: sh_def sc_def cache_ok_def sample_segment_def)
qed

end
