(* ===== verification/Throughput.thy ===== *)
theory Throughput
  imports Config
begin

text \<open>
  \<open>client/throughput/ewma.py\<close> and \<open>client/throughput/moving_average.py\<close>: the two estimators of the
  download rate.  \<open>sum\<close> adds floats from left to right, rounding each time (CPython up to 3.11;
  later versions compensate the rounding).
\<close>

section \<open>The exponential average\<close>

record ewma =
  ew_alpha :: real
  ew_value :: "real option"
  ew_samples :: int

definition ewma_init :: "real \<Rightarrow> real option \<Rightarrow> ewma result" where
  "ewma_init al initial =
     (if 0 < al \<and> al \<le> 1 then Inr \<lparr>ew_alpha = al, ew_value = initial, ew_samples = 0\<rparr>
      else Inl ValueError)"

definition ewma_update :: "real \<Rightarrow> ewma \<Rightarrow> real \<times> ewma" where
  "ewma_update t e =
     (let v = (case ew_value e of
                 None \<Rightarrow> t
               | Some w \<Rightarrow> fl (fl (ew_alpha e * t) + fl (fl (1 - ew_alpha e) * w)))
      in (v, e\<lparr>ew_value := Some v, ew_samples := ew_samples e + 1\<rparr>))"

definition ewma_estimate :: "ewma \<Rightarrow> real option" where
  "ewma_estimate e = ew_value e"

definition ewma_reset :: "ewma \<Rightarrow> ewma" where
  "ewma_reset e = e\<lparr>ew_value := None, ew_samples := 0\<rparr>"

fun ewma_run :: "ewma \<Rightarrow> real list \<Rightarrow> ewma" where
  "ewma_run e [] = e"
| "ewma_run e (t # ts) = ewma_run (snd (ewma_update t e)) ts"

section \<open>The moving average\<close>

definition py_sum :: "real list \<Rightarrow> real" where
  "py_sum xs = foldl (\<lambda>s x. fl (s + x)) 0 xs"

record moving_average =
  ma_window :: int
  ma_samples :: "real list"

definition ma_init :: "int \<Rightarrow> moving_average result" where
  "ma_init w = (if w < 1 then Inl ValueError else Inr \<lparr>ma_window = w, ma_samples = []\<rparr>)"

text \<open>\<open>append\<close> to a deque with \<open>maxlen\<close>: when it is full the oldest element drops out.\<close>

definition deque_append :: "int \<Rightarrow> 'a list \<Rightarrow> 'a \<Rightarrow> 'a list" where
  "deque_append maxlen xs x = drop (length xs + 1 - nat maxlen) (xs @ [x])"

definition ma_value :: "moving_average \<Rightarrow> real option" where
  "ma_value m =
     (if ma_samples m = [] then None
      else Some (fl (py_sum (ma_samples m) / of_nat (length (ma_samples m)))))"

definition ma_update :: "real \<Rightarrow> moving_average \<Rightarrow> real option \<times> moving_average" where
  "ma_update t m =
     (let m' = m\<lparr>ma_samples := deque_append (ma_window m) (ma_samples m) t\<rparr> in (ma_value m', m'))"

fun ma_run :: "moving_average \<Rightarrow> real list \<Rightarrow> moving_average" where
  "ma_run m [] = m"
| "ma_run m (t # ts) = ma_run (snd (ma_update t m)) ts"

section \<open>Rounding of normal values\<close>

text \<open>The unit of rounding, and what rounding does to a value that is bounded by a normal one.\<close>

abbreviation ulp2 :: real where
  "ulp2 \<equiv> 2 powi (-53)"

lemma fl_upper: "x \<le> y \<Longrightarrow> 2 powi (-1022) \<le> y \<Longrightarrow> fl x \<le> y * (1 + ulp2)"
proof -
  assume a: "x \<le> y" "2 powi (-1022) \<le> y"
  have pos: "0 < y" using a(2) powi2_pos[of "-1022"] by linarith
  have "fl x \<le> fl y" using a(1) by (rule fl_mono)
  moreover have "\<bar>fl y - y\<bar> \<le> y * ulp2" using fl_error_rel[of y] a(2) pos by simp
  ultimately show ?thesis by (simp only: distrib_left mult_1_right abs_le_iff) linarith
qed

lemma fl_lower: "y \<le> x \<Longrightarrow> 2 powi (-1022) \<le> y \<Longrightarrow> y * (1 - ulp2) \<le> fl x"
proof -
  assume a: "y \<le> x" "2 powi (-1022) \<le> y"
  have pos: "0 < y" using a(2) powi2_pos[of "-1022"] by linarith
  have "fl y \<le> fl x" using a(1) by (rule fl_mono)
  moreover have "\<bar>fl y - y\<bar> \<le> y * ulp2" using fl_error_rel[of y] a(2) pos by simp
  ultimately show ?thesis by (simp only: right_diff_distrib mult_1_right abs_le_iff) linarith
qed

lemma normal_ge: "1 / 2 ^ 20 \<le> x \<Longrightarrow> 2 powi (-1022) \<le> (x::real)"
proof -
  assume "1 / 2 ^ 20 \<le> x"
  moreover have "(2::real) powi (-1022) \<le> 2 powi (-20)" by (rule powi2_mono) simp
  moreover have "(2::real) powi (-20) = 1 / 2 ^ 20" by (simp add: power_int_def power_divide)
  ultimately show ?thesis by linarith
qed

section \<open>The estimate stays within the samples\<close>

text \<open>The slack that repeated rounding can build up: four units over the smoothing factor.\<close>

definition ewma_slack :: "real \<Rightarrow> real" where
  "ewma_slack al = 4 * ulp2 / al"

lemma slack_arith:
  fixes a b c e :: real
  assumes "0 \<le> e" "e \<le> 1 / 2 ^ 53" and a: "1 / 1024 \<le> a" and ac: "a * c = 4 * e" and b: "0 \<le> b" "b \<le> 1 - a + e / 2"
  shows "(1 + e) * (1 + e) * (a + b * (1 + c)) \<le> 1 + c"
proof -
  have c: "0 \<le> c" "c \<le> 1 / 2 ^ 41"
  proof -
    have "0 \<le> a * c" "a * c \<le> 4 * (1 / 2 ^ 53)" using ac assms(1,2) by linarith+
    then show c0: "0 \<le> c" using a by (simp add: zero_le_mult_iff)
    have "1 / 1024 * c \<le> a * c" using a c0 by (rule mult_right_mono)
    then show "c \<le> 1 / 2 ^ 41" using \<open>a * c \<le> _\<close> by simp
  qed
  define d where "d = c - 7 / 2 * e + e * c / 2"
  have "a + b * (1 + c) \<le> a + (1 - a + e / 2) * (1 + c)"
    using b(2) c(1) by (intro add_left_mono mult_right_mono) auto
  also have "\<dots> = 1 + d" using ac unfolding d_def by (simp add: algebra_simps)
  finally have "(1 + e) * (1 + e) * (a + b * (1 + c)) \<le> (1 + e) * (1 + e) * (1 + d)"
    using assms(1) by (intro mult_left_mono) auto
  also have "\<dots> = 1 + c + e * (- 3 / 2 + c / 2 + 2 * d + e * (1 + d))"
    unfolding d_def by (simp add: algebra_simps)
  also have "\<dots> \<le> 1 + c"
  proof -
    have ec: "0 \<le> e * c" "e * c \<le> 1 / 2 ^ 53 * (1 / 2 ^ 41)" using assms(1) c mult_mono[OF assms(2) c(2)] by simp_all
    have "c \<le> 1 / 16" "e * c \<le> 1 / 16" "e \<le> 1 / 16" using c(2) ec(2) assms(2) by simp_all
    then have d: "d \<le> 1 / 8" using assms(1) unfolding d_def by linarith
    have "e * (1 + d) \<le> e * 2" using d assms(1) by (intro mult_left_mono) auto
    then have "- 3 / 2 + c / 2 + 2 * d + e * (1 + d) \<le> 0" using c d assms(2) by simp
    then show ?thesis using assms(1) by (simp add: mult_nonneg_nonpos)
  qed
  finally show ?thesis .
qed

lemma slack_arith_lower:
  fixes a b c e :: real
  assumes "0 \<le> e" "e \<le> 1 / 2 ^ 53" and a: "1 / 1024 \<le> a" and ac: "a * c = 4 * e" and b: "1 - a - e / 2 \<le> b"
  shows "1 - c \<le> (1 - e) * (1 - e) * (a + b * (1 - c))"
proof -
  have c: "0 \<le> c" "c \<le> 1 / 2 ^ 41"
  proof -
    have "0 \<le> a * c" "a * c \<le> 4 * (1 / 2 ^ 53)" using ac assms(1,2) by linarith+
    then show c0: "0 \<le> c" using a by (simp add: zero_le_mult_iff)
    have "1 / 1024 * c \<le> a * c" using a c0 by (rule mult_right_mono)
    then show "c \<le> 1 / 2 ^ 41" using \<open>a * c \<le> _\<close> by simp
  qed
  define d where "d = c - 7 / 2 * e - e * c / 2"
  have "1 - c = (1 - e) * (1 - e) * (1 - d) - e * (3 / 2 + c / 2 + 2 * d + e * (1 - d))"
    unfolding d_def by (simp add: algebra_simps add_divide_distrib)
  also have "\<dots> \<le> (1 - e) * (1 - e) * (1 - d)"
  proof -
    have ec: "0 \<le> e * c" "e * c \<le> 1 / 2 ^ 53 * (1 / 2 ^ 41)" using assms(1) c mult_mono[OF assms(2) c(2)] by simp_all
    have "c \<le> 1 / 64" "e * c \<le> 1 / 64" "e \<le> 1 / 64" using c(2) ec(2) assms(2) by simp_all
    then have d: "d \<le> 1" "- (1 / 8) \<le> d" using assms(1) c(1) ec(1) unfolding d_def by linarith+
    then have "0 \<le> e * (1 - d)" using assms(1) by simp
    then have "0 \<le> 3 / 2 + c / 2 + 2 * d + e * (1 - d)" using c d by simp
    then show ?thesis using assms(1) by simp
  qed
  also have "1 - d = a + (1 - a - e / 2) * (1 - c)"
    using ac unfolding d_def by (simp add: algebra_simps add_divide_distrib diff_divide_distrib)
  also have "(1 - e) * (1 - e) * \<dots> \<le> (1 - e) * (1 - e) * (a + b * (1 - c))"
    using b c by (intro mult_left_mono add_left_mono mult_right_mono) auto
  finally show ?thesis .
qed

lemma one_minus_alpha:
  assumes "1 / 1024 \<le> al" "al \<le> 1023 / 1024"
  shows "1 - al - ulp2 / 2 \<le> fl (1 - al)" "fl (1 - al) \<le> 1 - al + ulp2 / 2" "1 / 1024 \<le> fl (1 - al)"
proof -
  have "\<bar>fl (1 - al) - (1 - al)\<bar> \<le> 2 powi (0 - 54)"
    using assms by (intro fl_error_abs) auto
  moreover have "(2::real) powi (0 - 54) = ulp2 / 2" using powi2_add[of "-54" 1] by simp
  ultimately show "1 - al - ulp2 / 2 \<le> fl (1 - al)" "fl (1 - al) \<le> 1 - al + ulp2 / 2"
    unfolding abs_le_iff by linarith+
  have "is_float (1 / 1024)" using is_float_scaled[of 1 10] by simp
  then show "1 / 1024 \<le> fl (1 - al)" using assms by (intro fl_ge_iff_float) auto
qed

lemma ulp2_eq: "ulp2 = 1 / 2 ^ 53"
  by (simp add: power_int_def power_divide)

lemma slack_bounds:
  assumes "1 / 1024 \<le> al" and "al \<le> 1023 / 1024"
  shows "al * ewma_slack al = 4 * ulp2" "0 \<le> ewma_slack al" "ewma_slack al \<le> 1 / 2"
proof -
  have e: "(0::real) \<le> ulp2" "ulp2 \<le> 1 / (2::real) ^ 53" unfolding ulp2_eq by simp_all
  show ac: "al * ewma_slack al = 4 * ulp2" using assms by (simp add: ewma_slack_def)
  show c: "0 \<le> ewma_slack al" using assms e by (simp add: ewma_slack_def)
  have "1 / 1024 * ewma_slack al \<le> al * ewma_slack al" using assms c by (intro mult_right_mono) auto
  then show "ewma_slack al \<le> 1 / 2" using ac e(2) by simp
qed

lemma ewma_blend_upper:
  fixes hi w t al :: real
  assumes al: "1 / 1024 \<le> al" "al \<le> 1023 / 1024" and t: "t \<le> hi" "1 \<le> hi" and w: "w \<le> hi * (1 + ewma_slack al)"
  shows "fl (fl (al * t) + fl (fl (1 - al) * w)) \<le> hi * (1 + ewma_slack al)"
proof -
  define c where "c = ewma_slack al"
  define b where "b = fl (1 - al)"
  define e :: real where "e = ulp2"
  note b = one_minus_alpha[OF al, folded b_def e_def] and c = slack_bounds[OF al, folded c_def e_def]
  have e: "0 \<le> e" "e \<le> 1 / 2 ^ 53" unfolding e_def ulp2_eq by simp_all
  have nn: "0 \<le> al" "0 \<le> b" "0 \<le> hi" using al b t by auto
  have n1: "1 / 1024 * 1 \<le> al * hi" by (rule mult_mono) (use al t in simp_all)
  have "1 * 1 \<le> hi * (1 + c)" by (rule mult_mono) (use t c in simp_all)
  then have n2: "1 / 1024 * 1 \<le> b * (hi * (1 + c))" by (intro mult_mono) (use b in simp_all)
  have "fl (al * t) \<le> al * hi * (1 + e)" unfolding e_def
    using nn t n1 by (intro fl_upper mult_left_mono normal_ge) auto
  moreover have "fl (b * w) \<le> b * (hi * (1 + c)) * (1 + e)" unfolding e_def
    using nn w n2 by (intro fl_upper mult_left_mono normal_ge) (auto simp: c_def)
  ultimately have s: "fl (al * t) + fl (b * w) \<le> (al * hi + b * (hi * (1 + c))) * (1 + e)"
    by (simp add: distrib_right)
  have x: "1 / 1024 * 1 \<le> al * hi + b * (hi * (1 + c))" using n1 n2 by linarith
  then have "(al * hi + b * (hi * (1 + c))) * 1 \<le> (al * hi + b * (hi * (1 + c))) * (1 + e)"
    using e by (intro mult_left_mono) auto
  with x have "1 / 1024 * 1 \<le> (al * hi + b * (hi * (1 + c))) * (1 + e)" unfolding mult_1_right by (rule order_trans)
  then have "fl (fl (al * t) + fl (b * w)) \<le> (al * hi + b * (hi * (1 + c))) * (1 + e) * (1 + e)" unfolding e_def
    using s[unfolded e_def] by (intro fl_upper normal_ge) auto
  also have "\<dots> = hi * ((1 + e) * (1 + e) * (al + b * (1 + c)))" by (simp add: algebra_simps)
  also have "\<dots> \<le> hi * (1 + c)"
    using slack_arith[OF e al(1) c(1) nn(2) b(2)] nn by (intro mult_left_mono)
  finally show ?thesis by (simp add: c_def b_def)
qed

lemma ewma_blend_lower:
  fixes lo w t al :: real
  assumes al: "1 / 1024 \<le> al" "al \<le> 1023 / 1024" and t: "lo \<le> t" "1 \<le> lo" and w: "lo * (1 - ewma_slack al) \<le> w"
  shows "lo * (1 - ewma_slack al) \<le> fl (fl (al * t) + fl (fl (1 - al) * w))"
proof -
  define c where "c = ewma_slack al"
  define b where "b = fl (1 - al)"
  define e :: real where "e = ulp2"
  note b = one_minus_alpha[OF al, folded b_def e_def] and c = slack_bounds[OF al, folded c_def e_def]
  have e: "0 \<le> e" "e \<le> 1 / 2 ^ 53" unfolding e_def ulp2_eq by simp_all
  have nn: "0 \<le> al" "0 \<le> b" "0 \<le> lo" using al b t by auto
  have n1: "1 / 1024 * 1 \<le> al * lo" by (rule mult_mono) (use al t in simp_all)
  have "1 * (1 / 2) \<le> lo * (1 - c)" by (rule mult_mono) (use t c in simp_all)
  then have n2: "1 / 1024 * (1 / 2) \<le> b * (lo * (1 - c))" by (intro mult_mono) (use b in simp_all)
  have small: "1 / 2 ^ 20 \<le> x" if "1 / 1024 * (1 / 2) \<le> x" for x :: real using that by simp
  have "al * lo * (1 - e) \<le> fl (al * t)" unfolding e_def
    using nn t n1 by (intro fl_lower mult_left_mono normal_ge) auto
  moreover have "b * (lo * (1 - c)) * (1 - e) \<le> fl (b * w)" unfolding e_def
    using nn w n2 by (intro fl_lower mult_left_mono normal_ge small) (auto simp: c_def)
  ultimately have s: "(al * lo + b * (lo * (1 - c))) * (1 - e) \<le> fl (al * t) + fl (b * w)"
    by (simp add: distrib_right)
  have "1 / 1024 * (1 / 2) \<le> 1 / 1024 * (1 - e)" using e by simp
  also have "\<dots> \<le> (al * lo + b * (lo * (1 - c))) * (1 - e)"
    using n1 n2 e by (intro mult_right_mono) auto
  finally have "(al * lo + b * (lo * (1 - c))) * (1 - e) * (1 - e) \<le> fl (fl (al * t) + fl (b * w))" unfolding e_def
    using s[unfolded e_def] by (intro fl_lower normal_ge small) auto
  moreover have "lo * (1 - c) \<le> lo * ((1 - e) * (1 - e) * (al + b * (1 - c)))"
    using slack_arith_lower[OF e al(1) c(1) b(1)] nn by (intro mult_left_mono)
  moreover have "lo * ((1 - e) * (1 - e) * (al + b * (1 - c))) = (al * lo + b * (lo * (1 - c))) * (1 - e) * (1 - e)"
    by (simp add: algebra_simps)
  ultimately show ?thesis unfolding c_def b_def by linarith
qed

lemma ewma_blend_bounds:
  fixes lo hi w t al :: real
  assumes al: "1 / 1024 \<le> al" "al \<le> 1023 / 1024" and t: "lo \<le> t" "t \<le> hi" "1 \<le> lo"
    and w: "lo * (1 - ewma_slack al) \<le> w" "w \<le> hi * (1 + ewma_slack al)"
  defines "v \<equiv> fl (fl (al * t) + fl (fl (1 - al) * w))"
  shows "lo * (1 - ewma_slack al) \<le> v" "v \<le> hi * (1 + ewma_slack al)"
  unfolding v_def using ewma_blend_lower[OF al t(1,3) w(1)] ewma_blend_upper[OF al t(2) _ w(2)] t by simp_all

lemma ewma_run_bounds:
  assumes al: "1 / 1024 \<le> ew_alpha e" "ew_alpha e \<le> 1023 / 1024" and lo: "1 \<le> lo" and ts: "\<forall>t\<in>set ts. lo \<le> t \<and> t \<le> hi"
    and v: "ew_value e = Some v" "lo * (1 - ewma_slack (ew_alpha e)) \<le> v" "v \<le> hi * (1 + ewma_slack (ew_alpha e))"
  shows "\<exists>v'. ew_value (ewma_run e ts) = Some v' \<and> lo * (1 - ewma_slack (ew_alpha e)) \<le> v'
    \<and> v' \<le> hi * (1 + ewma_slack (ew_alpha e))"
  using assms
proof (induction ts arbitrary: e v)
  case (Cons t ts)
  let ?e = "snd (ewma_update t e)"
  have "ew_alpha ?e = ew_alpha e" by (simp add: ewma_update_def Let_def)
  moreover have "ew_value ?e = Some (fl (fl (ew_alpha e * t) + fl (fl (1 - ew_alpha e) * v)))"
    using Cons.prems(5) by (simp add: ewma_update_def Let_def)
  moreover note ewma_blend_bounds[OF Cons.prems(1,2) _ _ lo Cons.prems(6,7), of t]
  ultimately show ?case using Cons.IH[of ?e] Cons.prems by simp
qed simp

lemma ewma_run_samples: "ew_samples (ewma_run e ts) = ew_samples e + int (length ts)"
  by (induction ts arbitrary: e) (simp_all add: ewma_update_def Let_def)

text \<open>A larger sample never gives a smaller estimate.\<close>

lemma ewma_update_mono:
  assumes "t \<le> t'" and "rel_option (\<le>) (ew_value e) (ew_value e')"
    and "0 \<le> ew_alpha e" "ew_alpha e \<le> 1" "ew_alpha e' = ew_alpha e"
  shows "fst (ewma_update t e) \<le> fst (ewma_update t' e')"
proof -
  have "0 \<le> fl (1 - ew_alpha e)" using assms(4) by simp
  then show ?thesis using assms
    by (cases "ew_value e"; cases "ew_value e'") (auto simp: ewma_update_def Let_def intro!: fl.rnd_blend_mono)
qed

lemma ewma_run_mono:
  "list_all2 (\<le>) ts us \<Longrightarrow> rel_option (\<le>) (ew_value e) (ew_value e') \<Longrightarrow> 0 \<le> ew_alpha e \<Longrightarrow> ew_alpha e \<le> 1 \<Longrightarrow>
   ew_alpha e' = ew_alpha e \<Longrightarrow> rel_option (\<le>) (ew_value (ewma_run e ts)) (ew_value (ewma_run e' us))"
proof (induction ts us arbitrary: e e' rule: list_all2_induct)
  case (Cons t ts u us)
  have "ew_value (snd (ewma_update x e)) = Some (fst (ewma_update x e))"
    "ew_alpha (snd (ewma_update x e)) = ew_alpha e" for x and e
    by (simp_all add: ewma_update_def Let_def)
  then show ?case using Cons.IH ewma_update_mono[OF Cons.hyps(1) Cons.prems] Cons.prems by simp
qed simp

section \<open>The window\<close>

lemma deque_append_last:
  assumes "1 \<le> w" and "xs = drop (length ys - nat w) ys"
  shows "deque_append w xs t = drop (length (ys @ [t]) - nat w) (ys @ [t])"
proof -
  have "length xs = min (length ys) (nat w)" using assms by auto
  then show ?thesis using assms
    by (cases "length ys < nat w") (auto simp: deque_append_def Suc_diff_le)
qed

lemma ma_run_last:
  "1 \<le> ma_window m \<Longrightarrow> ma_samples m = drop (length ys - nat (ma_window m)) ys \<Longrightarrow>
   ma_samples (ma_run m ts) = drop (length (ys @ ts) - nat (ma_window m)) (ys @ ts)"
proof (induction ts arbitrary: m ys)
  case (Cons t ts)
  let ?m = "snd (ma_update t m)"
  have "ma_window ?m = ma_window m" by (simp add: ma_update_def Let_def)
  moreover have "ma_samples ?m = drop (length (ys @ [t]) - nat (ma_window m)) (ys @ [t])"
    using deque_append_last[OF Cons.prems] by (simp add: ma_update_def Let_def)
  ultimately show ?case using Cons.IH[of ?m "ys @ [t]"] Cons.prems(1) by simp
qed simp

section \<open>Properties\<close>

text \<open>C39: The estimate stays within the measurements: with a smoothing factor between 1/1024 and
  1023/1024, after any number of updates with throughputs between \<open>lo\<close> (at least 1 bit per second)
  and \<open>hi\<close>, the estimate lies between them up to a relative slack of four rounding units over the
  factor, however many updates there were: rounding errors do not accumulate.\<close>

theorem ewma_within:
  assumes "ewma_init al None = Inr e" and "1 / 1024 \<le> al" "al \<le> 1023 / 1024"
    and "ts \<noteq> []" and "1 \<le> lo" and "\<forall>t\<in>set ts. lo \<le> t \<and> t \<le> hi"
  shows "\<exists>v. ewma_estimate (ewma_run e ts) = Some v \<and> ew_samples (ewma_run e ts) = int (length ts)
    \<and> lo * (1 - 4 * 2 powi (-53) / al) \<le> v \<and> v \<le> hi * (1 + 4 * 2 powi (-53) / al)"
proof -
  obtain t us where ts: "ts = t # us" using assms(4) by (cases ts) auto
  let ?e = "snd (ewma_update t e)"
  have e: "e = \<lparr>ew_alpha = al, ew_value = None, ew_samples = 0\<rparr>"
    using assms(1-3) by (auto simp: ewma_init_def split: if_splits)
  then have e1: "ew_alpha ?e = al" "ew_value ?e = Some t" "ew_samples ?e = 1" by (simp_all add: ewma_update_def Let_def)
  have s: "0 \<le> ewma_slack al" using assms(2) by (simp add: ewma_slack_def)
  have t: "lo \<le> t" "t \<le> hi" using assms(6) ts by auto
  have "0 \<le> lo * ewma_slack al" "0 \<le> hi * ewma_slack al" using s t assms(5) by auto
  then have "lo * (1 - ewma_slack al) \<le> t" "t \<le> hi * (1 + ewma_slack al)"
    using t by (simp_all add: right_diff_distrib distrib_left)
  with ewma_run_bounds[of ?e lo us hi t] assms e1 ts obtain v where
    "ew_value (ewma_run ?e us) = Some v" "lo * (1 - ewma_slack al) \<le> v" "v \<le> hi * (1 + ewma_slack al)"
    by auto
  then show ?thesis using ewma_run_samples[of ?e us] e1(3) ts
    by (simp add: ewma_estimate_def ewma_slack_def)
qed

lemma ewma_within_witness:
  "\<exists>e v. ewma_init (3 / 10) None = Inr e \<and> ewma_estimate (ewma_run e [1000000, 3000000, 2000000]) = Some v
    \<and> 1000000 * (1 - 4 * 2 powi (-53) / (3 / 10)) \<le> v \<and> v \<le> 3000000 * (1 + 4 * 2 powi (-53) / (3 / 10))"
proof -
  have e: "ewma_init (3 / 10) None = Inr \<lparr>ew_alpha = 3 / 10, ew_value = None, ew_samples = 0\<rparr>"
    by (simp add: ewma_init_def)
  show ?thesis using ewma_within[OF e, of "[1000000, 3000000, 2000000]" 1000000 3000000] e by auto
qed

text \<open>The moving average is the mean of the last \<open>w\<close> samples: after any updates the deque holds
  exactly the last \<open>w\<close> of them in order (all, while there are fewer), the value is their rounded
  sum over their number, and None only before the first update; the constructor raises
  ValueError exactly for windows below 1.\<close>

lemma moving_average_last_window:
  "ma_init w =
     (if 1 \<le> w then Inr \<lparr>ma_window = w, ma_samples = []\<rparr> else Inl ValueError)
   \<and> (let m = ma_run \<lparr>ma_window = max 1 w, ma_samples = []\<rparr> ts; n = length ts - nat (max 1 w)
      in ma_samples m = drop n ts
       \<and> ma_value m = (if ts = [] then None else Some (fl (py_sum (drop n ts) / of_nat (length (drop n ts))))))"
proof -
  let ?m = "ma_run \<lparr>ma_window = max 1 w, ma_samples = []\<rparr> ts"
  have s: "ma_samples ?m = drop (length ts - nat (max 1 w)) ts"
    using ma_run_last[of "\<lparr>ma_window = max 1 w, ma_samples = []\<rparr>" "[]" ts] by simp
  have "drop (length ts - nat (max 1 w)) ts = [] \<longleftrightarrow> ts = []" by (cases ts) auto
  then show ?thesis using s by (auto simp: ma_init_def ma_value_def Let_def)
qed

end
