(* ===== verification/AbrBase.thy ===== *)
theory AbrBase
  imports Config
begin

text \<open>
  \<open>client/abr/base.py\<close>: the state handed to an ABR controller and the helpers of \<open>BaseABR\<close>.  A
  controller class is a record that extends \<open>base_abr\<close>, as the classes extend \<open>BaseABR\<close>.
  Numbers of the client are finite floats, written as reals on the float grid; \<open>extra\<close>, which no
  code reads, is left out of the state.
\<close>

record abr_state =
  buffer_level :: real
  throughput_bps :: real
  st_segment_id :: int
  current_index :: int
  segments_downloaded :: int
  last_download_time :: real

record base_abr =
  ladder :: ladder
  abr_duration :: real

definition bitrate_of :: "int \<Rightarrow> ladder \<Rightarrow> int result" where
  "bitrate_of i l = bind_res (py_nth l i) (\<lambda>p. Inr (snd p))"

text \<open>The quotient of two ints is the correctly rounded exact quotient.\<close>

definition quality_of :: "int \<Rightarrow> ladder \<Rightarrow> real result" where
  "quality_of i l =
     bind_res (bitrate_of (-1) l) (\<lambda>max_br.
     bind_res (bitrate_of i l) (\<lambda>br.
     if max_br = 0 then Inl ZeroDivisionError else Inr (fl (of_int br / of_int max_br))))"

definition n_levels :: "'a base_abr_scheme \<Rightarrow> int" where
  "n_levels a = int (length (ladder a))"

definition bitrate :: "'a base_abr_scheme \<Rightarrow> int \<Rightarrow> int result" where
  "bitrate a i = bitrate_of i (ladder a)"

definition quality :: "'a base_abr_scheme \<Rightarrow> int \<Rightarrow> real result" where
  "quality a i = quality_of i (ladder a)"

definition clamp :: "'a base_abr_scheme \<Rightarrow> int \<Rightarrow> int" where
  "clamp a i = max 0 (min (n_levels a - 1) i)"

text \<open>
  The loop shared by \<open>highest_fitting\<close> and the buffer-based controller: walk up while the test
  holds, remember the last index that passed, stop at the first that fails.
\<close>

fun climb :: "('a \<Rightarrow> bool) \<Rightarrow> int \<Rightarrow> int \<Rightarrow> 'a list \<Rightarrow> int" where
  "climb P i idx [] = idx"
| "climb P i idx (x # xs) = (if P x then climb P (i + 1) i xs else idx)"

definition highest_fitting :: "'a base_abr_scheme \<Rightarrow> real \<Rightarrow> real \<Rightarrow> int" where
  "highest_fitting a throughput safety =
     (let limit = fl (throughput * safety) in climb (\<lambda>(_, br). of_int br \<le> limit) 0 0 (ladder a))"

text \<open>\<open>state.throughput_bps or self.bitrate(0)\<close>, as the float it is used as.\<close>

definition throughput_or_lowest :: "'a base_abr_scheme \<Rightarrow> abr_state \<Rightarrow> real result" where
  "throughput_or_lowest a st =
     (if throughput_bps st = 0 then bind_res (bitrate a 0) (\<lambda>br. Inr (fl (of_int br)))
      else Inr (throughput_bps st))"

section \<open>Climbing\<close>

lemma climb_takeWhile:
  "climb P i idx xs = (if takeWhile P xs = [] then idx else i + int (length (takeWhile P xs)) - 1)"
  by (induction xs arbitrary: i idx) (auto split: if_splits)

lemma climb_start: "climb P 0 0 xs = max 0 (int (length (takeWhile P xs)) - 1)"
  by (cases "takeWhile P xs") (simp_all add: climb_takeWhile)

lemma climb_range: "0 \<le> climb P 0 0 xs" "xs \<noteq> [] \<Longrightarrow> climb P 0 0 xs < int (length xs)"
proof -
  show "xs \<noteq> [] \<Longrightarrow> climb P 0 0 xs < int (length xs)"
    using length_takeWhile_le[of P xs] unfolding climb_start by (cases xs) auto
qed (simp add: climb_start)

lemma climb_mono:
  assumes "\<And>x. x \<in> set xs \<Longrightarrow> P x \<Longrightarrow> Q x"
  shows "climb P 0 0 xs \<le> climb Q 0 0 xs"
proof -
  have "length (takeWhile P xs) \<le> length (takeWhile Q xs)"
    using assms by (induction xs) auto
  then show ?thesis by (simp add: climb_start)
qed

text \<open>Everything up to the result passed the test, unless nothing did, and the next one fails.\<close>

lemma climb_spec:
  assumes "climb P 0 0 xs = k"
  shows "0 < k \<Longrightarrow> j \<le> nat k \<Longrightarrow> P (xs ! j)"
    and "nat k + 1 < length xs \<Longrightarrow> P (hd xs) \<Longrightarrow> \<not> P (xs ! (nat k + 1))"
proof -
  have k: "k = max 0 (int (length (takeWhile P xs)) - 1)" using assms by (simp add: climb_start)
  show "0 < k \<Longrightarrow> j \<le> nat k \<Longrightarrow> P (xs ! j)"
  proof -
    assume "0 < k" "j \<le> nat k"
    then have "j < length (takeWhile P xs)" using k by auto
    then show "P (xs ! j)" by (metis nth_mem set_takeWhileD takeWhile_nth)
  qed
  assume h: "nat k + 1 < length xs" "P (hd xs)"
  then have "takeWhile P xs \<noteq> []" by (cases xs) auto
  then have "nat k + 1 = length (takeWhile P xs)" using k by (cases "takeWhile P xs") auto
  then show "\<not> P (xs ! (nat k + 1))" using h(1) nth_length_takeWhile[of P xs] by simp
qed

text \<open>On an ascending list of thresholds the result is the last one that is reached.\<close>

lemma climb_sorted:
  fixes f :: "'a \<Rightarrow> real"
  assumes "sorted (map f xs)" and "xs \<noteq> []" and "f (hd xs) \<le> b"
  shows "climb (\<lambda>x. f x \<le> b) 0 0 xs = int (length (filter (\<lambda>x. f x \<le> b) xs)) - 1"
proof -
  have "takeWhile (\<lambda>x. f x \<le> b) xs = filter (\<lambda>x. f x \<le> b) xs"
    using assms(1)
  proof (induction xs)
    case (Cons x xs)
    have "\<not> f y \<le> b" if "\<not> f x \<le> b" "y \<in> set xs" for y
    proof -
      have "f x \<le> f y" using Cons.prems that(2) by simp
      then show ?thesis using that(1) by linarith
    qed
    then show ?case using Cons by (auto simp: empty_filter_conv)
  qed simp
  moreover have "takeWhile (\<lambda>x. f x \<le> b) xs \<noteq> []" using assms(2,3) by (cases xs) auto
  ultimately show ?thesis by (simp add: climb_takeWhile)
qed

section \<open>Ladders\<close>

text \<open>A usable ladder: levels with positive, ascending bitrates.\<close>

definition ladder_ok :: "ladder \<Rightarrow> bool" where
  "ladder_ok l \<longleftrightarrow> l \<noteq> [] \<and> sorted (map snd l) \<and> list_all (\<lambda>p. 0 < snd p) l"

lemma ladder_ok_default: "ladder_ok DEFAULT_LADDER"
  by (simp add: ladder_ok_def DEFAULT_LADDER_def)

lemma ladder_last_pos: "ladder_ok l \<Longrightarrow> 0 < snd (last l)"
  using last_in_set[of l] by (auto simp: ladder_ok_def list_all_iff)

lemma bitrate_in_range:
  "0 \<le> i \<Longrightarrow> i < n_levels a \<Longrightarrow> bitrate a i = Inr (snd (ladder a ! nat i))"
  by (simp add: bitrate_def bitrate_of_def n_levels_def py_simps)

lemma throughput_or_lowest_ok:
  assumes "ladder_ok (ladder a)"
  obtains t where "throughput_or_lowest a st = Inr t"
    and "t = (if throughput_bps st = 0 then fl (of_int (snd (hd (ladder a)))) else throughput_bps st)"
  using assms bitrate_in_range[of 0 a]
  by (auto simp: throughput_or_lowest_def ladder_ok_def n_levels_def hd_conv_nth)

lemma quality_in_range:
  assumes "ladder_ok (ladder a)" and "0 \<le> i" "i < n_levels a"
  shows "quality a i = Inr (fl (of_int (snd (ladder a ! nat i)) / of_int (snd (last (ladder a)))))"
proof -
  have "snd (last (ladder a)) \<noteq> 0" using ladder_last_pos[OF assms(1)] by simp
  then show ?thesis using assms
    by (simp add: quality_def quality_of_def bitrate_of_def ladder_ok_def n_levels_def py_nth_last py_nth_in_range)
qed

lemma ladder_mono:
  assumes "ladder_ok l" and "i \<le> j" "j < length l"
  shows "snd (l ! i) \<le> snd (l ! j)"
  using assms sorted_nth_mono[of "map snd l" i j] by (simp add: ladder_ok_def)

lemma n_levels_pos: "ladder_ok (ladder a) \<Longrightarrow> 0 < n_levels a"
  by (simp add: ladder_ok_def n_levels_def)

lemma clamp_range: "0 \<le> clamp a i" "0 < n_levels a \<Longrightarrow> clamp a i < n_levels a"
  by (simp_all add: clamp_def)

lemma clamp_id [simp]: "0 \<le> i \<Longrightarrow> i < n_levels a \<Longrightarrow> clamp a i = i"
  by (simp add: clamp_def)

text \<open>Qualities lie between 0 and 1 and grow with the level; the last one is exactly 1.\<close>

lemma quality_bounds:
  assumes l: "ladder_ok (ladder a)" and i: "0 \<le> i" "i < n_levels a" and q: "quality a i = Inr q"
  shows "0 \<le> q" "q \<le> 1" "i = n_levels a - 1 \<Longrightarrow> q = 1"
proof -
  let ?m = "snd (last (ladder a))" and ?b = "snd (ladder a ! nat i)"
  have m: "0 < ?m" and b: "0 < ?b" "?b \<le> ?m"
    using l i ladder_mono[OF l, of "nat i" "length (ladder a) - 1"]
    by (auto simp: ladder_ok_def list_all_iff n_levels_def last_conv_nth)
  have q: "q = fl (of_int ?b / of_int ?m)" using q quality_in_range[OF l i] by simp
  then show "0 \<le> q" using m b by simp
  have "(of_int ?b :: real) / of_int ?m \<le> 1" using m b by simp
  then show "q \<le> 1" unfolding q by (rule fl_le_1)
  assume "i = n_levels a - 1"
  then have "nat i = length (ladder a) - 1" by (auto simp: n_levels_def)
  then have "?b = ?m" using l by (simp add: ladder_ok_def last_conv_nth)
  then show "q = 1" using m unfolding q by simp
qed

lemma quality_mono:
  assumes l: "ladder_ok (ladder a)" and ij: "0 \<le> i" "i \<le> j" "j < n_levels a"
    and "quality a i = Inr p" "quality a j = Inr q"
  shows "p \<le> q"
proof -
  let ?m = "snd (last (ladder a))"
  have "0 < ?m" using l by (rule ladder_last_pos)
  moreover have "snd (ladder a ! nat i) \<le> snd (ladder a ! nat j)"
    using ij by (intro ladder_mono[OF l]) (auto simp: n_levels_def)
  ultimately show ?thesis using assms quality_in_range[OF l] by (auto intro!: fl_mono divide_right_mono)
qed

end
