(* ===== verification/AbrRate.thy ===== *)
theory AbrRate
  imports AbrBase
begin

text \<open>
  \<open>client/abr/rate_based.py\<close> and \<open>client/abr/buffer_based.py\<close>: the two controllers that climb the
  ladder, one against the measured throughput and one against the buffer level.
\<close>

section \<open>The rate-based controller\<close>

record rate_abr = base_abr +
  safety :: real

definition rate_init :: "ladder \<Rightarrow> real \<Rightarrow> real \<Rightarrow> rate_abr" where
  "rate_init l duration s = \<lparr>ladder = l, abr_duration = duration, safety = s\<rparr>"

definition rate_select :: "rate_abr \<Rightarrow> abr_state \<Rightarrow> int result" where
  "rate_select a st =
     bind_res (throughput_or_lowest a st) (\<lambda>throughput. Inr (highest_fitting a throughput (safety a)))"

section \<open>The buffer-based controller\<close>

record buffer_abr = base_abr +
  reserve :: real
  buffer_cap :: real
  thresholds :: "real list"

text \<open>\<open>reserve + (buffer_cap - reserve) * i / (n - 1)\<close>, rounded at every operation.\<close>

definition threshold :: "real \<Rightarrow> real \<Rightarrow> int \<Rightarrow> int \<Rightarrow> real" where
  "threshold rsv cap n i = fl (rsv + fl (fl (fl (cap - rsv) * of_int i) / of_int (n - 1)))"

definition buffer_init :: "ladder \<Rightarrow> real \<Rightarrow> real \<Rightarrow> real \<Rightarrow> buffer_abr result" where
  "buffer_init l duration rsv cap =
     (let n = int (length l) in
      if cap \<le> rsv then Inl ValueError
      else if n = 1 then Inl ZeroDivisionError
      else Inr \<lparr>ladder = l, abr_duration = duration, reserve = rsv, buffer_cap = cap,
                thresholds = map (threshold rsv cap n) (iota n)\<rparr>)"

definition buffer_select :: "buffer_abr \<Rightarrow> abr_state \<Rightarrow> int" where
  "buffer_select a st =
     (let b = buffer_level st in
      if b \<le> reserve a then 0
      else if b \<ge> buffer_cap a then n_levels a - 1
      else climb (\<lambda>t. t \<le> b) 0 0 (thresholds a))"

section \<open>Rate-based: the largest level that fits\<close>

lemma highest_fitting_range:
  "ladder a \<noteq> [] \<Longrightarrow> 0 \<le> highest_fitting a t s \<and> highest_fitting a t s < n_levels a"
  using climb_range by (auto simp: highest_fitting_def n_levels_def)

lemma highest_fitting_spec:
  assumes l: "ladder_ok (ladder a)" and k: "highest_fitting a t s = k"
  shows "0 < k \<Longrightarrow> of_int (snd (ladder a ! nat k)) \<le> fl (t * s)"
    and "k < i \<Longrightarrow> i < n_levels a \<Longrightarrow> fl (t * s) < of_int (snd (ladder a ! nat i))"
proof -
  let ?P = "\<lambda>p. of_int (snd p) \<le> fl (t * s)"
  have c: "climb ?P 0 0 (ladder a) = k" using k unfolding highest_fitting_def Let_def split_def .
  show "0 < k \<Longrightarrow> of_int (snd (ladder a ! nat k)) \<le> fl (t * s)"
    using climb_spec(1)[OF c] by simp
  assume i: "k < i" "i < n_levels a"
  have k0: "0 \<le> k" using climb_range(1)[of ?P "ladder a"] c by simp
  have len: "nat k + 1 < length (ladder a)" "nat k + 1 \<le> nat i" "nat i < length (ladder a)"
    using i k0 by (auto simp: n_levels_def)
  have up: "snd (ladder a ! 0) \<le> snd (ladder a ! (nat k + 1))" "snd (ladder a ! (nat k + 1)) \<le> snd (ladder a ! nat i)"
    using len by (auto intro!: ladder_mono[OF l])
  have "\<not> ?P (ladder a ! (nat k + 1))"
  proof (cases "?P (hd (ladder a))")
    case True
    then show ?thesis using climb_spec(2)[OF c len(1)] by simp
  next
    case False
    then show ?thesis using up(1) l by (simp add: hd_conv_nth ladder_ok_def)
  qed
  then show "fl (t * s) < of_int (snd (ladder a ! nat i))" using up(2) by simp
qed

lemma highest_fitting_mono:
  assumes "0 \<le> s" and "t \<le> t'"
  shows "highest_fitting a t s \<le> highest_fitting a t' s"
  using assms fl.rnd_mono[of "t * s" "t' * s"] unfolding highest_fitting_def Let_def
  by (intro climb_mono) (auto intro: mult_right_mono order_trans)

section \<open>Buffer-based: thresholds\<close>

definition buffer_ok :: "buffer_abr \<Rightarrow> bool" where
  "buffer_ok a \<longleftrightarrow> buffer_init (ladder a) (abr_duration a) (reserve a) (buffer_cap a) = Inr a"

lemma buffer_init_ok:
  assumes "buffer_init l d r c = Inr a"
  shows "buffer_ok a" "ladder a = l" "reserve a = r" "buffer_cap a = c" "r < c" "length l \<noteq> 1"
    "thresholds a = map (threshold r c (int (length l))) (iota (int (length l)))"
  using assms by (auto simp: buffer_init_def buffer_ok_def Let_def split: if_splits)

lemma buffer_init_total: "r < c \<Longrightarrow> length l \<noteq> 1 \<Longrightarrow> \<exists>a. buffer_init l d r c = Inr a"
  by (simp add: buffer_init_def Let_def)

lemma threshold_mono:
  "r \<le> c \<Longrightarrow> 2 \<le> n \<Longrightarrow> i \<le> j \<Longrightarrow> threshold r c n i \<le> threshold r c n j"
  unfolding threshold_def by (intro fl.rnd_step_mono fl.rnd_diff_nonneg) simp_all

lemma thresholds_sorted:
  assumes "buffer_init l d r c = Inr a"
  shows "sorted (thresholds a)"
proof -
  note f = buffer_init_ok[OF assms]
  show ?thesis unfolding f(7) sorted_map
    using f(5,6) by (auto simp: iota_def sorted_wrt_map intro!: sorted_wrt_mono_rel[OF _ sorted_upt] threshold_mono)
qed

lemma buffer_select_range:
  assumes "buffer_ok a" and "ladder a \<noteq> []"
  shows "0 \<le> buffer_select a st \<and> buffer_select a st < n_levels a"
proof -
  have "thresholds a \<noteq> []" "length (thresholds a) = length (ladder a)"
    using assms buffer_init_ok(7)[of "ladder a" _ _ _ a] by (auto simp: buffer_ok_def iota_def)
  then show ?thesis
    using climb_range[where xs = "thresholds a"] assms(2)
    by (auto simp: buffer_select_def n_levels_def Let_def Suc_le_eq)
qed

lemma buffer_select_mono:
  assumes "buffer_ok a" and "ladder a \<noteq> []" and "buffer_level st \<le> buffer_level st'"
  shows "buffer_select a st \<le> buffer_select a st'"
proof -
  have "climb (\<lambda>t. t \<le> buffer_level st) 0 0 (thresholds a) \<le> climb (\<lambda>t. t \<le> buffer_level st') 0 0 (thresholds a)"
    using assms(3) by (intro climb_mono) simp
  then show ?thesis
    using buffer_select_range[OF assms(1,2), of st] buffer_select_range[OF assms(1,2), of st'] assms(3)
    by (auto simp: buffer_select_def Let_def split: if_splits)
qed

section \<open>The default buffer-based controller\<close>

lemma default_buffer:
  "buffer_init DEFAULT_LADDER 2 6 30 = Inr \<lparr>ladder = DEFAULT_LADDER, abr_duration = 2, reserve = 6,
     buffer_cap = 30, thresholds = [6, 14, 22, 30]\<rparr>"
  by (simp add: buffer_init_def threshold_def Let_def iota_def upt_rec DEFAULT_LADDER_def)

section \<open>Properties\<close>

text \<open>The rate-based controller takes the largest level that fits: with \<open>limit\<close> the estimate (or,
  when it is zero, the lowest bitrate) times the safety factor, its answer is a level of the
  ladder whose bitrate is within the limit unless it is the lowest one, and the bitrate of every
  level above it exceeds the limit.\<close>

lemma rate_select_largest:
  assumes "ladder_ok (ladder a)"
  shows "\<exists>k limit. rate_select a st = Inr k \<and> 0 \<le> k \<and> k < n_levels a
    \<and> limit = fl ((if throughput_bps st = 0 then fl (of_int (snd (hd (ladder a)))) else throughput_bps st) * safety a)
    \<and> (k \<noteq> 0 \<longrightarrow> of_int (snd (ladder a ! nat k)) \<le> limit)
    \<and> (\<forall>i. k < i \<longrightarrow> i < n_levels a \<longrightarrow> limit < of_int (snd (ladder a ! nat i)))"
proof -
  obtain t where t: "throughput_or_lowest a st = Inr t"
    "t = (if throughput_bps st = 0 then fl (of_int (snd (hd (ladder a)))) else throughput_bps st)"
    using throughput_or_lowest_ok[OF assms, of st] by blast
  have "ladder a \<noteq> []" using assms by (simp add: ladder_ok_def)
  note r = highest_fitting_range[OF this, of t "safety a"]
  show ?thesis
    using t r highest_fitting_spec[OF assms refl, of t "safety a"]
    by (intro exI[of _ "highest_fitting a t (safety a)"] exI[of _ "fl (t * safety a)"])
      (simp add: rate_select_def)
qed

lemma rate_select_largest_example:
  "\<exists>k limit. rate_select (rate_init DEFAULT_LADDER 2 (1 / 2)) \<lparr>buffer_level = 0, throughput_bps = 5200000,
        st_segment_id = 1, current_index = 0, segments_downloaded = 0, last_download_time = 0\<rparr> = Inr k
    \<and> limit = (2600000 :: real) \<and> 0 \<le> k \<and> k < 4
    \<and> (\<forall>i. k < i \<longrightarrow> i < 4 \<longrightarrow> limit < of_int (snd (DEFAULT_LADDER ! nat i)))"
  using rate_select_largest[of "rate_init DEFAULT_LADDER 2 (1 / 2)" "\<lparr>buffer_level = 0,
      throughput_bps = 5200000, st_segment_id = 1, current_index = 0, segments_downloaded = 0,
      last_download_time = 0\<rparr>"] ladder_ok_default
  by (simp add: rate_init_def n_levels_def) blast

text \<open>C29: The buffer-based controller never falls with the buffer: for every pair of thresholds the
  constructor accepts and every ladder of at least two levels, a higher buffer level gives the
  same or a higher quality level, the lowest at the reserve and the highest at the cap.\<close>

theorem buffer_monotone:
  assumes "buffer_init l d r c = Inr a" and "l \<noteq> []" and "buffer_level st \<le> buffer_level st'"
  shows "0 \<le> buffer_select a st \<and> buffer_select a st \<le> buffer_select a st' \<and> buffer_select a st' < int (length l)
    \<and> (buffer_level st \<le> r \<longrightarrow> buffer_select a st = 0)
    \<and> (buffer_level st' \<ge> c \<longrightarrow> buffer_select a st' = int (length l) - 1)"
proof -
  note f = buffer_init_ok[OF assms(1)]
  have ne: "ladder a \<noteq> []" using f(2) assms(2) by simp
  show ?thesis
    using buffer_select_range[OF f(1) ne] buffer_select_mono[OF f(1) ne assms(3)] f(2-5)
    by (auto simp: n_levels_def buffer_select_def Let_def)
qed

lemma buffer_monotone_witness:
  "\<exists>a. buffer_init DEFAULT_LADDER 2 6 30 = Inr a
    \<and> buffer_select a \<lparr>buffer_level = 10, throughput_bps = 0, st_segment_id = 1, current_index = 0,
                        segments_downloaded = 0, last_download_time = 0\<rparr>
      \<le> buffer_select a \<lparr>buffer_level = 40, throughput_bps = 0, st_segment_id = 1, current_index = 0,
                        segments_downloaded = 0, last_download_time = 0\<rparr>"
  using buffer_monotone[OF default_buffer, of "\<lparr>buffer_level = 10, throughput_bps = 0, st_segment_id = 1,
      current_index = 0, segments_downloaded = 0, last_download_time = 0\<rparr>" "\<lparr>buffer_level = 40,
      throughput_bps = 0, st_segment_id = 1, current_index = 0, segments_downloaded = 0,
      last_download_time = 0\<rparr>"] default_buffer by auto

text \<open>The default buffer-based controller, exactly: the ladder's four levels change at 14, 22 and
  30 seconds.\<close>

lemma buffer_default_curve:
  assumes "buffer_init DEFAULT_LADDER 2 6 30 = Inr a"
  shows "buffer_select a st =
    (if buffer_level st < 14 then 0 else if buffer_level st < 22 then 1 else if buffer_level st < 30 then 2 else 3)"
  using assms unfolding default_buffer by (auto simp: buffer_select_def n_levels_def Let_def)

lemma buffer_default_curve_witness:
  "\<exists>a. buffer_init DEFAULT_LADDER 2 6 30 = Inr a
    \<and> buffer_select a \<lparr>buffer_level = 20, throughput_bps = 0, st_segment_id = 1, current_index = 0,
                        segments_downloaded = 0, last_download_time = 0\<rparr> = 1"
  using buffer_default_curve[OF default_buffer] default_buffer by auto

end
