(* ===== verification/AbrBola.thy ===== *)
theory AbrBola
  imports AbrBase
begin

text \<open>
  \<open>client/abr/bola.py\<close>: every level has a score, its scaled utility less the buffer level; the
  controller takes the lowest level whose score is not negative, between two saturation regions.
\<close>

record bola_abr = base_abr +
  b_low :: real
  b_high :: real
  bola_gamma :: real
  bola_V :: real
  utilities :: "real list"

text \<open>The utility of one level; the division raises if the scale \<open>V\<close> has underflowed to 0.\<close>

definition utility :: "base_abr \<Rightarrow> real \<Rightarrow> real \<Rightarrow> real \<Rightarrow> int \<Rightarrow> real result" where
  "utility a lo v min_q i =
     bind_res (quality a i) (\<lambda>q.
       if v = 0 then Inl ZeroDivisionError else Inr (fl (fl (q - min_q) + fl (lo / v))))"

definition bola_init :: "ladder \<Rightarrow> real \<Rightarrow> real \<Rightarrow> real \<Rightarrow> real \<Rightarrow> bola_abr result" where
  "bola_init l duration lo hi gam =
     (let a = \<lparr>ladder = l, abr_duration = duration\<rparr> in
      if hi \<le> lo then Inl ValueError
      else bind_res (quality a (n_levels a - 1)) (\<lambda>max_q.
           let v = (if max_q > 0 then fl (fl (hi - lo) / max_q) else 1) in
           bind_res (quality a 0) (\<lambda>min_q.
           bind_res (seq_res (map (utility a lo v min_q) (iota (n_levels a)))) (\<lambda>us.
           Inr \<lparr>ladder = l, abr_duration = duration, b_low = lo, b_high = hi, bola_gamma = gam,
                bola_V = v, utilities = us\<rparr>))))"

definition score :: "bola_abr \<Rightarrow> int \<Rightarrow> real \<Rightarrow> real result" where
  "score a i b = bind_res (py_nth (utilities a) i) (\<lambda>u. Inr (fl (fl (bola_V a * u) - b)))"

text \<open>The loop over the levels, with the level chosen when it ends without a break.\<close>

fun bola_scan :: "bola_abr \<Rightarrow> real \<Rightarrow> int \<Rightarrow> int list \<Rightarrow> int result" where
  "bola_scan a b chosen [] = Inr chosen"
| "bola_scan a b chosen (i # is) =
     bind_res (score a i b) (\<lambda>s. if s \<ge> 0 then Inr i else bola_scan a b chosen is)"

definition bola_select :: "bola_abr \<Rightarrow> abr_state \<Rightarrow> int result" where
  "bola_select a st =
     (let b = buffer_level st in
      if b \<le> b_low a then Inr 0
      else if b \<ge> b_high a then Inr (n_levels a - 1)
      else bind_res (bola_scan a b (n_levels a - 1) (iota (n_levels a))) (\<lambda>i. Inr (clamp a i)))"

section \<open>The scan\<close>

definition bola_ok :: "bola_abr \<Rightarrow> bool" where
  "bola_ok a \<longleftrightarrow> length (utilities a) = length (ladder a) \<and> ladder a \<noteq> [] \<and> b_low a < b_high a"

text \<open>The level covers the buffer: its score is not negative.\<close>

definition covers :: "bola_abr \<Rightarrow> real \<Rightarrow> int \<Rightarrow> bool" where
  "covers a b i \<longleftrightarrow> 0 \<le> fl (fl (bola_V a * utilities a ! nat i) - b)"

lemma score_in_range:
  "bola_ok a \<Longrightarrow> 0 \<le> i \<Longrightarrow> i < n_levels a \<Longrightarrow>
   score a i b = Inr (fl (fl (bola_V a * utilities a ! nat i) - b))"
  by (simp add: score_def bola_ok_def n_levels_def py_nth_in_range)

text \<open>The lowest covering level of an interval of levels, or the default.\<close>

fun first_of :: "(int \<Rightarrow> bool) \<Rightarrow> int \<Rightarrow> int list \<Rightarrow> int" where
  "first_of P d [] = d"
| "first_of P d (i # is) = (if P i then i else first_of P d is)"

lemma bola_scan_first:
  "bola_ok a \<Longrightarrow> \<forall>i\<in>set is. 0 \<le> i \<and> i < n_levels a \<Longrightarrow>
   bola_scan a b d is = Inr (first_of (covers a b) d is)"
  by (induction "is") (auto simp: score_in_range covers_def)

lemma first_of_in: "first_of P d is \<in> insert d (set is)"
  by (induction "is") auto

lemma first_of_holds: "first_of P d is = d \<or> P (first_of P d is)"
  by (induction "is") auto

lemma first_of_before:
  "sorted is \<Longrightarrow> j \<in> set is \<Longrightarrow> j < first_of P d is \<Longrightarrow> \<not> P j"
  by (induction "is") (auto split: if_splits)

lemma first_of_mono:
  assumes "\<And>i. i \<in> set is \<Longrightarrow> Q i \<Longrightarrow> P i" and "sorted is" and "\<forall>i\<in>set is. i \<le> d"
  shows "first_of P d is \<le> first_of Q d is"
  using assms
proof (induction "is")
  case (Cons i "is")
  have "i \<le> first_of Q d is" using first_of_in[of Q d "is"] Cons.prems by auto
  then show ?case using Cons by auto
qed simp

lemma sorted_iota: "sorted (iota n)"
  by (simp add: iota_def sorted_map)

lemma bola_select_eq:
  assumes "bola_ok a"
  shows "bola_select a st = Inr
     (if buffer_level st \<le> b_low a then 0
      else if buffer_level st \<ge> b_high a then n_levels a - 1
      else first_of (covers a (buffer_level st)) (n_levels a - 1) (iota (n_levels a)))"
proof -
  have "0 < n_levels a" using assms by (simp add: bola_ok_def n_levels_def)
  then have "clamp a (first_of P (n_levels a - 1) (iota (n_levels a))) = first_of P (n_levels a - 1) (iota (n_levels a))" for P
    using first_of_in[of P "n_levels a - 1" "iota (n_levels a)"] by auto
  then show ?thesis using bola_scan_first[OF assms, of "iota (n_levels a)"]
    by (simp add: bola_select_def Let_def)
qed

lemma bola_select_range:
  assumes "bola_ok a"
  shows "\<exists>i. bola_select a st = Inr i \<and> 0 \<le> i \<and> i < n_levels a"
proof -
  have "0 < n_levels a" using assms by (simp add: bola_ok_def n_levels_def)
  then show ?thesis
    using bola_select_eq[OF assms, of st]
      first_of_in[of "covers a (buffer_level st)" "n_levels a - 1" "iota (n_levels a)"] by auto
qed

lemma covers_antimono: "b \<le> b' \<Longrightarrow> covers a b' i \<Longrightarrow> covers a b i"
  using fl.rnd_mono[of "fl (bola_V a * utilities a ! nat i) - b'" "fl (bola_V a * utilities a ! nat i) - b"]
  by (simp add: covers_def)

lemma bola_select_mono:
  assumes a: "bola_ok a" and b: "buffer_level st \<le> buffer_level st'"
    and r: "bola_select a st = Inr i" "bola_select a st' = Inr j"
  shows "i \<le> j"
proof -
  let ?f = "\<lambda>b. first_of (covers a b) (n_levels a - 1) (iota (n_levels a))"
  have "?f (buffer_level st) \<le> ?f (buffer_level st')"
    using covers_antimono[OF b] by (intro first_of_mono sorted_iota) auto
  moreover have "0 \<le> ?f b" "?f b \<le> n_levels a - 1" for b
    using a first_of_in[of "covers a b" "n_levels a - 1" "iota (n_levels a)"]
    by (auto simp: bola_ok_def n_levels_def)
  ultimately show ?thesis using r a b by (auto simp: bola_select_eq bola_ok_def n_levels_def split: if_splits)
qed

section \<open>The constructor\<close>

lemma seq_res_Inr_length: "seq_res rs = Inr xs \<Longrightarrow> length xs = length rs"
  by (induction rs arbitrary: xs) (auto simp: py_simps)

lemma bola_init_ok:
  assumes "bola_init l d lo hi g = Inr a"
  shows "bola_ok a \<and> ladder a = l \<and> b_low a = lo \<and> b_high a = hi"
  using assms seq_res_Inr_length
  by (cases l) (auto simp: bola_init_def bola_ok_def quality_def quality_of_def bitrate_of_def Let_def
      py_simps n_levels_def split: if_splits dest!: seq_res_Inr_length)

text \<open>On a usable ladder the constructor fails only for a pair of levels in the wrong order.\<close>

lemma bola_init_total:
  assumes l: "ladder_ok l" and f: "is_float lo" "is_float hi" "lo < hi"
  shows "\<exists>a. bola_init l d lo hi g = Inr a"
proof -
  let ?a = "\<lparr>ladder = l, abr_duration = d\<rparr>"
  have n: "0 < n_levels ?a" using l by (intro n_levels_pos) simp
  obtain mx mn where q: "quality ?a (n_levels ?a - 1) = Inr mx" "quality ?a 0 = Inr mn"
    using quality_in_range[of ?a] l n by simp
  have mx: "mx = 1" using quality_bounds(3)[of ?a "n_levels ?a - 1" mx] l n q(1) by simp
  define v where "v = fl (fl (hi - lo) / mx)"
  have v: "v \<noteq> 0" using fl_diff_pos[OF f(2,1,3)] by (simp add: v_def mx)
  have "\<exists>us. seq_res (map (utility ?a lo v mn) is) = Inr us" if "set is \<subseteq> {0..<n_levels ?a}" for "is"
    using that
  proof (induction "is")
    case (Cons i "is")
    then obtain qi where "quality ?a i = Inr qi" using quality_in_range[of ?a i] l by auto
    then show ?case using Cons v by (auto simp: utility_def)
  qed simp
  then obtain us where "seq_res (map (utility ?a lo v mn) (iota (n_levels ?a))) = Inr us" by force
  then show ?thesis using q f(3) by (simp add: bola_init_def Let_def mx v_def)
qed

text \<open>The default controller; its constructor's floating-point operations, evaluated one by one.\<close>

lemma default_bola_floats:
    "fl (1 / 5) = 3602879701896397 / 18014398509481984"
    "fl (3602879701896397 / 18014398509481984 - 3602879701896397 / 36028797018963968) = 3602879701896397 / 36028797018963968"
    "fl (1 / 2 - 3602879701896397 / 36028797018963968) = 3602879701896397 / 9007199254740992"
    "fl (1 - 3602879701896397 / 36028797018963968) = 8106479329266893 / 9007199254740992"
    "fl (3602879701896397 / 36028797018963968 + 3602879701896397 / 18014398509481984) = 1351079888211149 / 4503599627370496"
    "fl (3602879701896397 / 9007199254740992 + 3602879701896397 / 18014398509481984) = 1351079888211149 / 2251799813685248"
    "fl (8106479329266893 / 9007199254740992 + 3602879701896397 / 18014398509481984) = 2476979795053773 / 2251799813685248"
    "fl (1 / 2) = 1 / 2" "fl (6 / 30) = 3602879701896397 / 18014398509481984" "fl (3602879701896397 / 18014398509481984) = 3602879701896397 / 18014398509481984"
  by code_simp+

lemma default_bola:
  "bola_init DEFAULT_LADDER 2 6 36 1 = Inr \<lparr>ladder = DEFAULT_LADDER, abr_duration = 2,
     b_low = 6, b_high = 36, bola_gamma = 1, bola_V = 30,
     utilities = [3602879701896397 / 18014398509481984, 1351079888211149 / 4503599627370496,
                  1351079888211149 / 2251799813685248, 2476979795053773 / 2251799813685248]\<rparr>"
proof -
  let ?a = "\<lparr>ladder = DEFAULT_LADDER, abr_duration = 2\<rparr>"
  have q: "quality ?a 0 = Inr (3602879701896397 / 36028797018963968)"
    "quality ?a 1 = Inr (3602879701896397 / 18014398509481984)" "quality ?a 2 = Inr (1 / 2)"
    "quality ?a 3 = Inr 1"
    by (simp_all add: quality_def quality_of_def bitrate_of_def py_nth_def DEFAULT_LADDER_def fl_tenth default_bola_floats)
  have i: "n_levels ?a = 4" "iota 4 = [0, 1, 2, 3]" by (simp_all add: n_levels_def iota_def upt_rec)
  have u: "utility ?a 6 30 (3602879701896397 / 36028797018963968) 0 = Inr (3602879701896397 / 18014398509481984)"
    "utility ?a 6 30 (3602879701896397 / 36028797018963968) 1 = Inr (1351079888211149 / 4503599627370496)"
    "utility ?a 6 30 (3602879701896397 / 36028797018963968) 2 = Inr (1351079888211149 / 2251799813685248)"
    "utility ?a 6 30 (3602879701896397 / 36028797018963968) 3 = Inr (2476979795053773 / 2251799813685248)"
    by (simp_all only: utility_def q bind_res.simps default_bola_floats diff_self fl_0 add_0
        zero_neq_numeral[symmetric] if_False)
  have v: "(if (0::real) < 1 then fl (fl (36 - 6) / 1) else 1) = 30" "(36 \<le> (6::real)) = False" "(4::int) - 1 = 3" by simp_all
  show ?thesis
    by (simp only: bola_init_def i q u v Let_def bind_res.simps list.map seq_res.simps if_False)
qed

section \<open>Properties\<close>

text \<open>C28: BOLA's curve never falls: whatever the parameters, a controller that the constructor made
  answers a higher buffer level with the same or a higher quality level, and always with a level
  of the ladder.\<close>

theorem bola_monotone:
  assumes "bola_init l d lo hi g = Inr a" and "buffer_level st \<le> buffer_level st'"
  shows "\<exists>i j. bola_select a st = Inr i \<and> bola_select a st' = Inr j \<and> 0 \<le> i \<and> i \<le> j \<and> j < int (length l)"
proof -
  have a: "bola_ok a" "ladder a = l" using bola_init_ok[OF assms(1)] by simp_all
  obtain i j where ij: "bola_select a st = Inr i" "0 \<le> i" "bola_select a st' = Inr j" "j < n_levels a"
    using bola_select_range[OF a(1)] by blast
  then show ?thesis using bola_select_mono[OF a(1) assms(2) ij(1,3)] a(2) by (simp add: n_levels_def)
qed

definition sample_state :: "real \<Rightarrow> real \<Rightarrow> int \<Rightarrow> abr_state" where
  "sample_state b tp cur = \<lparr>buffer_level = b, throughput_bps = tp, st_segment_id = 1, current_index = cur,
                           segments_downloaded = 0, last_download_time = 0\<rparr>"

lemma bola_monotone_witness:
  "\<exists>a i j. bola_init DEFAULT_LADDER 2 6 36 1 = Inr a \<and> bola_select a (sample_state 8 0 0) = Inr i
    \<and> bola_select a (sample_state 20 0 0) = Inr j \<and> 0 \<le> i \<and> i \<le> j \<and> j < 4"
  using bola_monotone[OF default_bola, of "sample_state 8 0 0" "sample_state 20 0 0"]
  by (simp add: default_bola sample_state_def)

text \<open>The default BOLA controller, exactly: level 0 up to 6 seconds, level 1 up to about 9, level 2
  up to about 18, and the top level above; rounding puts the two inner break points one and two
  units in the last place above 9 and 18.\<close>

lemma bola_default_curve:
  assumes "bola_init DEFAULT_LADDER 2 6 36 1 = Inr a" and "is_float (buffer_level st)"
  shows "bola_select a st = Inr
     (if buffer_level st \<le> 6 then 0
      else if buffer_level st \<le> 5066549580791809 / 562949953421312 then 1
      else if buffer_level st \<le> 5066549580791809 / 281474976710656 then 2
      else 3)"
proof -
  let ?b = "buffer_level st"
  have a: "bola_ok a" using bola_init_ok[OF assms(1)] by simp
  have f: "ladder a = DEFAULT_LADDER" "b_low a = 6" "b_high a = 36" "bola_V a = 30"
    "utilities a = [3602879701896397 / 18014398509481984, 1351079888211149 / 4503599627370496,
                    1351079888211149 / 2251799813685248, 2476979795053773 / 2251799813685248]"
    using assms(1) unfolding default_bola by (simp_all add: eq_commute[of _ a])
  have v: "fl (bola_V a * utilities a ! nat 0) = 6"
    "fl (bola_V a * utilities a ! nat 1) = 5066549580791809 / 562949953421312"
    "fl (bola_V a * utilities a ! nat 2) = 5066549580791809 / 281474976710656"
    "fl (bola_V a * utilities a ! nat 3) = 33"
    unfolding f by code_simp+
  have c: "covers a ?b i \<longleftrightarrow> ?b \<le> t" if "fl (bola_V a * utilities a ! nat i) = t" for i t
    using fl_diff_nonneg_iff[OF is_float_fl assms(2), of "bola_V a * utilities a ! nat i"] that
    by (simp only: covers_def)
  note c = c[OF v(1)] c[OF v(2)] c[OF v(3)] c[OF v(4)]
  have "iota (n_levels a) = [0, 1, 2, 3]" by (simp add: n_levels_def f iota_def upt_rec)
  then show ?thesis using c by (simp add: bola_select_eq[OF a] f n_levels_def)
qed

end
