(* ===== verification/AbrHysteresis.thy ===== *)
theory AbrHysteresis
  imports AbrBase
begin

text \<open>
  \<open>client/abr/hysteresis.py\<close>: the stabilizer around another controller.  Its own state is the
  candidate of the last decision and how often it has been seen in a row; \<open>hyst_step\<close> is the body
  of \<open>select\<close> after the call of the wrapped controller, whose answer it gets.
\<close>

record hysteresis = base_abr +
  up_ratio :: real
  stable :: int
  min_buffer_for_up :: real
  deep_buffer :: real
  candidate :: "int option"
  hold_count :: int

definition hysteresis_init :: "ladder \<Rightarrow> real \<Rightarrow> real \<Rightarrow> int \<Rightarrow> real \<Rightarrow> real \<Rightarrow> hysteresis" where
  "hysteresis_init l duration ratio st min_buf deep =
     \<lparr>ladder = l, abr_duration = duration, up_ratio = ratio, stable = max 1 st,
      min_buffer_for_up = min_buf, deep_buffer = deep, candidate = None, hold_count = 0\<rparr>"

definition reset_hold :: "hysteresis \<Rightarrow> hysteresis" where
  "reset_hold h = h\<lparr>candidate := None, hold_count := 0\<rparr>"

text \<open>Whether an up-switch from \<open>cur\<close> to \<open>cand\<close> may be considered; the bitrates are only looked at
  when the buffer alone does not decide.\<close>

definition up_allowed :: "hysteresis \<Rightarrow> real \<Rightarrow> int \<Rightarrow> int \<Rightarrow> bool result" where
  "up_allowed h b cand cur =
     (if b \<ge> deep_buffer h then Inr True
      else if b \<ge> min_buffer_for_up h then
        bind_res (bitrate h cand) (\<lambda>bc.
        bind_res (bitrate h cur) (\<lambda>br. Inr (of_int bc \<ge> fl (fl (of_int br) * up_ratio h))))
      else Inr False)"

text \<open>One more sighting of the candidate, and the switch when it has been seen often enough.\<close>

definition observe :: "hysteresis \<Rightarrow> int \<Rightarrow> int \<Rightarrow> int \<times> hysteresis" where
  "observe h cand cur =
     (let h1 = (if candidate h = Some cand then h\<lparr>hold_count := hold_count h + 1\<rparr>
                else h\<lparr>candidate := Some cand, hold_count := 1\<rparr>)
      in if hold_count h1 \<ge> stable h1 then (cand, reset_hold h1) else (cur, h1))"

definition hyst_step :: "hysteresis \<Rightarrow> int \<Rightarrow> abr_state \<Rightarrow> (int \<times> hysteresis) result" where
  "hyst_step h inner_choice st =
     (let cand = clamp h inner_choice; cur = clamp h (current_index st) in
      if cand \<le> cur then Inr (cand, reset_hold h)
      else bind_res (up_allowed h (buffer_level st) cand cur) (\<lambda>ok.
           if \<not> ok then Inr (cur, reset_hold h) else Inr (observe h cand cur)))"

section \<open>The state\<close>

text \<open>Either nothing is being watched, or a candidate has been seen between 1 and \<open>stable - 1\<close> times.\<close>

definition hyst_ok :: "hysteresis \<Rightarrow> bool" where
  "hyst_ok h \<longleftrightarrow> ladder_ok (ladder h) \<and> 1 \<le> stable h
   \<and> (case candidate h of None \<Rightarrow> hold_count h = 0 | Some c \<Rightarrow> 1 \<le> hold_count h \<and> hold_count h < stable h)"

definition same_config :: "hysteresis \<Rightarrow> hysteresis \<Rightarrow> bool" where
  "same_config h h' \<longleftrightarrow> ladder h' = ladder h \<and> stable h' = stable h \<and> up_ratio h' = up_ratio h
   \<and> min_buffer_for_up h' = min_buffer_for_up h \<and> deep_buffer h' = deep_buffer h"

lemma hysteresis_init_ok: "ladder_ok l \<Longrightarrow> hyst_ok (hysteresis_init l d r s m p)"
  by (simp add: hysteresis_init_def hyst_ok_def)

lemma reset_hold_ok: "hyst_ok h \<Longrightarrow> hyst_ok (reset_hold h) \<and> same_config h (reset_hold h)"
  by (simp add: hyst_ok_def reset_hold_def same_config_def)

lemma observe_ok:
  "hyst_ok h \<Longrightarrow> observe h cand cur = (i, h') \<Longrightarrow> hyst_ok h' \<and> same_config h h'"
  by (auto simp: hyst_ok_def observe_def reset_hold_def same_config_def Let_def split: if_splits option.splits)

lemma up_allowed_total:
  assumes "hyst_ok h" and "0 \<le> cand" "cand < n_levels h" "0 \<le> cur" "cur < n_levels h"
  shows "\<exists>ok. up_allowed h b cand cur = Inr ok"
  using assms by (auto simp: up_allowed_def bitrate_in_range)

lemma clamp_in_range: "hyst_ok h \<Longrightarrow> 0 \<le> clamp h i \<and> clamp h i < n_levels h"
  using clamp_range[of h i] n_levels_pos[of h] by (auto simp: hyst_ok_def)

lemma hyst_step_ok:
  assumes "hyst_ok h"
  shows "\<exists>i h'. hyst_step h c st = Inr (i, h') \<and> hyst_ok h' \<and> same_config h h'
    \<and> 0 \<le> i \<and> i < n_levels h \<and> (i = clamp h c \<or> i = clamp h (current_index st)) \<and> i \<le> max (clamp h c) (clamp h (current_index st))"
proof -
  let ?cand = "clamp h c" and ?cur = "clamp h (current_index st)"
  note rng = clamp_in_range[OF assms]
  obtain ok where ok: "up_allowed h (buffer_level st) ?cand ?cur = Inr ok"
    using up_allowed_total[OF assms] rng by blast
  obtain i h1 where o: "observe h ?cand ?cur = (i, h1)" by force
  then have "i = ?cand \<or> i = ?cur" by (auto simp: observe_def Let_def split: if_splits)
  then show ?thesis
    using ok o observe_ok[OF assms o] reset_hold_ok[OF assms] rng[of c] rng[of "current_index st"]
    by (cases "?cand \<le> ?cur"; cases ok) (auto simp: hyst_step_def Let_def)
qed

section \<open>Runs\<close>

text \<open>A run of the controller over the answers of the wrapped one and the states of the client.\<close>

fun hyst_run :: "hysteresis \<Rightarrow> (int \<times> abr_state) list \<Rightarrow> (int list \<times> hysteresis) result" where
  "hyst_run h [] = Inr ([], h)"
| "hyst_run h ((c, st) # xs) =
     bind_res (hyst_step h c st) (\<lambda>(i, h1).
     bind_res (hyst_run h1 xs) (\<lambda>(is, h2). Inr (i # is, h2)))"

text \<open>A decision asks for an up-switch to \<open>k\<close>, and the guard lets it.\<close>

definition asks_up :: "hysteresis \<Rightarrow> int \<Rightarrow> int \<times> abr_state \<Rightarrow> bool" where
  "asks_up h k x \<longleftrightarrow>
     (case x of (c, st) \<Rightarrow> clamp h c = k \<and> clamp h (current_index st) < k
        \<and> up_allowed h (buffer_level st) k (clamp h (current_index st)) = Inr True)"

text \<open>What the hold counter says of the decisions so far.\<close>

definition hold_explained :: "hysteresis \<Rightarrow> (int \<times> abr_state) list \<Rightarrow> bool" where
  "hold_explained h hist \<longleftrightarrow>
     (\<forall>k. candidate h = Some k \<longrightarrow>
        (\<exists>pre post. hist = pre @ post \<and> int (length post) = hold_count h \<and> list_all (asks_up h k) post))"

lemma asks_up_config: "same_config h h' \<Longrightarrow> asks_up h' k x \<longleftrightarrow> asks_up h k x"
  by (cases x) (simp add: asks_up_def same_config_def clamp_def n_levels_def up_allowed_def bitrate_def)

lemma hold_explained_reset: "hold_explained (reset_hold h) hist"
  by (simp add: hold_explained_def reset_hold_def)

lemma observe_explained:
  assumes h: "hyst_ok h" "hold_explained h hist" and x: "asks_up h k x"
    and o: "observe h k cur = (i, h')" and cur: "cur < k"
  shows "hold_explained h' (hist @ [x])"
    and "i = k \<Longrightarrow> \<exists>pre post. hist @ [x] = pre @ post \<and> int (length post) = stable h \<and> list_all (asks_up h k) post"
proof -
  have config: "same_config h h'" using observe_ok[OF h(1) o] by simp
  obtain n post pre where n: "n = (if candidate h = Some k then hold_count h + 1 else 1)"
    and p: "hist @ [x] = pre @ post" "int (length post) = n" "list_all (asks_up h k) post"
  proof (cases "candidate h = Some k")
    case True
    then obtain pre post where "hist = pre @ post" "int (length post) = hold_count h" "list_all (asks_up h k) post"
      using h(2) by (auto simp: hold_explained_def)
    then show ?thesis using that[of "hold_count h + 1" pre "post @ [x]"] True x by simp
  next
    case False
    then show ?thesis using that[of 1 hist "[x]"] x by simp
  qed
  have le: "n \<le> stable h" using h(1) n by (auto simp: hyst_ok_def split: option.splits if_splits)
  have out: "(i = k \<and> candidate h' = None \<and> stable h \<le> n) \<or> (i = cur \<and> candidate h' = Some k \<and> hold_count h' = n)"
    using o n by (auto simp: observe_def reset_hold_def Let_def split: if_splits)
  then show "hold_explained h' (hist @ [x])"
  proof
    assume "i = k \<and> candidate h' = None \<and> stable h \<le> n"
    then show ?thesis by (simp add: hold_explained_def)
  next
    assume "i = cur \<and> candidate h' = Some k \<and> hold_count h' = n"
    moreover have "asks_up h' k = asks_up h k" using asks_up_config[OF config] by (intro ext) simp
    ultimately show ?thesis using p unfolding hold_explained_def by auto
  qed
  assume "i = k"
  then have "n = stable h" using out cur le by auto
  then show "\<exists>pre post. hist @ [x] = pre @ post \<and> int (length post) = stable h \<and> list_all (asks_up h k) post"
    using p by blast
qed

lemma hyst_step_explained:
  assumes h: "hyst_ok h" "hold_explained h hist" and s: "hyst_step h c st = Inr (i, h')"
  shows "hold_explained h' (hist @ [(c, st)])"
    and "clamp h (current_index st) < i \<Longrightarrow>
      \<exists>pre post. hist @ [(c, st)] = pre @ post \<and> int (length post) = stable h \<and> list_all (asks_up h i) post"
proof -
  let ?cand = "clamp h c" and ?cur = "clamp h (current_index st)"
  note rng = clamp_in_range[OF h(1)]
  obtain ok where ok: "up_allowed h (buffer_level st) ?cand ?cur = Inr ok"
    using up_allowed_total[OF h(1)] rng by blast
  have "hold_explained h' (hist @ [(c, st)]) \<and> (?cur < i \<longrightarrow>
      (\<exists>pre post. hist @ [(c, st)] = pre @ post \<and> int (length post) = stable h \<and> list_all (asks_up h i) post))"
  proof (cases "?cand \<le> ?cur \<or> \<not> ok")
    case True
    then have "h' = reset_hold h" "i \<le> ?cur" using s ok by (auto simp: hyst_step_def Let_def split: if_splits)
    then show ?thesis using hold_explained_reset by auto
  next
    case False
    then have o: "observe h ?cand ?cur = (i, h')" using s ok by (simp add: hyst_step_def Let_def)
    have x: "asks_up h ?cand (c, st)" using False ok by (simp add: asks_up_def)
    have "i = ?cand \<or> i = ?cur" using o by (auto simp: observe_def Let_def split: if_splits)
    then show ?thesis using observe_explained[OF h x o] False by auto
  qed
  then show "hold_explained h' (hist @ [(c, st)])" "?cur < i \<Longrightarrow>
      \<exists>pre post. hist @ [(c, st)] = pre @ post \<and> int (length post) = stable h \<and> list_all (asks_up h i) post"
    by simp_all
qed

lemma hyst_run_explained:
  assumes "hyst_ok h" and "hold_explained h hist" and "hyst_run h xs = Inr (is, h')"
  shows "hyst_ok h' \<and> same_config h h' \<and> length is = length xs
    \<and> (\<forall>j<length xs. clamp h (current_index (snd (xs ! j))) < is ! j \<longrightarrow>
         (\<exists>pre post. hist @ take (Suc j) xs = pre @ post \<and> int (length post) = stable h
            \<and> list_all (asks_up h (is ! j)) post))"
  using assms
proof (induction xs arbitrary: h hist "is")
  case (Cons x xs)
  obtain c st where x: "x = (c, st)" by force
  obtain i h1 is1 where s: "hyst_step h c st = Inr (i, h1)" and r: "hyst_run h1 xs = Inr (is1, h')"
    and "is": "is = i # is1" using Cons.prems(3) x by (auto simp: py_simps)
  have h1: "hyst_ok h1" "same_config h h1" using hyst_step_ok[OF Cons.prems(1), of c st] s by auto
  note e = hyst_step_explained[OF Cons.prems(1,2) s]
  note ih = Cons.IH[OF h1(1) e(1) r]
  have cl: "clamp h1 k = clamp h k" for k using h1(2) by (simp add: same_config_def clamp_def n_levels_def)
  have au: "asks_up h1 = asks_up h" using asks_up_config[OF h1(2)] by (intro ext) simp
  have st: "stable h1 = stable h" using h1(2) by (simp add: same_config_def)
  have later: "clamp h (current_index (snd (xs ! j))) < is1 ! j \<Longrightarrow>
      \<exists>pre post. hist @ take (Suc (Suc j)) (x # xs) = pre @ post \<and> int (length post) = stable h
        \<and> list_all (asks_up h (is1 ! j)) post" if "j < length xs" for j
    using ih that unfolding cl au st by (simp add: x)
  have "same_config h h'" using ih h1(2) by (simp add: same_config_def)
  moreover have "\<forall>j<length (x # xs). clamp h (current_index (snd ((x # xs) ! j))) < is ! j \<longrightarrow>
         (\<exists>pre post. hist @ take (Suc j) (x # xs) = pre @ post \<and> int (length post) = stable h
            \<and> list_all (asks_up h (is ! j)) post)"
    using later e(2) by (simp add: "is" x All_less_Suc2)
  ultimately show ?case using ih by (simp add: "is")
qed (simp add: same_config_def)

section \<open>Properties\<close>

text \<open>C26: Up-switches are stable.  In any run of the stabilizer from its constructor, over whatever
  the wrapped controller answers and the client reports, a decision is above the current level
  only if it is the level that each of the last \<open>stable\<close> decisions in a row, this one included,
  asked for from below with its guard satisfied (deep buffer, or healthy buffer and a large
  enough step in bitrate).\<close>

theorem hysteresis_stable_up:
  assumes "ladder_ok l" and "hyst_run (hysteresis_init l d r s m p) xs = Inr (is, h')"
    and "j < length xs"
    and "clamp (hysteresis_init l d r s m p) (current_index (snd (xs ! j))) < is ! j"
  shows "\<exists>pre post. take (Suc j) xs = pre @ post \<and> int (length post) = max 1 s
    \<and> list_all (asks_up (hysteresis_init l d r s m p) (is ! j)) post"
proof -
  let ?h = "hysteresis_init l d r s m p"
  have "hold_explained ?h []" by (simp add: hold_explained_def hysteresis_init_def)
  from hyst_run_explained[OF hysteresis_init_ok[OF assms(1)] this assms(2)] assms(3,4)
  have "\<exists>pre post. take (Suc j) xs = pre @ post \<and> int (length post) = stable ?h
    \<and> list_all (asks_up ?h (is ! j)) post" by simp
  then show ?thesis by (simp add: hysteresis_init_def)
qed

lemma hysteresis_stable_up_witness:
  fixes st defines "st \<equiv> \<lparr>buffer_level = 40, throughput_bps = 0, st_segment_id = 1, current_index = 0,
                          segments_downloaded = 0, last_download_time = 0\<rparr>"
  shows "\<exists>h'. hyst_run (hysteresis_init DEFAULT_LADDER 2 (3 / 2) 2 12 30) [(3, st), (3, st)] = Inr ([0, 3], h')
    \<and> (\<exists>pre post. [(3, st), (3, st)] = pre @ post \<and> int (length post) = 2
        \<and> list_all (asks_up (hysteresis_init DEFAULT_LADDER 2 (3 / 2) 2 12 30) 3) post)"
proof -
  have "\<exists>h'. hyst_run (hysteresis_init DEFAULT_LADDER 2 (3 / 2) 2 12 30) [(3, st), (3, st)] = Inr ([0, 3], h')"
    by (simp add: hysteresis_init_def hyst_step_def up_allowed_def observe_def reset_hold_def Let_def
        clamp_def n_levels_def st_def)
  then obtain h' where h': "hyst_run (hysteresis_init DEFAULT_LADDER 2 (3 / 2) 2 12 30) [(3, st), (3, st)] = Inr ([0, 3], h')"
    by blast
  have c: "clamp (hysteresis_init DEFAULT_LADDER 2 (3 / 2) 2 12 30) 0 = 0"
    by (simp add: clamp_def n_levels_def hysteresis_init_def)
  show ?thesis
    using hysteresis_stable_up[OF ladder_ok_default h', of 1] h' c by (simp add: st_def)
qed

text \<open>Down-switches are immediate, and every decision is either the wrapped controller's answer or
  the current level (both put on the ladder): from any reachable state of the stabilizer a
  decision succeeds, an answer at or below the current level is taken at once, and an answer
  above it never raises the result above that answer.\<close>

lemma hysteresis_down_at_once:
  assumes "hyst_ok h"
  shows "\<exists>i h'. hyst_step h c st = Inr (i, h') \<and> hyst_ok h' \<and> 0 \<le> i \<and> i < n_levels h
    \<and> (if clamp h c \<le> clamp h (current_index st) then i = clamp h c
       else i = clamp h c \<or> i = clamp h (current_index st))"
proof -
  obtain i h' where s: "hyst_step h c st = Inr (i, h')" "hyst_ok h'" "0 \<le> i" "i < n_levels h"
    "i = clamp h c \<or> i = clamp h (current_index st)"
    using hyst_step_ok[OF assms, of c st] by auto
  moreover have "i = clamp h c" if "clamp h c \<le> clamp h (current_index st)"
    using s(1) that by (simp add: hyst_step_def Let_def)
  ultimately show ?thesis by auto
qed

lemma hysteresis_down_at_once_example:
  "\<exists>i h'. hyst_step (hysteresis_init DEFAULT_LADDER 2 (3 / 2) 2 12 30) 1
      \<lparr>buffer_level = 0, throughput_bps = 0, st_segment_id = 1, current_index = 3,
       segments_downloaded = 0, last_download_time = 0\<rparr> = Inr (i, h') \<and> hyst_ok h' \<and> i = 1"
  using hysteresis_down_at_once[OF hysteresis_init_ok[OF ladder_ok_default], of 2 "3 / 2" 2 12 30 1
      "\<lparr>buffer_level = 0, throughput_bps = 0, st_segment_id = 1, current_index = 3,
        segments_downloaded = 0, last_download_time = 0\<rparr>"]
  by (auto simp: clamp_def n_levels_def hysteresis_init_def)

end
