(* ===== verification/AbrMpc.thy ===== *)
theory AbrMpc
  imports AbrBase
begin

text \<open>
  \<open>client/abr/mpc.py\<close>: the predictive controller.  It scores every sequence of levels over a short
  horizon with a model of the buffer and takes the first level of the first best sequence.  The
  initial best score, minus infinity, is None.
\<close>

record mpc_abr = base_abr +
  horizon :: int
  mpc_alpha :: real
  mpc_beta :: real
  mpc_gamma :: real
  rebuffer_risk :: real

definition mpc_init :: "ladder \<Rightarrow> real \<Rightarrow> int \<Rightarrow> real \<Rightarrow> real \<Rightarrow> real \<Rightarrow> real \<Rightarrow> mpc_abr" where
  "mpc_init l duration hz al be ga risk =
     \<lparr>ladder = l, abr_duration = duration, horizon = max 1 hz, mpc_alpha = al, mpc_beta = be,
      mpc_gamma = ga, rebuffer_risk = risk\<rparr>"

text \<open>\<open>itertools.product(xs, repeat=k)\<close>: the last position varies fastest.\<close>

fun product_repeat :: "'a list \<Rightarrow> nat \<Rightarrow> 'a list list" where
  "product_repeat xs 0 = [[]]"
| "product_repeat xs (Suc k) = concat (map (\<lambda>x. map ((#) x) (product_repeat xs k)) xs)"

text \<open>The loop of \<open>_simulate\<close>: buffer, previous level and score are what it carries.\<close>

fun simulate :: "mpc_abr \<Rightarrow> real \<Rightarrow> real \<Rightarrow> int \<Rightarrow> real \<Rightarrow> int list \<Rightarrow> real result" where
  "simulate a throughput b prev s [] = Inr s"
| "simulate a throughput b prev s (i # is) =
     bind_res (bitrate a i) (\<lambda>br.
     let download_time = fl (fl (fl (of_int br) * abr_duration a) / max throughput 1);
         rebuffer = max 0 (fl (download_time - b));
         b1 = fl (max 0 (fl (b - download_time)) + abr_duration a)
     in bind_res (quality a i) (\<lambda>q.
        bind_res (quality a prev) (\<lambda>p.
        let s1 = fl (s + fl (mpc_alpha a * q));
            s2 = fl (s1 - fl (mpc_beta a * rebuffer));
            s3 = fl (s2 - fl (mpc_gamma a * \<bar>fl (q - p)\<bar>));
            s4 = (if b1 < 2 then fl (s3 - rebuffer_risk a) else s3)
        in simulate a throughput b1 i s4 is)))"

text \<open>The loop of \<open>select\<close> over the sequences.\<close>

fun mpc_loop :: "(int list \<Rightarrow> real result) \<Rightarrow> real option \<Rightarrow> int \<Rightarrow> int list list \<Rightarrow> int result" where
  "mpc_loop f best first [] = Inr first"
| "mpc_loop f best first (xs # xss) =
     bind_res (f xs) (\<lambda>s.
       if best = None \<or> s > the best
       then bind_res (py_nth xs 0) (\<lambda>i. mpc_loop f (Some s) i xss)
       else mpc_loop f best first xss)"

definition mpc_select :: "mpc_abr \<Rightarrow> abr_state \<Rightarrow> int result" where
  "mpc_select a st =
     bind_res (throughput_or_lowest a st) (\<lambda>throughput.
       mpc_loop (simulate a throughput (buffer_level st) (current_index st) 0)
         None (clamp a (current_index st)) (product_repeat (iota (n_levels a)) (nat (horizon a))))"

section \<open>The sequences\<close>

lemma set_product_repeat: "xs \<in> set (product_repeat l k) \<longleftrightarrow> length xs = k \<and> set xs \<subseteq> set l"
proof (induction k arbitrary: xs)
  case (Suc k)
  show ?case by (cases xs) (simp_all add: Suc image_iff, blast)
qed auto

lemma product_repeat_not_Nil: "l \<noteq> [] \<Longrightarrow> product_repeat l k \<noteq> []"
  by (induction k) (cases l; simp)+

lemma distinct_product_repeat: "distinct l \<Longrightarrow> distinct (product_repeat l k)"
proof (induction k)
  case (Suc k)
  have "distinct (concat (map (\<lambda>x. map ((#) x) ys) l))" if "distinct ys" for ys :: "'a list list"
    using Suc.prems that by (induction l) (auto simp: distinct_map inj_on_def)
  then show ?case using Suc by simp
qed simp

section \<open>The first best\<close>

text \<open>The sequence \<open>xs\<close> is better than those before it and than what was best so far, and not worse than those after it.\<close>

definition first_best :: "(int list \<Rightarrow> real) \<Rightarrow> real option \<Rightarrow> int list list \<Rightarrow> int \<Rightarrow> bool" where
  "first_best g best xss i \<longleftrightarrow> (\<exists>pre xs post. xss = pre @ xs # post \<and> i = hd xs \<and> (\<forall>ys\<in>set pre. g ys < g xs)
     \<and> (\<forall>ys\<in>set post. g ys \<le> g xs) \<and> (best \<noteq> None \<longrightarrow> the best < g xs))"

lemma first_best_here:
  "(\<forall>ys\<in>set xss. g ys \<le> g xs) \<Longrightarrow> best = None \<or> the best < g xs \<Longrightarrow> first_best g best (xs # xss) (hd xs)"
  unfolding first_best_def by (intro exI[of _ "[]"] exI[of _ xs] exI[of _ xss]) auto

lemma first_best_later:
  assumes "first_best g (Some b) xss i" and "g xs \<le> b" and "best \<noteq> None \<longrightarrow> the best \<le> b"
  shows "first_best g best (xs # xss) i"
proof -
  obtain pre zs post where z: "xss = pre @ zs # post" "i = hd zs" "\<forall>ys\<in>set pre. g ys < g zs" "\<forall>ys\<in>set post. g ys \<le> g zs" "b < g zs"
    using assms(1) unfolding first_best_def by auto
  then show ?thesis using assms(2,3) unfolding first_best_def
    by (intro exI[of _ "xs # pre"] exI[of _ zs] exI[of _ post]) auto
qed

lemma mpc_loop_best:
  assumes "\<forall>xs\<in>set xss. f xs = Inr (g xs) \<and> xs \<noteq> []"
  shows "\<exists>i. mpc_loop f best first xss = Inr i \<and>
    ((i = first \<and> best \<noteq> None \<and> (\<forall>xs\<in>set xss. g xs \<le> the best)) \<or> (xss = [] \<and> i = first) \<or> first_best g best xss i)"
  using assms
proof (induction xss arbitrary: best first)
  case (Cons xs xss)
  have f: "f xs = Inr (g xs)" "py_nth xs 0 = Inr (hd xs)"
    using Cons.prems by (auto simp: py_nth_in_range hd_conv_nth)
  show ?case
  proof (cases "best = None \<or> g xs > the best")
    case True
    then have step: "mpc_loop f best first (xs # xss) = mpc_loop f (Some (g xs)) (hd xs) xss"
      using f by auto
    from Cons.IH[of "Some (g xs)" "hd xs"] Cons.prems obtain i where
      i: "mpc_loop f (Some (g xs)) (hd xs) xss = Inr i"
      and c: "(i = hd xs \<and> (\<forall>ys\<in>set xss. g ys \<le> g xs)) \<or> first_best g (Some (g xs)) xss i" by auto
    from c have "first_best g best (xs # xss) i"
      using True first_best_here[of xss g xs best] first_best_later[of g "g xs" xss i xs best] by fastforce
    then show ?thesis using step i by auto
  next
    case False
    then have step: "mpc_loop f best first (xs # xss) = mpc_loop f best first xss" using f by auto
    from False obtain b where b: "best = Some b" "g xs \<le> b" by auto
    from Cons.IH[of best first] Cons.prems obtain i where
      i: "mpc_loop f best first xss = Inr i"
      and c: "(i = first \<and> (\<forall>ys\<in>set xss. g ys \<le> b)) \<or> first_best g (Some b) xss i" using b(1) by auto
    then show ?thesis using step b first_best_later[of g b xss i xs best] by auto
  qed
qed simp

section \<open>Every sequence has a score\<close>

lemma quality_total:
  assumes "ladder_ok (ladder a)" and "- n_levels a \<le> i" "i < n_levels a"
  shows "\<exists>q. quality a i = Inr q"
proof -
  have "0 < snd (last (ladder a))" "ladder a \<noteq> []"
    using assms(1) ladder_last_pos by (auto simp: ladder_ok_def)
  then show ?thesis using assms(2,3)
    by (auto simp: quality_def quality_of_def bitrate_of_def py_nth_last n_levels_def py_nth_def[of _ i])
qed

lemma simulate_total:
  assumes "ladder_ok (ladder a)" and "- n_levels a \<le> prev" "prev < n_levels a"
    and "set is \<subseteq> {0..<n_levels a}"
  shows "\<exists>s'. simulate a t b prev s is = Inr s'"
  using assms(2-)
proof (induction "is" arbitrary: b prev s)
  case (Cons i "is")
  then have i: "0 \<le> i" "i < n_levels a" by auto
  obtain q p where "quality a i = Inr q" "quality a prev = Inr p"
    using quality_total[OF assms(1)] i Cons.prems by (metis (no_types, opaque_lifting) neg_le_0_iff_le order_trans order_less_imp_le)
  moreover have "bitrate a i = Inr (snd (ladder a ! nat i))" using bitrate_in_range[OF i] .
  ultimately show ?case using Cons i by (simp add: Let_def)
qed simp

definition mpc_ok :: "mpc_abr \<Rightarrow> bool" where
  "mpc_ok a \<longleftrightarrow> ladder_ok (ladder a) \<and> 1 \<le> horizon a"

lemma mpc_init_ok: "ladder_ok l \<Longrightarrow> mpc_ok (mpc_init l d h al be ga r)"
  by (simp add: mpc_ok_def mpc_init_def)

lemma mpc_select_best:
  assumes a: "mpc_ok a" and cur: "- n_levels a \<le> current_index st" "current_index st < n_levels a"
    and t: "throughput_or_lowest a st = Inr t"
  obtains pre xs post i g where "mpc_select a st = Inr i"
    and "product_repeat (iota (n_levels a)) (nat (horizon a)) = pre @ xs # post"
    and "i = hd xs" and "xs \<noteq> []" and "0 \<le> i" "i < n_levels a"
    and "\<forall>ys\<in>set (pre @ xs # post). simulate a t (buffer_level st) (current_index st) 0 ys = Inr (g ys)"
    and "\<forall>ys\<in>set pre. g ys < g xs" and "\<forall>ys\<in>set post. g ys \<le> g xs"
proof -
  let ?f = "simulate a t (buffer_level st) (current_index st) 0"
  let ?xss = "product_repeat (iota (n_levels a)) (nat (horizon a))"
  define g where "g xs = (case ?f xs of Inr s \<Rightarrow> s | Inl _ \<Rightarrow> 0)" for xs
  have l: "ladder_ok (ladder a)" "1 \<le> horizon a" using a by (auto simp: mpc_ok_def)
  have f: "\<forall>xs\<in>set ?xss. ?f xs = Inr (g xs) \<and> xs \<noteq> []"
  proof
    fix xs assume "xs \<in> set ?xss"
    then have "set xs \<subseteq> {0..<n_levels a}" "xs \<noteq> []" using l(2) by (auto simp: set_product_repeat)
    then show "?f xs = Inr (g xs) \<and> xs \<noteq> []"
      using simulate_total[OF l(1) cur, of xs t "buffer_level st" 0] by (auto simp: g_def)
  qed
  have "iota (n_levels a) \<noteq> []" using n_levels_pos[OF l(1)] by (simp add: iota_def)
  then have ne: "?xss \<noteq> []" by (rule product_repeat_not_Nil)
  from mpc_loop_best[OF f, of None "clamp a (current_index st)"] ne obtain i pre xs post where
    i: "mpc_loop ?f None (clamp a (current_index st)) ?xss = Inr i"
    and x: "?xss = pre @ xs # post" "i = hd xs" "\<forall>ys\<in>set pre. g ys < g xs" "\<forall>ys\<in>set post. g ys \<le> g xs"
    unfolding first_best_def by auto
  have "xs \<in> set ?xss" using x(1) by simp
  then have "xs \<noteq> []" "set xs \<subseteq> {0..<n_levels a}" using f by (auto simp: set_product_repeat)
  then have "0 \<le> i" "i < n_levels a" using x(2) hd_in_set[of xs] by (auto simp: subset_iff)
  moreover have "mpc_select a st = Inr i" using t i by (simp add: mpc_select_def)
  moreover have "\<forall>ys\<in>set (pre @ xs # post). ?f ys = Inr (g ys)" using f x(1) by simp
  ultimately show ?thesis using that x \<open>xs \<noteq> []\<close> by blast
qed

section \<open>Properties\<close>

text \<open>C25: The predictive controller is optimal over its horizon: it answers with the first level of a
  sequence of levels whose simulated score is the largest of all sequences of that length over
  the ladder, and larger than that of every sequence before it; every sequence has a score, so
  no exception is possible, for every current level Python can index with.\<close>

theorem mpc_select_optimal:
  assumes "ladder_ok l" and "- int (length l) \<le> current_index st" "current_index st < int (length l)"
  shows "\<exists>t i pre xs post g. throughput_or_lowest (mpc_init l d h al be ga r) st = Inr t
    \<and> mpc_select (mpc_init l d h al be ga r) st = Inr i
    \<and> product_repeat (iota (int (length l))) (nat (max 1 h)) = pre @ xs # post \<and> i = hd xs
    \<and> 0 \<le> i \<and> i < int (length l)
    \<and> (\<forall>ys. length ys = nat (max 1 h) \<and> set ys \<subseteq> {0..<int (length l)} \<longrightarrow>
          simulate (mpc_init l d h al be ga r) t (buffer_level st) (current_index st) 0 ys = Inr (g ys)
          \<and> g ys \<le> (g xs :: real))
    \<and> (\<forall>ys\<in>set pre. g ys < g xs)"
proof -
  let ?a = "mpc_init l d h al be ga r"
  have n: "n_levels ?a = int (length l)" "horizon ?a = max 1 h" "ladder ?a = l"
    by (simp_all add: n_levels_def mpc_init_def)
  obtain t where t: "throughput_or_lowest ?a st = Inr t"
    using throughput_or_lowest_ok[of ?a st] assms(1) n(3) by auto
  obtain pre xs post i g where m: "mpc_select ?a st = Inr i"
    "product_repeat (iota (int (length l))) (nat (max 1 h)) = pre @ xs # post" "i = hd xs"
    "0 \<le> i" "i < int (length l)" "\<forall>ys\<in>set pre. g ys < g xs" "\<forall>ys\<in>set post. g ys \<le> g xs"
    "\<forall>ys\<in>set (pre @ xs # post). simulate ?a t (buffer_level st) (current_index st) 0 ys = Inr (g ys)"
    using mpc_select_best[OF mpc_init_ok[OF assms(1)], of d h al be ga r st t] assms(2,3) t n by metis
  have all: "length ys = nat (max 1 h) \<and> set ys \<subseteq> {0..<int (length l)} \<longleftrightarrow> ys \<in> set (pre @ xs # post)" for ys
    using set_product_repeat[of ys "iota (int (length l))" "nat (max 1 h)"] m(2) by simp
  have "g ys \<le> g xs" if "ys \<in> set (pre @ xs # post)" for ys using that m(6,7) by auto
  then show ?thesis unfolding all using t m by blast
qed

lemma mpc_select_optimal_witness:
  "\<exists>i. mpc_select (mpc_init DEFAULT_LADDER 2 3 1 (9 / 2) 1 (1 / 2)) \<lparr>buffer_level = 10,
      throughput_bps = 3000000, st_segment_id = 1, current_index = -1, segments_downloaded = 0,
      last_download_time = 0\<rparr> = Inr i \<and> 0 \<le> i \<and> i < 4"
  using mpc_select_optimal[OF ladder_ok_default, of "\<lparr>buffer_level = 10, throughput_bps = 3000000,
      st_segment_id = 1, current_index = -1, segments_downloaded = 0, last_download_time = 0\<rparr>"
      2 3 1 "9 / 2" 1 "1 / 2"] by auto

end
