(* ===== verification/AbrFactory.thy ===== *)
theory AbrFactory
  imports PyNumber AbrRate AbrBola AbrHysteresis AbrMpc
begin

text \<open>
  The controllers together: the class hierarchy as a datatype, the dynamic dispatch of \<open>select\<close> and
  \<open>name\<close>, and \<open>make_abr\<close> of \<open>client/client.py\<close>.
\<close>

datatype abr =
    RateBasedABR rate_abr
  | BufferBasedABR buffer_abr
  | BOLA bola_abr
  | MPC mpc_abr
  | HysteresisABR hysteresis abr

text \<open>\<open>abr.select(state)\<close>: the level, and the controller afterwards.\<close>

primrec select :: "abr \<Rightarrow> abr_state \<Rightarrow> (int \<times> abr) result" where
  "select (RateBasedABR a) st = bind_res (rate_select a st) (\<lambda>i. Inr (i, RateBasedABR a))"
| "select (BufferBasedABR a) st = Inr (buffer_select a st, BufferBasedABR a)"
| "select (BOLA a) st = bind_res (bola_select a st) (\<lambda>i. Inr (i, BOLA a))"
| "select (MPC a) st = bind_res (mpc_select a st) (\<lambda>i. Inr (i, MPC a))"
| "select (HysteresisABR h inner) st =
     bind_res (select inner st) (\<lambda>(c, inner').
     bind_res (hyst_step h c st) (\<lambda>(i, h'). Inr (i, HysteresisABR h' inner')))"

primrec abr_name :: "abr \<Rightarrow> pystr" where
  "abr_name (RateBasedABR a) = u ''rate_based''"
| "abr_name (BufferBasedABR a) = u ''buffer_based''"
| "abr_name (BOLA a) = u ''bola''"
| "abr_name (MPC a) = u ''mpc''"
| "abr_name (HysteresisABR h inner) = abr_name inner @ u ''+hysteresis''"

primrec abr_ladder :: "abr \<Rightarrow> ladder" where
  "abr_ladder (RateBasedABR a) = ladder a"
| "abr_ladder (BufferBasedABR a) = ladder a"
| "abr_ladder (BOLA a) = ladder a"
| "abr_ladder (MPC a) = ladder a"
| "abr_ladder (HysteresisABR h inner) = ladder h"

section \<open>The factory\<close>

record qoe_config =
  qoe_alpha :: real
  qoe_beta :: real
  qoe_gamma :: real

definition default_qoe_config :: qoe_config where
  "default_qoe_config = \<lparr>qoe_alpha = 1, qoe_beta = 9 / 2, qoe_gamma = 1\<rparr>"

text \<open>
  \<open>name.lower()\<close> is the lowering of ASCII letters here: the names that are compared with it are
  ASCII and contain neither of the letters (k, i with a dot) that a non-ASCII letter lowers to.
\<close>

definition make_abr :: "pystr \<Rightarrow> bool \<Rightarrow> qoe_config \<Rightarrow> abr result" where
  "make_abr name use_hysteresis cfg =
     (let nm = lower_ascii name;
          base = (if nm \<in> {u ''rate'', u ''rate_based''} then
                    Inr (RateBasedABR (rate_init DEFAULT_LADDER DEFAULT_SEGMENT_DURATION (fl (85 / 100))))
                  else if nm \<in> {u ''buffer'', u ''buffer_based'', u ''bba''} then
                    bind_res (buffer_init DEFAULT_LADDER DEFAULT_SEGMENT_DURATION 6 30) (\<lambda>a. Inr (BufferBasedABR a))
                  else if nm = u ''bola'' then
                    bind_res (bola_init DEFAULT_LADDER DEFAULT_SEGMENT_DURATION 6 36 1) (\<lambda>a. Inr (BOLA a))
                  else if nm = u ''mpc'' then
                    Inr (MPC (mpc_init DEFAULT_LADDER DEFAULT_SEGMENT_DURATION 3
                      (qoe_alpha cfg) (qoe_beta cfg) (qoe_gamma cfg) (fl (1 / 2))))
                  else Inl ValueError)
      in if use_hysteresis
         then bind_res base (\<lambda>a. Inr (HysteresisABR
                (hysteresis_init DEFAULT_LADDER DEFAULT_SEGMENT_DURATION (fl (3 / 2)) 2 12 30) a))
         else base)"

section \<open>The contract of a controller\<close>

text \<open>
  What a session relies on: from a good controller and a current level on the ladder, a decision
  succeeds, is a level of the ladder again, and leaves a good controller with the same ladder.
\<close>

fun abr_run :: "('c \<Rightarrow> 'o \<Rightarrow> int \<Rightarrow> (int \<times> 'c) result) \<Rightarrow> 'c \<Rightarrow> int \<Rightarrow> 'o list \<Rightarrow> int list result" where
  "abr_run decide a cur [] = Inr []"
| "abr_run decide a cur (x # xs) =
     bind_res (decide a x cur) (\<lambda>(i, a').
     bind_res (abr_run decide a' i xs) (\<lambda>is. Inr (i # is)))"

locale abr_controller =
  fixes decide :: "'c \<Rightarrow> 'o \<Rightarrow> int \<Rightarrow> (int \<times> 'c) result"
    and good :: "'c \<Rightarrow> bool"
    and levels :: "'c \<Rightarrow> int"
  assumes decide_ok: "good a \<Longrightarrow> 0 \<le> cur \<Longrightarrow> cur < levels a \<Longrightarrow>
    \<exists>i a'. decide a x cur = Inr (i, a') \<and> good a' \<and> levels a' = levels a \<and> 0 \<le> i \<and> i < levels a"
begin

lemma run_in_range:
  assumes "good a" and "0 \<le> cur" "cur < levels a"
  shows "\<exists>is. abr_run decide a cur xs = Inr is \<and> length is = length xs
    \<and> (\<forall>i\<in>set is. 0 \<le> i \<and> i < levels a)"
  using assms
proof (induction xs arbitrary: a cur)
  case (Cons x xs)
  from decide_ok[OF Cons.prems, of x] obtain i a' where
    d: "decide a x cur = Inr (i, a')" "good a'" "levels a' = levels a" "0 \<le> i" "i < levels a" by blast
  from Cons.IH[of a' i] d obtain "is" where
    "abr_run decide a' i xs = Inr is" "length is = length xs" "\<forall>i\<in>set is. 0 \<le> i \<and> i < levels a" by auto
  then show ?case using d by simp
qed simp

end

section \<open>The controllers fulfil it\<close>

primrec abr_ok :: "abr \<Rightarrow> bool" where
  "abr_ok (RateBasedABR a) \<longleftrightarrow> ladder_ok (ladder a)"
| "abr_ok (BufferBasedABR a) \<longleftrightarrow> ladder_ok (ladder a) \<and> buffer_ok a"
| "abr_ok (BOLA a) \<longleftrightarrow> ladder_ok (ladder a) \<and> bola_ok a"
| "abr_ok (MPC a) \<longleftrightarrow> mpc_ok a"
| "abr_ok (HysteresisABR h inner) \<longleftrightarrow> hyst_ok h \<and> abr_ok inner \<and> abr_ladder inner = ladder h"

definition abr_levels :: "abr \<Rightarrow> int" where
  "abr_levels a = int (length (abr_ladder a))"

lemma abr_ladder_ok: "abr_ok a \<Longrightarrow> ladder_ok (abr_ladder a)"
  by (cases a) (simp_all add: mpc_ok_def hyst_ok_def)

lemma rate_select_ok:
  assumes "ladder_ok (ladder a)"
  shows "\<exists>i. rate_select a st = Inr i \<and> 0 \<le> i \<and> i < n_levels a"
proof -
  obtain t where "throughput_or_lowest a st = Inr t" using throughput_or_lowest_ok[OF assms, of st] by blast
  then show ?thesis using highest_fitting_range[of a t "safety a"] assms
    by (simp add: rate_select_def ladder_ok_def)
qed

lemma select_ok:
  "abr_ok a \<Longrightarrow> 0 \<le> current_index st \<Longrightarrow> current_index st < abr_levels a \<Longrightarrow>
   \<exists>i a'. select a st = Inr (i, a') \<and> abr_ok a' \<and> abr_ladder a' = abr_ladder a \<and> 0 \<le> i \<and> i < abr_levels a"
proof (induction a)
  case (RateBasedABR a)
  then show ?case using rate_select_ok[of a st] by (auto simp: abr_levels_def n_levels_def)
next
  case (BufferBasedABR a)
  then show ?case using buffer_select_range[of a st] by (auto simp: abr_levels_def n_levels_def ladder_ok_def)
next
  case (BOLA a)
  then show ?case using bola_select_range[of a st] by (auto simp: abr_levels_def n_levels_def)
next
  case (MPC a)
  then have "mpc_ok a" "- n_levels a \<le> current_index st" "current_index st < n_levels a"
    by (auto simp: abr_levels_def n_levels_def)
  moreover obtain t where "throughput_or_lowest a st = Inr t"
    using throughput_or_lowest_ok[of a st] \<open>mpc_ok a\<close> by (auto simp: mpc_ok_def)
  ultimately obtain i where "mpc_select a st = Inr i" "0 \<le> i" "i < n_levels a"
    by (rule mpc_select_best)
  then show ?case using MPC by (simp add: abr_levels_def n_levels_def)
next
  case (HysteresisABR h inner)
  then obtain c inner' where "select inner st = Inr (c, inner')" "abr_ok inner'" "abr_ladder inner' = ladder h"
    by (auto simp: abr_levels_def)
  moreover obtain i h' where "hyst_step h c st = Inr (i, h')" "hyst_ok h'" "same_config h h'" "0 \<le> i" "i < n_levels h"
    using hyst_step_ok[of h c st] HysteresisABR.prems by auto
  ultimately show ?case by (simp add: abr_levels_def n_levels_def same_config_def)
qed

text \<open>The state of a decision, for a given current level.\<close>

definition at_level :: "abr_state \<Rightarrow> int \<Rightarrow> abr_state" where
  "at_level st cur = st\<lparr>current_index := cur\<rparr>"

interpretation abr: abr_controller "\<lambda>a st cur. select a (at_level st cur)" abr_ok abr_levels
proof unfold_locales
  fix a cur and st :: abr_state
  assume "abr_ok a" "0 \<le> cur" "cur < abr_levels a"
  then show "\<exists>i a'. select a (at_level st cur) = Inr (i, a') \<and> abr_ok a' \<and> abr_levels a' = abr_levels a
      \<and> 0 \<le> i \<and> i < abr_levels a"
    using select_ok[of a "at_level st cur"] by (auto simp: at_level_def abr_levels_def)
qed

section \<open>The default controllers\<close>

text \<open>The constructor calls of the factory succeed, with these parameters.\<close>


lemma make_abr_ok:
  assumes "make_abr name use_hysteresis cfg = Inr a"
  shows "abr_ok a \<and> abr_ladder a = DEFAULT_LADDER"
proof -
  have "buffer_ok \<lparr>ladder = DEFAULT_LADDER, abr_duration = 2, reserve = 6, buffer_cap = 30, thresholds = [6, 14, 22, 30]\<rparr>"
    using buffer_init_ok(1)[OF default_buffer] .
  moreover note bola_init_ok[OF default_bola] ladder_ok_default
  ultimately show ?thesis using assms
    by (auto simp: make_abr_def Let_def py_simps config_defs default_buffer default_bola rate_init_def
        mpc_init_ok hysteresis_init_ok split: if_splits) (simp_all add: mpc_init_def hysteresis_init_def)
qed

section \<open>Properties\<close>

text \<open>C27: Every controller of the factory keeps to the ladder: whichever name and whether or not it is
  stabilized, and whatever buffer levels and throughputs the client reports, all decisions of a
  session succeed and are levels of the shared ladder, when each decision is the next current
  level as in the client's loop.\<close>

theorem make_abr_run_in_range:
  assumes "make_abr name use_hysteresis cfg = Inr a"
  shows "\<exists>is. abr_run (\<lambda>a st cur. select a (at_level st cur)) a 0 sts = Inr is \<and> length is = length sts
    \<and> (\<forall>i\<in>set is. 0 \<le> i \<and> i < int (length DEFAULT_LADDER))"
  using abr.run_in_range[of a 0 sts] make_abr_ok[OF assms] by (simp add: abr_levels_def)

lemma make_abr_run_in_range_witness:
  "\<exists>a is. make_abr (u ''Mpc'') True default_qoe_config = Inr a
    \<and> abr_run (\<lambda>a st cur. select a (at_level st cur)) a 0
        [\<lparr>buffer_level = 10, throughput_bps = 3000000, st_segment_id = 1, current_index = 0,
          segments_downloaded = 0, last_download_time = 0\<rparr>] = Inr is
    \<and> length is = 1"
proof -
  have "\<exists>a. make_abr (u ''Mpc'') True default_qoe_config = Inr a"
    by (simp add: make_abr_def Let_def lower_ascii_def)
  then obtain a where a: "make_abr (u ''Mpc'') True default_qoe_config = Inr a" by blast
  show ?thesis using make_abr_run_in_range[OF a, of "[\<lparr>buffer_level = 10, throughput_bps = 3000000,
      st_segment_id = 1, current_index = 0, segments_downloaded = 0, last_download_time = 0\<rparr>]"] a
    by (metis One_nat_def length_Cons list.size(3))
qed

text \<open>The factory knows exactly its seven names, in any capitalization: for them it returns a
  controller on the shared ladder, named after the algorithm and marked when it is stabilized;
  for any other name it raises ValueError.\<close>

lemma make_abr_names:
  "if lower_ascii name \<in> {u ''rate'', u ''rate_based'', u ''buffer'', u ''buffer_based'', u ''bba'',
                          u ''bola'', u ''mpc''}
   then \<exists>a. make_abr name use_hysteresis cfg = Inr a \<and> abr_ladder a = DEFAULT_LADDER
         \<and> abr_name a \<in> (\<lambda>n. if use_hysteresis then n @ u ''+hysteresis'' else n) `
             {u ''rate_based'', u ''buffer_based'', u ''bola'', u ''mpc''}
   else make_abr name use_hysteresis cfg = Inl ValueError"
proof (cases "lower_ascii name \<in> {u ''rate'', u ''rate_based'', u ''buffer'', u ''buffer_based'', u ''bba'',
    u ''bola'', u ''mpc''}")
  case True
  then have "\<exists>a. make_abr name use_hysteresis cfg = Inr a
      \<and> abr_name a \<in> (\<lambda>n. if use_hysteresis then n @ u ''+hysteresis'' else n) `
             {u ''rate_based'', u ''buffer_based'', u ''bola'', u ''mpc''}"
    by (auto simp: make_abr_def Let_def config_defs default_buffer default_bola)
  then show ?thesis using True make_abr_ok by auto
next
  case False
  then show ?thesis by (simp add: make_abr_def Let_def)
qed

end
