(* ===== verification/Qoe.thy ===== *)
theory Qoe
  imports Throughput AbrFactory
begin

text \<open>
  \<open>client/metrics/qoe.py\<close>: the quality of experience of a session.  The configuration record is in
  \<open>AbrFactory\<close>, where the factory of the controllers needs it.
\<close>

record qoe_result =
  avg_quality :: real
  q_rebuffer_seconds :: real
  q_n_switches :: int
  qoe :: real

definition mean_quality :: "real list \<Rightarrow> real" where
  "mean_quality qs = (if qs = [] then 0 else fl (py_sum qs / of_nat (length qs)))"

definition compute_qoe :: "real list \<Rightarrow> real \<Rightarrow> int \<Rightarrow> qoe_config option \<Rightarrow> qoe_result" where
  "compute_qoe qualities rebuffer n_switches config =
     (let cfg = (case config of None \<Rightarrow> default_qoe_config | Some c \<Rightarrow> c);
          avg = mean_quality qualities
      in \<lparr>avg_quality = avg, q_rebuffer_seconds = rebuffer, q_n_switches = n_switches,
          qoe = fl (fl (fl (qoe_alpha cfg * avg) - fl (qoe_beta cfg * rebuffer))
                   - fl (qoe_gamma cfg * fl (of_int n_switches)))\<rparr>)"

section \<open>The mean\<close>

lemma py_sum_from_mono:
  "list_all2 (\<le>) xs ys \<Longrightarrow> s \<le> t \<Longrightarrow> foldl (\<lambda>s x. fl (s + x)) s xs \<le> foldl (\<lambda>s x. fl (s + x)) t ys"
  by (induction xs ys arbitrary: s t rule: list_all2_induct) (simp_all add: fl_mono add_mono)

lemma py_sum_mono: "list_all2 (\<le>) xs ys \<Longrightarrow> py_sum xs \<le> py_sum ys"
  by (simp add: py_sum_def py_sum_from_mono)

lemma mean_quality_mono: "list_all2 (\<le>) xs ys \<Longrightarrow> mean_quality xs \<le> mean_quality ys"
  using py_sum_mono[of xs ys] list_all2_lengthD[of "(\<le>)" xs ys]
  by (auto simp: mean_quality_def intro!: fl_mono divide_right_mono)

text \<open>Sums of at most \<open>2 ^ 53\<close> numbers from 0 to 1 do not leave the range from 0 to their count.\<close>

lemma py_sum_from_bounds:
  "\<forall>x\<in>set xs. 0 \<le> x \<and> x \<le> 1 \<Longrightarrow> 0 \<le> s \<Longrightarrow> s \<le> of_nat n \<Longrightarrow> n + length xs \<le> 2 ^ 53 \<Longrightarrow>
   0 \<le> foldl (\<lambda>s x. fl (s + x)) s xs \<and> foldl (\<lambda>s x. fl (s + x)) s xs \<le> of_nat (n + length xs)"
proof (induction xs arbitrary: s n)
  case (Cons x xs)
  have "Suc n \<le> 2 ^ 53" using Cons.prems(4) by simp
  then have "fl (of_nat (Suc n)) = of_nat (Suc n)" by (rule fl_of_nat_simp)
  moreover have "fl (s + x) \<le> fl (of_nat (Suc n))" using Cons.prems by (intro fl_mono) auto
  ultimately have "fl (s + x) \<le> of_nat (Suc n)" by simp
  moreover have "0 \<le> fl (s + x)" using Cons.prems by simp
  ultimately show ?case using Cons.IH[of "fl (s + x)" "Suc n"] Cons.prems by simp
qed simp

lemma mean_quality_range:
  assumes "\<forall>x\<in>set xs. 0 \<le> x \<and> x \<le> 1" and "length xs \<le> 2 ^ 53"
  shows "0 \<le> mean_quality xs \<and> mean_quality xs \<le> 1"
proof -
  have "0 \<le> py_sum xs" "py_sum xs \<le> of_nat (length xs)"
    using py_sum_from_bounds[OF assms(1), of 0 0] assms(2) by (simp_all add: py_sum_def)
  then show ?thesis by (auto simp: mean_quality_def divide_le_eq_1 intro: fl_le_1)
qed

section \<open>Properties\<close>

text \<open>C40: The score means what it says: with weights that are not negative, a session with qualities
  as good or better segment by segment, as little or less rebuffering, and as few or fewer
  switches never has a lower QoE, in spite of the rounding.\<close>

theorem qoe_monotone:
  assumes "0 \<le> qoe_alpha c" "0 \<le> qoe_beta c" "0 \<le> qoe_gamma c"
    and "list_all2 (\<le>) qs qs'" and "r' \<le> r" and "n' \<le> n"
  shows "qoe (compute_qoe qs r n (Some c)) \<le> qoe (compute_qoe qs' r' n' (Some c))"
proof -
  have "fl (of_int n' :: real) \<le> fl (of_int n)" using assms(6) by (intro fl_mono) simp
  then show ?thesis using assms mean_quality_mono[OF assms(4)]
    by (auto simp: compute_qoe_def Let_def intro!: fl_mono diff_mono mult_left_mono)
qed

lemma qoe_monotone_witness:
  "qoe (compute_qoe [1 / 10, 1 / 2] 3 4 (Some default_qoe_config))
     \<le> qoe (compute_qoe [1 / 2, 1 / 2] 2 1 (Some default_qoe_config))"
  by (rule qoe_monotone) (simp_all add: default_qoe_config_def)

end
