(* ===== verification/HeapQueue.thy ===== *)
theory HeapQueue
  imports Prelude "HOL-Library.Multiset"
begin

text \<open>
  The binary heap of Python's \<open>heapq\<close> on a list, as \<open>client/scheduler/priority_queue.py\<close> uses it:
  \<open>heappush\<close> and \<open>heappop\<close> with their two sifting loops, which move a hole through the list and
  write the displaced item at its end.  The interface \<open>min_queue\<close> says what a client may rely on.
\<close>

section \<open>The interface\<close>

fun put_all :: "('a \<Rightarrow> 'q \<Rightarrow> 'q) \<Rightarrow> 'a list \<Rightarrow> 'q \<Rightarrow> 'q" where
  "put_all put [] q = q"
| "put_all put (x # xs) q = put_all put xs (put x q)"

text \<open>At most \<open>n\<close> elements in the order they come out.\<close>

fun drain :: "('q \<Rightarrow> ('a \<times> 'q) option) \<Rightarrow> nat \<Rightarrow> 'q \<Rightarrow> 'a list" where
  "drain next_of 0 q = []"
| "drain next_of (Suc n) q = (case next_of q of None \<Rightarrow> [] | Some (x, q') \<Rightarrow> x # drain next_of n q')"

locale min_queue =
  fixes mt :: 'q
    and put :: "'a::linorder \<Rightarrow> 'q \<Rightarrow> 'q"
    and next_of :: "'q \<Rightarrow> ('a \<times> 'q) option"
    and good :: "'q \<Rightarrow> bool"
    and elems :: "'q \<Rightarrow> 'a multiset"
  assumes good_mt: "good mt" and elems_mt: "elems mt = {#}"
    and good_put: "good q \<Longrightarrow> good (put x q)"
    and elems_put: "good q \<Longrightarrow> elems (put x q) = add_mset x (elems q)"
    and next_None: "good q \<Longrightarrow> next_of q = None \<longleftrightarrow> elems q = {#}"
    and good_next: "good q \<Longrightarrow> next_of q = Some (x, q') \<Longrightarrow> good q'"
    and elems_next: "good q \<Longrightarrow> next_of q = Some (x, q') \<Longrightarrow> elems q = add_mset x (elems q')"
    and next_least: "good q \<Longrightarrow> next_of q = Some (x, q') \<Longrightarrow> y \<in># elems q \<Longrightarrow> x \<le> y"
begin

lemma put_all_good: "good q \<Longrightarrow> good (put_all put xs q) \<and> elems (put_all put xs q) = elems q + mset xs"
  by (induction xs arbitrary: q) (simp_all add: good_put elems_put)

lemma next_cases:
  assumes "good q"
  obtains "elems q = {#}" "next_of q = None"
    | x q' where "next_of q = Some (x, q')" "good q'" "elems q = add_mset x (elems q')" "\<forall>y\<in>#elems q. x \<le> y"
  using assms next_None good_next elems_next next_least by (cases "next_of q") auto

text \<open>What comes out is what went in, in order: the queue sorts.\<close>

lemma drain_sorted:
  "good q \<Longrightarrow> size (elems q) \<le> n \<Longrightarrow> mset (drain next_of n q) = elems q \<and> sorted (drain next_of n q)"
proof (induction n arbitrary: q)
  case (Suc n)
  from \<open>good q\<close> show ?case
  proof (cases rule: next_cases)
    case (2 x q')
    then show ?thesis using Suc.IH[of q'] Suc.prems(2) by (auto simp flip: set_mset_mset)
  qed simp
qed simp

lemma sorts: "drain next_of (length xs) (put_all put xs mt) = sort xs"
proof -
  have "good (put_all put xs mt)" "elems (put_all put xs mt) = mset xs"
    using put_all_good[OF good_mt, of xs] by (simp_all add: elems_mt)
  then show ?thesis using drain_sorted[of "put_all put xs mt" "length xs"]
    by (metis properties_for_sort order_refl size_mset)
qed

end

section \<open>The two loops\<close>

abbreviation parent :: "nat \<Rightarrow> nat" where
  "parent i \<equiv> (i - 1) div 2"

text \<open>\<open>_siftdown(heap, 0, pos)\<close> with the item \<open>x\<close> in hand: parents that are larger move down.\<close>

function siftdown :: "('a::linorder) list \<Rightarrow> nat \<Rightarrow> 'a \<Rightarrow> 'a list" where
  "siftdown h pos x =
     (if 0 < pos \<and> x < h ! parent pos then siftdown (h[pos := h ! parent pos]) (parent pos) x
      else h[pos := x])"
  by pat_completeness auto
termination
  by (relation "measure (\<lambda>(h, pos, x). pos)") auto

declare siftdown.simps [simp del]

lemma siftdown_cases:
  "0 < pos \<and> x < h ! parent pos \<Longrightarrow> siftdown h pos x = siftdown (h[pos := h ! parent pos]) (parent pos) x"
  "\<not> (0 < pos \<and> x < h ! parent pos) \<Longrightarrow> siftdown h pos x = h[pos := x]"
  by (simp_all only: siftdown.simps[of h pos x] if_True if_False simp_thms)

text \<open>\<open>_siftup(heap, pos)\<close>: the smaller child moves up until the hole is at a leaf, where the item
  is written and then sifted back towards the root.\<close>

definition smaller_child :: "('a::linorder) list \<Rightarrow> nat \<Rightarrow> nat" where
  "smaller_child h pos =
     (if 2 * pos + 2 < length h \<and> \<not> h ! (2 * pos + 1) < h ! (2 * pos + 2) then 2 * pos + 2 else 2 * pos + 1)"

function siftup :: "('a::linorder) list \<Rightarrow> nat \<Rightarrow> 'a \<Rightarrow> 'a list" where
  "siftup h pos x =
     (if 2 * pos + 1 < length h
      then siftup (h[pos := h ! smaller_child h pos]) (smaller_child h pos) x
      else siftdown (h[pos := x]) pos x)"
  by pat_completeness auto
termination
  by (relation "measure (\<lambda>(h, pos, x). length h - pos)") (auto simp: smaller_child_def)

declare siftup.simps [simp del]

definition heappush :: "'a \<Rightarrow> ('a::linorder) list \<Rightarrow> 'a list" where
  "heappush x h = siftdown (h @ [x]) (length h) x"

definition heappop :: "('a::linorder) list \<Rightarrow> ('a \<times> 'a list) option" where
  "heappop h =
     (if h = [] then None
      else let lastelt = last h; h' = butlast h in
           if h' = [] then Some (lastelt, [])
           else Some (h' ! 0, siftup h' 0 lastelt))"

section \<open>The heap order\<close>

definition heap :: "('a::linorder) list \<Rightarrow> bool" where
  "heap h \<longleftrightarrow> (\<forall>i. 0 < i \<longrightarrow> i < length h \<longrightarrow> h ! parent i \<le> h ! i)"

text \<open>The order holds except around the hole, and across it.\<close>

definition hole :: "('a::linorder) list \<Rightarrow> nat \<Rightarrow> bool" where
  "hole h p \<longleftrightarrow>
     (\<forall>i. 0 < i \<longrightarrow> i < length h \<longrightarrow> i \<noteq> p \<longrightarrow> parent i \<noteq> p \<longrightarrow> h ! parent i \<le> h ! i)
   \<and> (\<forall>c. 0 < c \<longrightarrow> c < length h \<longrightarrow> parent c = p \<longrightarrow> 0 < p \<longrightarrow> h ! parent p \<le> h ! c)"

lemma heap_hole: "heap h \<Longrightarrow> hole h 0"
  by (auto simp: heap_def hole_def)

lemma parent_less: "0 < i \<Longrightarrow> parent i < i"
  by auto

lemma mset_move:
  assumes "p < length h" "q < length h" "p \<noteq> q"
  shows "mset (h[p := h ! q, q := x]) = mset (h[p := x])"
proof -
  have "mset ((h[p := x])[q := (h[p := x]) ! p, p := (h[p := x]) ! q]) = mset (h[p := x])"
    using assms by (intro mset_swap) simp_all
  moreover have "(h[p := x])[q := (h[p := x]) ! p, p := (h[p := x]) ! q] = h[p := h ! q, q := x]"
    using assms by (intro nth_equalityI) (auto simp: nth_list_update)
  ultimately show ?thesis by simp
qed

lemma siftdown_mset: "pos < length h \<Longrightarrow> mset (siftdown h pos x) = mset (h[pos := x])"
proof (induction h pos x rule: siftdown.induct)
  case (1 h pos x)
  show ?case
  proof (cases "0 < pos \<and> x < h ! parent pos")
    case True
    have p: "parent pos < length h" "pos \<noteq> parent pos" using True "1.prems" by auto
    have "mset (siftdown h pos x) = mset (h[pos := h ! parent pos, parent pos := x])"
      using True p "1.IH"[OF True] by (simp only: siftdown_cases(1)[OF True] length_list_update)
    then show ?thesis using mset_move[OF "1.prems" p] by simp
  next
    case False
    then show ?thesis by (simp only: siftdown_cases(2)[OF False])
  qed
qed

lemma siftup_mset: "pos < length h \<Longrightarrow> mset (siftup h pos x) = mset (h[pos := x])"
proof (induction h pos x rule: siftup.induct)
  case (1 h pos x)
  show ?case
  proof (cases "2 * pos + 1 < length h")
    case True
    let ?c = "smaller_child h pos"
    have c: "?c < length h" "pos \<noteq> ?c" using True by (auto simp: smaller_child_def)
    have "mset (siftup h pos x) = mset (h[pos := h ! ?c, ?c := x])"
      using True c "1.IH"[OF True] by (subst siftup.simps) simp
    then show ?thesis using mset_move[OF "1.prems" c] by simp
  next
    case False
    then show ?thesis using "1.prems" by (subst siftup.simps) (simp add: siftdown_mset)
  qed
qed

text \<open>Writing an item into the hole restores the order when it fits there.\<close>

lemma hole_fill:
  assumes "hole h p" "p < length h" and "0 < p \<Longrightarrow> h ! parent p \<le> x"
    and "\<And>c. 0 < c \<Longrightarrow> c < length h \<Longrightarrow> parent c = p \<Longrightarrow> x \<le> h ! c"
  shows "heap (h[p := x])"
  unfolding heap_def
proof (intro allI impI)
  fix i assume i: "0 < i" "i < length (h[p := x])"
  consider "i = p" | "i \<noteq> p" "parent i = p" | "i \<noteq> p" "parent i \<noteq> p" by blast
  then show "h[p := x] ! parent i \<le> h[p := x] ! i"
  proof cases
    case 1
    then show ?thesis using i assms(2,3) parent_less[of p] by auto
  next
    case 2
    then show ?thesis using i assms(2,4) by auto
  next
    case 3
    then show ?thesis using i assms(1,2) by (auto simp: hole_def)
  qed
qed

text \<open>Moving the parent down moves the hole up.\<close>

lemma hole_up:
  assumes "hole h p" and "p < length h" and p: "0 < p"
  shows "hole (h[p := h ! parent p]) (parent p)"
proof -
  let ?q = "parent p" and ?h = "h[p := h ! parent p]"
  have q: "?q < p" "?q < length h" using assms parent_less[of p] by auto
  have ord: "h ! parent i \<le> h ! i" if "0 < i" "i < length h" "i \<noteq> p" "parent i \<noteq> p" for i
    using assms(1) that by (simp add: hole_def)
  have across: "h ! ?q \<le> h ! c" if "0 < c" "c < length h" "parent c = p" for c
    using assms(1) that p by (simp add: hole_def)
  have new: "?h ! parent i \<le> ?h ! i" if "0 < i" "i < length h" "i \<noteq> ?q" "parent i \<noteq> ?q" for i
    using that ord[of i] across[of i] parent_less[of i] assms(2) by (cases "parent i = p"; cases "i = p") auto
  have "?h ! parent ?q \<le> ?h ! c" if c: "0 < c" "c < length h" "parent c = ?q" "0 < ?q" for c
  proof -
    have up: "h ! parent ?q \<le> h ! ?q" using ord[of ?q] q c(4) parent_less[of ?q] by auto
    have e: "?h ! parent ?q = h ! parent ?q" using q parent_less[OF c(4)] by auto
    show ?thesis
    proof (cases "c = p")
      case True
      then show ?thesis using up e assms(2) by simp
    next
      case False
      then have "h ! ?q \<le> h ! c" using ord[of c] c q(1) by auto
      then show ?thesis using up e False by simp
    qed
  qed
  then show ?thesis using new by (simp add: hole_def)
qed

lemma siftdown_heap:
  "hole h p \<Longrightarrow> p < length h \<Longrightarrow> (\<And>c. 0 < c \<Longrightarrow> c < length h \<Longrightarrow> parent c = p \<Longrightarrow> x \<le> h ! c) \<Longrightarrow>
   heap (siftdown h p x)"
proof (induction h p x rule: siftdown.induct)
  case (1 h p x)
  show ?case
  proof (cases "0 < p \<and> x < h ! parent p")
    case True
    let ?q = "parent p" and ?h = "h[p := h ! parent p]"
    have q: "?q < p" "?q < length h" using True "1.prems"(2) parent_less[of p] by auto
    have "x \<le> ?h ! c" if c: "0 < c" "c < length ?h" "parent c = ?q" for c
    proof (cases "c = p")
      case True
      then show ?thesis using c \<open>0 < p \<and> x < h ! parent p\<close> by auto
    next
      case False
      then have "parent c \<noteq> p" using c(3) q(1) by simp
      with False c have "h ! ?q \<le> h ! c" using "1.prems"(1) unfolding hole_def by (metis length_list_update)
      then show ?thesis using True False by auto
    qed
    then have "heap (siftdown ?h ?q x)" using "1.IH"[OF True] hole_up[OF "1.prems"(1,2)] True q(2) by simp
    then show ?thesis by (simp only: siftdown_cases(1)[OF True])
  next
    case False
    then have "siftdown h p x = h[p := x]" by (rule siftdown_cases(2))
    moreover have "0 < p \<Longrightarrow> h ! parent p \<le> x" using False by auto
    ultimately show ?thesis using hole_fill[OF "1.prems"(1,2) _ "1.prems"(3)] by simp
  qed
qed

lemma hole_leaf:
  assumes "hole h p" and "\<not> 2 * p + 1 < length h"
  shows "0 < c \<Longrightarrow> c < length h \<Longrightarrow> parent c \<noteq> p"
  using assms(2) by auto

lemma siftup_heap: "hole h p \<Longrightarrow> p < length h \<Longrightarrow> heap (siftup h p x)"
proof (induction h p x rule: siftup.induct)
  case (1 h p x)
  show ?case
  proof (cases "2 * p + 1 < length h")
    case True
    let ?c = "smaller_child h p"
    let ?h = "h[p := h ! ?c]"
    have c: "p < ?c" "?c < length h" "0 < ?c" "parent ?c = p" using True by (auto simp: smaller_child_def)
    have least: "h ! ?c \<le> h ! i" if "0 < i" "i < length h" "parent i = p" for i
    proof -
      have "i = 2 * p + 1 \<or> i = 2 * p + 2" using that by auto
      then show ?thesis using that(2) by (auto simp: smaller_child_def not_less)
    qed
    have ord: "h ! parent i \<le> h ! i" if "0 < i" "i < length h" "i \<noteq> p" "parent i \<noteq> p" for i
      using "1.prems"(1) that by (simp add: hole_def)
    have new: "?h ! parent i \<le> ?h ! i" if i: "0 < i" "i < length h" "i \<noteq> ?c" "parent i \<noteq> ?c" for i
    proof (cases "i = p")
      case True
      then have "h ! parent p \<le> h ! ?c" using "1.prems"(1) c i by (simp add: hole_def)
      then show ?thesis using True i "1.prems"(2) parent_less[of p] by auto
    next
      case False
      then show ?thesis using ord[of i] least[of i] i "1.prems"(2) by (cases "parent i = p") auto
    qed
    have "?h ! parent ?c \<le> ?h ! i" if i: "0 < i" "i < length h" "parent i = ?c" for i
    proof -
      have "i \<noteq> p" using i c(1) parent_less[OF i(1)] by auto
      then have "h ! ?c \<le> h ! i" using ord[of i] i c(1) by auto
      then show ?thesis using c(4) "1.prems"(2) \<open>i \<noteq> p\<close> by auto
    qed
    then have "hole ?h ?c" using new by (simp add: hole_def)
    then show ?thesis using "1.IH"[OF True] c(2) True by (simp only: siftup.simps[of h p x] if_True length_list_update)
  next
    case False
    have "hole (h[p := x]) p"
      using "1.prems" hole_leaf[OF "1.prems"(1) False] by (auto simp: hole_def nth_list_update)
    moreover have "parent c \<noteq> p" if "0 < c" "c < length (h[p := x])" for c
      using hole_leaf[OF "1.prems"(1) False] that by simp
    ultimately have "heap (siftdown (h[p := x]) p x)" using "1.prems"(2) by (intro siftdown_heap) auto
    then show ?thesis using False by (simp add: siftup.simps[of h p x])
  qed
qed

text \<open>The first item is the least.\<close>

lemma heap_first_least: "heap h \<Longrightarrow> i < length h \<Longrightarrow> h ! 0 \<le> h ! i"
proof (induction i rule: less_induct)
  case (less i)
  show ?case
  proof (cases "i = 0")
    case False
    then have "parent i < i" by auto
    then have "h ! 0 \<le> h ! parent i" using less by simp
    also have "\<dots> \<le> h ! i" using less.prems False by (simp add: heap_def)
    finally show ?thesis .
  qed simp
qed

section \<open>The operations\<close>

lemma heap_butlast: "heap h \<Longrightarrow> heap (butlast h)"
proof -
  assume h: "heap h"
  have "butlast h ! parent i \<le> butlast h ! i" if "0 < i" "i < length (butlast h)" for i
  proof -
    have "parent i < length (butlast h)" using that by auto
    then show ?thesis using h that by (simp add: heap_def nth_butlast)
  qed
  then show ?thesis by (simp add: heap_def)
qed

lemma heappush_heap: "heap h \<Longrightarrow> heap (heappush x h)"
  unfolding heappush_def
proof (rule siftdown_heap)
  assume h: "heap h"
  have p: "parent i < length h" if "0 < i" "i < Suc (length h)" for i using that by auto
  show "hole (h @ [x]) (length h)"
    unfolding hole_def
  proof (intro conjI allI impI)
    fix i assume i: "0 < i" "i < length (h @ [x])" "i \<noteq> length h"
    then show "(h @ [x]) ! parent i \<le> (h @ [x]) ! i" using h p[of i] by (auto simp: heap_def nth_append)
  next
    fix c assume "0 < c" "c < length (h @ [x])" "parent c = length h"
    then show "(h @ [x]) ! parent (length h) \<le> (h @ [x]) ! c" using p[of c] by simp
  qed
qed auto

lemma heappush_mset: "mset (heappush x h) = add_mset x (mset h)"
  by (simp add: heappush_def siftdown_mset)

lemma heappop_Some:
  assumes "heap h" and "heappop h = Some (x, h')"
  shows "heap h' \<and> mset h = add_mset x (mset h') \<and> (\<forall>y\<in>set h. x \<le> y)"
proof -
  have ne: "h \<noteq> []" using assms(2) by (auto simp: heappop_def)
  then have h: "h = butlast h @ [last h]" by simp
  show ?thesis
  proof (cases "butlast h = []")
    case True
    then obtain a where "h = [a]" using ne by (cases h) (auto split: if_splits)
    then show ?thesis using assms(2) by (simp add: heappop_def heap_def)
  next
    case False
    let ?b = "butlast h"
    have x: "x = ?b ! 0" "h' = siftup ?b 0 (last h)" using assms(2) ne False by (auto simp: heappop_def Let_def)
    have hb: "heap ?b" by (rule heap_butlast[OF assms(1)])
    have len: "0 < length ?b" using False by (simp only: length_greater_0_conv not_False_eq_True)
    have "?b ! 0 = h ! 0" using len by (simp add: nth_butlast)
    moreover have "\<forall>y\<in>set h. h ! 0 \<le> y" using heap_first_least[OF assms(1)] by (auto simp: in_set_conv_nth)
    moreover have "heap h'" unfolding x(2) using siftup_heap[OF heap_hole[OF hb] len] .
    moreover have "mset h' = mset (?b[0 := last h])" unfolding x(2) by (rule siftup_mset[OF len])
    moreover have "mset h = add_mset (last h) (mset ?b)" by (subst h) simp
    moreover have "mset (?b[0 := last h]) = add_mset (last h) (mset ?b - {#?b ! 0#})"
      using len by (rule mset_update)
    moreover have "?b ! 0 \<in># mset ?b" using len by simp
    ultimately show ?thesis using x(1) by simp
  qed
qed

interpretation heapq: min_queue "[]" heappush heappop heap mset
proof unfold_locales
  fix h h' :: "'a list" and x y :: 'a
  show "heappop h = None \<longleftrightarrow> mset h = {#}" by (simp add: heappop_def Let_def)
  assume "heap h" "heappop h = Some (x, h')"
  note r = heappop_Some[OF this]
  show "heap h'" "mset h = add_mset x (mset h')" using r by simp_all
  assume "y \<in># mset h"
  then have "y \<in> set h" by (simp only: set_mset_mset)
  then show "x \<le> y" using r by blast
qed (simp_all add: heap_def[of "[]"] heappush_heap heappush_mset)

end
