(* ===== verification/Scheduler.thy ===== *)
theory Scheduler
  imports HeapQueue PyFloat "HOL-Library.Product_Lexorder"
begin

text \<open>
  \<open>client/scheduler/priority_queue.py\<close> and \<open>client/scheduler/deadline_scheduler.py\<close>: the heap of
  scheduled tasks and the deadline scheduler on top of it.  The counter \<open>itertools.count()\<close> is its
  next value; the callable \<open>buffer_lookup\<close> and the clock are their values at the call.
\<close>

section \<open>Tasks\<close>

datatype scheduled_task =
  ScheduledTask (task_priority: real) (task_deadline: real) (task_sequence: int) (task_segment: int)

text \<open>\<open>@dataclass(order=True)\<close>: tasks compare as the tuples of their fields.\<close>

definition task_key :: "scheduled_task \<Rightarrow> real \<times> real \<times> int \<times> int" where
  "task_key t = (task_priority t, task_deadline t, task_sequence t, task_segment t)"

lemma task_key_inject: "task_key s = task_key t \<longleftrightarrow> s = t"
  by (cases s; cases t) (simp add: task_key_def)

instantiation scheduled_task :: linorder
begin

definition less_eq_scheduled_task :: "scheduled_task \<Rightarrow> scheduled_task \<Rightarrow> bool" where
  "less_eq_scheduled_task s t \<longleftrightarrow> task_key s \<le> task_key t"

definition less_scheduled_task :: "scheduled_task \<Rightarrow> scheduled_task \<Rightarrow> bool" where
  "less_scheduled_task s t \<longleftrightarrow> task_key s < task_key t"

instance
  by standard (auto simp: less_eq_scheduled_task_def less_scheduled_task_def less_le_not_le
      simp flip: task_key_inject)

end

lemma task_less: "task_priority s < task_priority t \<Longrightarrow> s < t"
  by (simp add: less_scheduled_task_def task_key_def)

section \<open>The segment scheduler\<close>

record segment_scheduler =
  sched_heap :: "scheduled_task list"
  next_seq :: int

definition scheduler_init :: segment_scheduler where
  "scheduler_init = \<lparr>sched_heap = [], next_seq = 0\<rparr>"

definition push :: "int \<Rightarrow> real \<Rightarrow> real \<Rightarrow> 'a segment_scheduler_scheme \<Rightarrow> 'a segment_scheduler_scheme" where
  "push segment_id priority deadline s =
     s\<lparr>sched_heap := heappush (ScheduledTask priority deadline (next_seq s) segment_id) (sched_heap s),
       next_seq := next_seq s + 1\<rparr>"

definition pop :: "'a segment_scheduler_scheme \<Rightarrow> scheduled_task option \<times> 'a segment_scheduler_scheme" where
  "pop s = (case heappop (sched_heap s) of
              None \<Rightarrow> (None, s)
            | Some (t, h) \<Rightarrow> (Some t, s\<lparr>sched_heap := h\<rparr>))"

definition peek :: "'a segment_scheduler_scheme \<Rightarrow> scheduled_task option" where
  "peek s = (if sched_heap s = [] then None else Some (sched_heap s ! 0))"

definition scheduler_len :: "'a segment_scheduler_scheme \<Rightarrow> int" where
  "scheduler_len s = int (length (sched_heap s))"

section \<open>The deadline scheduler\<close>

record deadline_scheduler = segment_scheduler +
  ds_duration :: real
  urgency_weight :: real
  buffer_bonus :: real

definition deadline_init :: "real \<Rightarrow> real \<Rightarrow> real \<Rightarrow> deadline_scheduler" where
  "deadline_init duration weight bonus =
     \<lparr>sched_heap = [], next_seq = 0, ds_duration = duration, urgency_weight = weight, buffer_bonus = bonus\<rparr>"

text \<open>Deadline and priority of the segment at an offset from the next one.\<close>

definition slack_of :: "deadline_scheduler \<Rightarrow> real \<Rightarrow> int \<Rightarrow> real" where
  "slack_of s b offset = max 0 (fl (b - fl (of_int offset * ds_duration s)))"

definition deadline_of :: "deadline_scheduler \<Rightarrow> real \<Rightarrow> real \<Rightarrow> int \<Rightarrow> real" where
  "deadline_of s now b offset = fl (now + slack_of s b offset)"

definition priority_of :: "deadline_scheduler \<Rightarrow> real \<Rightarrow> int \<Rightarrow> real" where
  "priority_of s b offset =
     fl (fl (fl (urgency_weight s * fl (of_int offset * ds_duration s)) - slack_of s b offset)
         - fl (buffer_bonus s * b))"

fun schedule_offsets :: "int \<Rightarrow> real \<Rightarrow> real \<Rightarrow> int list \<Rightarrow> deadline_scheduler \<Rightarrow> deadline_scheduler" where
  "schedule_offsets from_seg now b [] s = s"
| "schedule_offsets from_seg now b (offset # os) s =
     schedule_offsets from_seg now b os
       (push (from_seg + offset) (priority_of s b offset) (deadline_of s now b offset) s)"

definition schedule_upcoming :: "int \<Rightarrow> int \<Rightarrow> real \<Rightarrow> real \<Rightarrow> deadline_scheduler \<Rightarrow> deadline_scheduler" where
  "schedule_upcoming from_seg n now b s = schedule_offsets from_seg now b (iota n) s"

text \<open>Popping until the task is not stale.\<close>

lemma heappop_length: "heappop h = Some (t, h') \<Longrightarrow> length h' < length h"
proof -
  have sd: "length (siftdown h p x) = length h" for h :: "'a list" and p x
    by (induction h p x rule: siftdown.induct) (subst siftdown.simps, simp)
  have su: "length (siftup h p x) = length h" for h :: "'a list" and p x
    by (induction h p x rule: siftup.induct) (subst siftup.simps, simp add: sd)
  assume "heappop h = Some (t, h')"
  then show ?thesis by (auto simp: heappop_def Let_def su split: if_splits)
qed

function drop_stale :: "int \<Rightarrow> 'a segment_scheduler_scheme \<Rightarrow> scheduled_task option \<times> 'a segment_scheduler_scheme" where
  "drop_stale from_seg s =
     (case heappop (sched_heap s) of
        None \<Rightarrow> (None, s)
      | Some (t, h) \<Rightarrow>
          if task_segment t < from_seg then drop_stale from_seg (s\<lparr>sched_heap := h\<rparr>)
          else (Some t, s\<lparr>sched_heap := h\<rparr>))"
  by pat_completeness auto
termination
  by (relation "measure (\<lambda>(f, s). length (sched_heap s))") (auto dest: heappop_length)

declare drop_stale.simps [simp del]

definition next_segment :: "int \<Rightarrow> int \<Rightarrow> real \<Rightarrow> real \<Rightarrow> deadline_scheduler \<Rightarrow> int \<times> deadline_scheduler" where
  "next_segment from_seg lookahead now b s =
     (let (task, s') = drop_stale from_seg (schedule_upcoming from_seg lookahead now b s)
      in (case task of None \<Rightarrow> from_seg | Some t \<Rightarrow> task_segment t, s'))"

section \<open>Priorities grow with the offset\<close>

lemma slack_antimono:
  "0 \<le> ds_duration s \<Longrightarrow> o1 \<le> o2 \<Longrightarrow> slack_of s b o2 \<le> slack_of s b o1"
  unfolding slack_of_def by (intro max.mono fl_mono diff_mono mult_right_mono order_refl) auto

lemma slack_range: "0 \<le> b \<Longrightarrow> is_float b \<Longrightarrow> 0 \<le> ds_duration s \<Longrightarrow> 0 \<le> offset \<Longrightarrow> 0 \<le> slack_of s b offset \<and> slack_of s b offset \<le> b"
  by (auto simp: slack_of_def intro!: fl_le_iff_float)

text \<open>The scheduler of a session: two seconds a segment, weight 1, bonus 0.1.\<close>

definition session_config :: "deadline_scheduler \<Rightarrow> bool" where
  "session_config s \<longleftrightarrow> ds_duration s = 2 \<and> urgency_weight s = 1 \<and> buffer_bonus s = fl (1 / 10)"

lemma priority_step:
  assumes s: "session_config s" and b: "0 \<le> b" "b \<le> 2 ^ 40" "is_float b" and o1: "0 \<le> o1" "o1 < o2" "o2 \<le> 2 ^ 38"
  shows "priority_of s b o1 < priority_of s b o2"
proof -
  have ex: "fl (of_int i * 2) = of_int (2 * i)" if "0 \<le> i" "i \<le> 2 ^ 38" for i
    using fl_of_int_simp[of "2 * i"] that by (simp add: mult.commute)
  define u where "u i = of_int (2 * i) - slack_of s b i" for i
  define c where "c = fl (fl (1 / 10) * b)"
  have pr: "priority_of s b i = fl (fl (u i) - c)" if "0 \<le> i" "i \<le> 2 ^ 38" for i
    using s ex[OF that] fl_of_int_simp[of "2 * i"] that by (simp add: priority_of_def session_config_def u_def c_def)
  have bnd: "(of_int (2 * i) :: real) \<le> 2 ^ 39" "(0::real) \<le> of_int (2 * i)" if "0 \<le> i" "i \<le> 2 ^ 38" for i
  proof -
    have "(of_int (2 * i) :: real) \<le> of_int (2 ^ 39)" using that(2) by (simp only: of_int_le_iff) simp
    then show "(of_int (2 * i) :: real) \<le> 2 ^ 39" "(0::real) \<le> of_int (2 * i)" using that(1) by simp_all
  qed
  have sl: "0 \<le> slack_of s b i" "slack_of s b i \<le> b" if "0 \<le> i" for i
    using slack_range[OF b(1,3), of s i] s that by (simp_all add: session_config_def)
  have gap: "u o1 + 2 \<le> u o2"
  proof -
    have "slack_of s b o2 \<le> slack_of s b o1" using s o1 by (intro slack_antimono) (auto simp: session_config_def)
    moreover have "(of_int (2 * o1) :: real) + 2 \<le> of_int (2 * o2)" using o1(2) by simp
    ultimately show ?thesis by (simp only: u_def)
  qed
  have c: "0 \<le> c" "c \<le> 2 ^ 40"
  proof -
    have t: "0 \<le> fl (1 / 10)" "fl (1 / 10) \<le> 1" by (auto intro: fl_le_1)
    show "0 \<le> c" using t b by (simp add: c_def)
    have "fl (1 / 10) * b \<le> 1 * b" using t b by (intro mult_right_mono) auto
    then have "c \<le> b" unfolding c_def using b(3) by (intro fl_le_iff_float) auto
    then show "c \<le> 2 ^ 40" using b(2) by linarith
  qed
  have p: "(2::real) powi 41 = 2 * 2 ^ 40" "(2::real) powi 42 = 4 * 2 ^ 40" "(2::real) powi (41 - 54) = 1 / 2 ^ 13"
    "(2::real) powi (42 - 54) = 1 / 2 ^ 12" by (simp_all add: power_int_def power_divide)
  have fu: "\<bar>fl (u i) - u i\<bar> \<le> 1 / 2 ^ 13" "\<bar>u i\<bar> \<le> 2 ^ 40" if "0 \<le> i" "i \<le> 2 ^ 38" for i
  proof -
    have "u i \<le> 2 ^ 39" "- (2 ^ 40) \<le> u i" using bnd[OF that] sl[OF that(1)] b(2) unfolding u_def by linarith+
    then have "\<bar>u i\<bar> \<le> 2 ^ 40" by (simp add: abs_le_iff)
    moreover then have "\<bar>u i\<bar> < 2 powi 41" unfolding p by simp
    ultimately show "\<bar>fl (u i) - u i\<bar> \<le> 1 / 2 ^ 13" "\<bar>u i\<bar> \<le> 2 ^ 40" using fl_error_abs[of "u i" 41] unfolding p by simp_all
  qed
  have fp: "\<bar>fl (fl (u i) - c) - (fl (u i) - c)\<bar> \<le> 1 / 2 ^ 12" if "0 \<le> i" "i \<le> 2 ^ 38" for i
  proof -
    have "\<bar>fl (u i) - c\<bar> < 2 powi 42" unfolding p using fu[OF that] c by (simp add: abs_if split: if_splits)
    then show ?thesis using fl_error_abs[of "fl (u i) - c" 42] unfolding p by simp
  qed
  have r: "0 \<le> o2" "o1 \<le> 2 ^ 38" using o1 by auto
  have "fl (fl (u o1) - c) < fl (fl (u o2) - c)"
    using fp[OF o1(1) r(2)] fp[OF r(1) o1(3)] fu(1)[OF o1(1) r(2)] fu(1)[OF r(1) o1(3)] gap
    unfolding abs_le_iff by simp
  then show ?thesis using pr[OF o1(1) r(2)] pr[OF r(1) o1(3)] by simp
qed

section \<open>A round of scheduling\<close>

lemma push_fields:
  "sched_heap (push k pr d s) = heappush (ScheduledTask pr d (next_seq s) k) (sched_heap s)"
  "ds_duration (push k pr d s') = ds_duration s'" "urgency_weight (push k pr d s') = urgency_weight s'"
  "buffer_bonus (push k pr d s') = buffer_bonus s'"
  by (simp_all add: push_def)

lemma priority_of_push: "priority_of (push k pr d s) b i = priority_of s b i"
  by (simp add: priority_of_def slack_of_def push_fields)

lemma schedule_offsets_spec:
  "heap (sched_heap s) \<Longrightarrow>
   \<exists>ts. heap (sched_heap (schedule_offsets f now b os s))
     \<and> mset (sched_heap (schedule_offsets f now b os s)) = mset (sched_heap s) + mset ts
     \<and> map task_segment ts = map ((+) f) os \<and> map task_priority ts = map (priority_of s b) os
     \<and> (session_config (schedule_offsets f now b os s) \<longleftrightarrow> session_config s)"
proof (induction os arbitrary: s)
  case (Cons i os)
  let ?t = "ScheduledTask (priority_of s b i) (deadline_of s now b i) (next_seq s) (f + i)"
  let ?s = "push (f + i) (priority_of s b i) (deadline_of s now b i) s"
  have "heap (sched_heap ?s)" using heapq.good_put[OF Cons.prems] by (simp add: push_fields)
  from Cons.IH[OF this] obtain ts where ts:
    "heap (sched_heap (schedule_offsets f now b os ?s))"
    "mset (sched_heap (schedule_offsets f now b os ?s)) = mset (sched_heap ?s) + mset ts"
    "map task_segment ts = map ((+) f) os" "map task_priority ts = map (priority_of ?s b) os"
    "session_config (schedule_offsets f now b os ?s) \<longleftrightarrow> session_config ?s" by blast
  moreover have "mset (sched_heap ?s) = add_mset ?t (mset (sched_heap s))"
    using heapq.elems_put[OF Cons.prems, of ?t] by (simp add: push_fields)
  moreover have "priority_of ?s b = priority_of s b" by (intro ext) (rule priority_of_push)
  moreover have "session_config ?s \<longleftrightarrow> session_config s" by (simp add: session_config_def push_fields)
  ultimately show ?case by (intro exI[of _ "?t # ts"]) simp
qed simp

text \<open>
  What keeps the order of the segments: below every waiting task there is, for each earlier segment
  that is still to come, a task of that segment that is more urgent.
\<close>

definition in_order :: "int \<Rightarrow> scheduled_task set \<Rightarrow> bool" where
  "in_order f T \<longleftrightarrow> (\<forall>t\<in>T. \<forall>j. f \<le> j \<longrightarrow> j < task_segment t \<longrightarrow> (\<exists>t'\<in>T. task_segment t' = j \<and> t' < t))"

lemma in_order_Un: "in_order f S \<Longrightarrow> in_order f T \<Longrightarrow> in_order f (S \<union> T)"
  unfolding in_order_def by blast

lemma in_order_remove:
  assumes "in_order f (insert t T)" and "task_segment t < g" and "f \<le> g"
  shows "in_order g T"
  unfolding in_order_def
proof (intro ballI allI impI)
  fix s j assume "s \<in> T" "g \<le> j" "j < task_segment s"
  then obtain t' where "t' \<in> insert t T" "task_segment t' = j" "t' < s"
    using assms(1,3) unfolding in_order_def by (meson insertI2 order_trans)
  then show "\<exists>t'\<in>T. task_segment t' = j \<and> t' < s" using assms(2) \<open>g \<le> j\<close> by auto
qed

lemma round_in_order:
  assumes s: "session_config s" and b: "0 \<le> b" "b \<le> 2 ^ 40" "is_float b" and n: "n \<le> 2 ^ 38"
    and ts: "map task_segment ts = map ((+) f) (iota n)" "map task_priority ts = map (priority_of s b) (iota n)"
  shows "in_order f (set ts)"
proof -
  have len: "length ts = nat n" using arg_cong[OF ts(1), of length] by simp
  have nth: "task_segment (ts ! k) = f + int k" "task_priority (ts ! k) = priority_of s b (int k)" if "k < nat n" for k
    using arg_cong[OF ts(1), of "\<lambda>l. l ! k"] arg_cong[OF ts(2), of "\<lambda>l. l ! k"] that len by (simp_all add: iota_def)
  show ?thesis unfolding in_order_def
  proof (intro ballI allI impI)
    fix t j assume t: "t \<in> set ts" "f \<le> j" "j < task_segment t"
    then obtain k where k: "k < nat n" "t = ts ! k" by (auto simp: in_set_conv_nth len)
    let ?i = "nat (j - f)"
    have i: "?i < k" "?i < nat n" "int ?i = j - f" using t k nth by auto
    have "priority_of s b (int ?i) < priority_of s b (int k)"
      using i(1) k(1) n by (intro priority_step[OF s b]) auto
    then have "ts ! ?i < t" using k nth i(2) by (intro task_less) simp
    moreover have "task_segment (ts ! ?i) = j" using nth(1)[OF i(2)] i(3) by simp
    ultimately show "\<exists>t'\<in>set ts. task_segment t' = j \<and> t' < t" using i(2) len nth_mem[of ?i ts] by auto
  qed
qed

lemma drop_stale_in_order:
  "heap (sched_heap s) \<Longrightarrow> in_order f (set (sched_heap s)) \<Longrightarrow> \<exists>t\<in>set (sched_heap s). task_segment t = f \<Longrightarrow>
   \<exists>t h. drop_stale f s = (Some t, s\<lparr>sched_heap := h\<rparr>) \<and> task_segment t = f \<and> heap h \<and> in_order (f + 1) (set h)"
proof (induction f s rule: drop_stale.induct)
  case (1 f s)
  from "1.prems"(1) show ?case
  proof (cases rule: heapq.next_cases)
    case 1
    then have "sched_heap s = []" by simp
    then show ?thesis using "1.prems"(3) by simp
  next
    case (2 t h)
    have set: "set (sched_heap s) = insert t (set h)" using arg_cong[OF 2(3), of set_mset] by simp
    have le: "t \<le> u" if "u \<in> set (sched_heap s)" for u using 2(4) that by (simp only: set_mset_mset)
    show ?thesis
    proof (cases "task_segment t < f")
      case True
      have "in_order f (set h)" using in_order_remove[of f t "set h" f] "1.prems"(2) True set by simp
      moreover have "\<exists>t\<in>set h. task_segment t = f" using "1.prems"(3) True set by auto
      ultimately obtain t' h' where "drop_stale f (s\<lparr>sched_heap := h\<rparr>) = (Some t', s\<lparr>sched_heap := h'\<rparr>)"
        "task_segment t' = f" "heap h'" "in_order (f + 1) (set h')"
        using "1.IH"[OF 2(1) refl True] 2(2) by auto
      then show ?thesis using True 2(1) by (subst drop_stale.simps) (simp, blast)
    next
      case False
      have "task_segment t = f"
      proof (rule ccontr)
        assume "task_segment t \<noteq> f"
        then have "f < task_segment t" using False by simp
        then obtain t' where "t' \<in> set (sched_heap s)" "t' < t"
          using "1.prems"(2) set unfolding in_order_def by blast
        then show False using le[of t'] by simp
      qed
      moreover have "in_order (f + 1) (set h)"
        using in_order_remove[of f t "set h" "f + 1"] "1.prems"(2) calculation set by simp
      ultimately show ?thesis using False 2(1,2) by (subst drop_stale.simps) (simp, blast)
    qed
  qed
qed

text \<open>The calls of a session: the \<open>i\<close>-th asks from segment \<open>i\<close>, at some time and buffer level.\<close>

fun session_order :: "int \<Rightarrow> int \<Rightarrow> (real \<times> real) list \<Rightarrow> deadline_scheduler \<Rightarrow> int list" where
  "session_order from_seg lookahead [] s = []"
| "session_order from_seg lookahead ((now, b) # obs) s =
     (let (k, s') = next_segment from_seg lookahead now b s
      in k # session_order (from_seg + 1) lookahead obs s')"

definition level_ok :: "real \<Rightarrow> bool" where
  "level_ok b \<longleftrightarrow> 0 \<le> b \<and> b \<le> 2 ^ 40 \<and> is_float b"

definition sched_ok :: "int \<Rightarrow> deadline_scheduler \<Rightarrow> bool" where
  "sched_ok f s \<longleftrightarrow> session_config s \<and> heap (sched_heap s) \<and> in_order f (set (sched_heap s))"

lemma next_segment_in_order:
  assumes s: "sched_ok f s" and b: "level_ok b" and n: "1 \<le> n" "n \<le> 2 ^ 38"
  shows "fst (next_segment f n now b s) = f \<and> sched_ok (f + 1) (snd (next_segment f n now b s))"
proof -
  have s': "session_config s" "heap (sched_heap s)" "in_order f (set (sched_heap s))"
    using s by (simp_all add: sched_ok_def)
  let ?s = "schedule_upcoming f n now b s"
  obtain ts where ts: "heap (sched_heap ?s)" "mset (sched_heap ?s) = mset (sched_heap s) + mset ts"
    "map task_segment ts = map ((+) f) (iota n)" "map task_priority ts = map (priority_of s b) (iota n)"
    "session_config ?s"
    using schedule_offsets_spec[OF s'(2), of f now b "iota n"] s'(1) unfolding schedule_upcoming_def by blast
  have set: "set (sched_heap ?s) = set (sched_heap s) \<union> set ts" using arg_cong[OF ts(2), of set_mset] by simp
  have "in_order f (set ts)" using b n by (intro round_in_order[OF s'(1) _ _ _ n(2) ts(3,4)]) (auto simp: level_ok_def)
  then have io: "in_order f (set (sched_heap ?s))" unfolding set by (intro in_order_Un s'(3))
  have "f \<in> set (map task_segment ts)" unfolding ts(3) using n(1) by force
  then have "\<exists>t\<in>set (sched_heap ?s). task_segment t = f" unfolding set by auto
  from drop_stale_in_order[OF ts(1) io this] obtain t h where
    "drop_stale f ?s = (Some t, ?s\<lparr>sched_heap := h\<rparr>)" "task_segment t = f" "heap h" "in_order (f + 1) (set h)" by blast
  then show ?thesis using ts(5) by (simp add: next_segment_def sched_ok_def session_config_def)
qed

lemma session_order_iota:
  "sched_ok f s \<Longrightarrow> \<forall>(now, b)\<in>set obs. level_ok b \<Longrightarrow> 1 \<le> n \<Longrightarrow> n \<le> 2 ^ 38 \<Longrightarrow>
   session_order f n obs s = map (\<lambda>i. f + int i) [0..<length obs]"
proof (induction obs arbitrary: f s)
  case (Cons o' obs)
  obtain now b where o': "o' = (now, b)" by force
  have "fst (next_segment f n now b s) = f" "sched_ok (f + 1) (snd (next_segment f n now b s))"
    using next_segment_in_order[OF Cons.prems(1) _ Cons.prems(3,4)] Cons.prems(2) o' by auto
  then show ?case using Cons.IH[of "f + 1"] Cons.prems o'
    by (simp add: case_prod_beta map_upt_Suc add.assoc del: upt_Suc)
qed simp

lemma deadline_init_ok: "sched_ok f (deadline_init 2 1 (fl (1 / 10)))"
  by (simp add: sched_ok_def deadline_init_def session_config_def heap_def in_order_def)

section \<open>The queue the segment scheduler promises\<close>

text \<open>
  The abstract queue is the list of the waiting segments in the order they come out, each with its
  priority and deadline.  A new one goes behind every waiting one that is not less urgent: smaller
  priority first, then the earlier deadline, and first in, first out among equals.
\<close>

type_synonym waiting = "real \<times> real \<times> int"

fun not_after :: "waiting \<Rightarrow> waiting \<Rightarrow> bool" where
  "not_after (p, d, k) (p', d', k') \<longleftrightarrow> p < p' \<or> p = p' \<and> d \<le> d'"

definition enter :: "waiting \<Rightarrow> waiting list \<Rightarrow> waiting list" where
  "enter w q = takeWhile (\<lambda>v. not_after v w) q @ w # dropWhile (\<lambda>v. not_after v w) q"

datatype sched_op = Call_push int real real | Call_pop | Call_peek | Call_len

datatype sched_answer = Pushed | Given "waiting option" | Held int

fun queue_call :: "sched_op \<Rightarrow> waiting list \<Rightarrow> sched_answer \<times> waiting list" where
  "queue_call (Call_push k p d) q = (Pushed, enter (p, d, k) q)"
| "queue_call Call_pop q = (case q of [] \<Rightarrow> (Given None, []) | w # q' \<Rightarrow> (Given (Some w), q'))"
| "queue_call Call_peek q = (Given (case q of [] \<Rightarrow> None | w # _ \<Rightarrow> Some w), q)"
| "queue_call Call_len q = (Held (int (length q)), q)"

text \<open>The same calls on the scheduler; of a task, the caller sees priority, deadline and segment.\<close>

definition waiting_of :: "scheduled_task \<Rightarrow> waiting" where
  "waiting_of t = (task_priority t, task_deadline t, task_segment t)"

fun scheduler_call :: "sched_op \<Rightarrow> segment_scheduler \<Rightarrow> sched_answer \<times> segment_scheduler" where
  "scheduler_call (Call_push k p d) s = (Pushed, push k p d s)"
| "scheduler_call Call_pop s = (let (t, s') = pop s in (Given (map_option waiting_of t), s'))"
| "scheduler_call Call_peek s = (Given (map_option waiting_of (peek s)), s)"
| "scheduler_call Call_len s = (Held (scheduler_len s), s)"

fun call_answers :: "(sched_op \<Rightarrow> 'q \<Rightarrow> sched_answer \<times> 'q) \<Rightarrow> sched_op list \<Rightarrow> 'q \<Rightarrow> sched_answer list" where
  "call_answers f [] q = []"
| "call_answers f (c # cs) q = (let (r, q') = f c q in r # call_answers f cs q')"

text \<open>The abstraction: the queue is the heap, sorted.\<close>

definition queue_of :: "segment_scheduler \<Rightarrow> waiting list" where
  "queue_of s = map waiting_of (sort (sched_heap s))"

definition sched_wf :: "segment_scheduler \<Rightarrow> bool" where
  "sched_wf s \<longleftrightarrow> heap (sched_heap s) \<and> (\<forall>t\<in>set (sched_heap s). task_sequence t < next_seq s)"

lemma sort_add:
  assumes "mset xs = add_mset x (mset ys)"
  shows "sort xs = insort x (sort ys)"
  using assms by (intro properties_for_sort) (simp_all add: sorted_insort)

lemma sort_least:
  assumes "mset xs = add_mset x (mset ys)" and "\<forall>y\<in>set xs. x \<le> y"
  shows "sort xs = x # sort ys"
proof -
  have "set xs = insert x (set ys)" using arg_cong[OF assms(1), of set_mset] by simp
  then show ?thesis using assms by (intro properties_for_sort) simp_all
qed

text \<open>A task with the largest sequence number goes behind its equals.\<close>

lemma task_le_latest:
  assumes "task_sequence x < task_sequence t"
  shows "t \<le> x \<longleftrightarrow> \<not> not_after (waiting_of x) (waiting_of t)"
  using assms by (auto simp: less_eq_scheduled_task_def task_key_def waiting_of_def)

lemma insort_latest:
  "\<forall>x\<in>set xs. task_sequence x < task_sequence t \<Longrightarrow>
   map waiting_of (insort t xs) = enter (waiting_of t) (map waiting_of xs)"
  by (induction xs) (auto simp: enter_def task_le_latest)

lemma heap_next_sorted:
  assumes "heap h" and "heappop h = Some (t, h')"
  shows "sort h = t # sort h'" and "h ! 0 = t" and "h \<noteq> []"
proof -
  have m: "mset h = add_mset t (mset h')" "\<forall>y\<in>set h. t \<le> y"
    using heappop_Some[OF assms] by simp_all
  then show "sort h = t # sort h'" by (rule sort_least)
  have t: "t \<in> set h" using arg_cong[OF m(1), of set_mset] by simp
  then show ne: "h \<noteq> []" by auto
  have "h ! 0 \<le> t" using t heap_first_least[OF assms(1)] by (auto simp: in_set_conv_nth)
  moreover have "t \<le> h ! 0" using m(2) ne by simp
  ultimately show "h ! 0 = t" by simp
qed

lemma push_refines:
  assumes "sched_wf s"
  shows "sched_wf (push k p d s) \<and> queue_of (push k p d s) = enter (p, d, k) (queue_of s)"
proof -
  let ?t = "ScheduledTask p d (next_seq s) k"
  have h: "heap (sched_heap s)" and q: "\<forall>x\<in>set (sched_heap s). task_sequence x < task_sequence ?t"
    using assms by (simp_all add: sched_wf_def)
  have m: "mset (sched_heap (push k p d s)) = add_mset ?t (mset (sched_heap s))"
    using heapq.elems_put[OF h] by (simp add: push_fields)
  have "set (sched_heap (push k p d s)) = insert ?t (set (sched_heap s))"
    using arg_cong[OF m, of set_mset] by simp
  then have "sched_wf (push k p d s)"
    using heapq.good_put[OF h] q by (auto simp: sched_wf_def push_def)
  moreover have "queue_of (push k p d s) = enter (p, d, k) (queue_of s)"
    using insort_latest[of "sort (sched_heap s)" ?t] q
    by (simp add: queue_of_def sort_add[OF m] waiting_of_def)
  ultimately show ?thesis by simp
qed

lemma call_refines:
  assumes "sched_wf s"
  shows "sched_wf (snd (scheduler_call c s)) \<and> fst (scheduler_call c s) = fst (queue_call c (queue_of s))
    \<and> queue_of (snd (scheduler_call c s)) = snd (queue_call c (queue_of s))"
proof -
  have h: "heap (sched_heap s)" using assms by (simp add: sched_wf_def)
  show ?thesis
  proof (cases c)
    case (Call_push k p d)
    then show ?thesis using push_refines[OF assms] by simp
  next
    case Call_len
    then show ?thesis using assms by (simp add: queue_of_def scheduler_len_def)
  next
    case Call_pop
    show ?thesis
    proof (cases rule: heapq.next_cases[OF h])
      case 1
      then show ?thesis using Call_pop assms by (simp add: pop_def queue_of_def)
    next
      case (2 t h')
      have "set h' \<subseteq> set (sched_heap s)" using arg_cong[OF 2(3), of set_mset] by auto
      then show ?thesis using Call_pop assms 2(1,2) heap_next_sorted(1)[OF h 2(1)]
        by (auto simp: pop_def queue_of_def sched_wf_def)
    qed
  next
    case Call_peek
    show ?thesis
    proof (cases rule: heapq.next_cases[OF h])
      case 1
      then show ?thesis using Call_peek assms by (simp add: peek_def queue_of_def)
    next
      case (2 t h')
      then show ?thesis using Call_peek assms heap_next_sorted[OF h 2(1)] by (simp add: peek_def queue_of_def)
    qed
  qed
qed

lemma answers_refine: "sched_wf s \<Longrightarrow> call_answers scheduler_call cs s = call_answers queue_call cs (queue_of s)"
proof (induction cs arbitrary: s)
  case (Cons c cs)
  then show ?case using call_refines[OF Cons.prems, of c] by (simp add: case_prod_beta)
qed simp

section \<open>Properties\<close>


text \<open>A run with a tie, as both answer it.\<close>

lemma scheduler_calls_example:
  "call_answers scheduler_call [Call_push 7 1 5, Call_push 3 1 5, Call_push 9 0 8, Call_push 2 1 4, Call_pop, Call_pop, Call_peek, Call_pop, Call_len, Call_pop, Call_pop] scheduler_init =
     [Pushed, Pushed, Pushed, Pushed, Given (Some (0, 8, 9)), Given (Some (1, 4, 2)), Given (Some (1, 5, 7)),
      Given (Some (1, 5, 7)), Held 1, Given (Some (1, 5, 3)), Given None]"
  by code_simp

text \<open>\<open>pop\<close> takes the most urgent task and nothing else, \<open>peek\<close> shows it, and both agree on when
  there is none; on a heap, every operation leaves a heap.\<close>

lemma scheduler_pop_least:
  assumes "heap (sched_heap s)"
  shows "(case pop s of
      (None, s') \<Rightarrow> s' = s \<and> sched_heap s = [] \<and> peek s = None
    | (Some t, s') \<Rightarrow> peek s = Some t \<and> heap (sched_heap s') \<and> (\<forall>u\<in>set (sched_heap s). t \<le> u)
        \<and> mset (sched_heap s) = add_mset t (mset (sched_heap s')) \<and> next_seq s' = next_seq s
        \<and> scheduler_len s' = scheduler_len s - 1)
    \<and> heap (sched_heap (push k pr d s))
    \<and> mset (sched_heap (push k pr d s)) = add_mset (ScheduledTask pr d (next_seq s) k) (mset (sched_heap s))"
proof -
  have pk: "peek s = Some t" if "heappop (sched_heap s) = Some (t, h)" for t h
  proof -
    have ne: "sched_heap s \<noteq> []" using that by (auto simp: heappop_def)
    then have "t \<le> sched_heap s ! 0"
      using heapq.next_least[OF assms that, of "sched_heap s ! 0"] by simp
    moreover have "sched_heap s ! 0 \<le> t"
      using heapq.elems_next[OF assms that] heap_first_least[OF assms]
      by (metis in_set_conv_nth set_mset_mset union_single_eq_member)
    ultimately show ?thesis using ne by (simp add: peek_def)
  qed
  have len: "length (sched_heap s) = Suc (length h)" if "heappop (sched_heap s) = Some (t, h)" for t h
    using arg_cong[OF heapq.elems_next[OF assms that], of size] by simp
  show ?thesis
    using heapq.good_put[OF assms] heapq.elems_put[OF assms]
  proof (cases rule: heapq.next_cases[OF assms])
    case 1
    then show ?thesis using heapq.good_put[OF assms] heapq.elems_put[OF assms]
      by (simp add: pop_def peek_def push_fields)
  next
    case (2 t h)
    have "\<forall>u\<in>set (sched_heap s). t \<le> u" using 2(4) by (simp only: set_mset_mset)
    then show ?thesis using 2 heapq.good_put[OF assms] heapq.elems_put[OF assms] pk len
      by (simp add: pop_def push_fields scheduler_len_def)
  qed
qed

lemma scheduler_pop_least_example:
  "(case pop (push 3 2 7 scheduler_init) of
      (None, s') \<Rightarrow> s' = push 3 2 7 scheduler_init \<and> sched_heap (push 3 2 7 scheduler_init) = []
        \<and> peek (push 3 2 7 scheduler_init) = None
    | (Some t, s') \<Rightarrow> peek (push 3 2 7 scheduler_init) = Some t \<and> heap (sched_heap s')
        \<and> (\<forall>u\<in>set (sched_heap (push 3 2 7 scheduler_init)). t \<le> u)
        \<and> mset (sched_heap (push 3 2 7 scheduler_init)) = add_mset t (mset (sched_heap s'))
        \<and> next_seq s' = next_seq (push 3 2 7 scheduler_init)
        \<and> scheduler_len s' = scheduler_len (push 3 2 7 scheduler_init) - 1)
    \<and> heap (sched_heap (push 4 (1 / 2) 9 (push 3 2 7 scheduler_init)))
    \<and> mset (sched_heap (push 4 (1 / 2) 9 (push 3 2 7 scheduler_init))) =
        add_mset (ScheduledTask (1 / 2) 9 (next_seq (push 3 2 7 scheduler_init)) 4)
          (mset (sched_heap (push 3 2 7 scheduler_init)))"
  by (rule scheduler_pop_least) (simp add: push_fields scheduler_init_def heappush_heap[of "[]"] heap_def[of "[]"])

text \<open>Segments are fetched in order: with the session's scheduler (segments of two seconds, weight
  1, bonus 0.1) and any look-ahead, at whatever times and buffer levels the calls are made, the
  \<open>i\<close>-th call of \<open>next_segment\<close> from segment \<open>i\<close> on returns that very segment: no stale task of an
  earlier round, scheduled at another buffer level, ever overtakes it.\<close>

lemma scheduler_in_order:
  assumes "\<forall>(now, b)\<in>set obs. 0 \<le> b \<and> b \<le> 2 ^ 40 \<and> is_float b" and "1 \<le> n" "n \<le> 2 ^ 38"
  shows "session_order f n obs (deadline_init 2 1 (fl (1 / 10))) = map (\<lambda>i. f + int i) [0..<length obs]"
  using session_order_iota[OF deadline_init_ok] assms by (simp add: level_ok_def)

lemma scheduler_in_order_example:
  "session_order 1 3 [(0, 0), (5, 60), (9, 1), (10, 0)] (deadline_init 2 1 (fl (1 / 10))) = [1, 2, 3, 4]"
  using scheduler_in_order[of "[(0, 0), (5, 60), (9, 1), (10, 0)]" 3 1] by (simp add: upt_rec)

end
