(* ===== verification/World.thy ===== *)
theory World
  imports PyFloat Prelude
begin

text \<open>
  What the client's threads take from the operating system besides sockets: clocks and sleeping.
  Each clock is a function from the number of readings made so far, so nothing is assumed of the
  time that passes between two readings; a property that needs a monotone clock says so.  The
  sleeps that were asked for are recorded.
\<close>

record world =
  mono_clock :: "nat \<Rightarrow> real"
  perf_clock :: "nat \<Rightarrow> real"
  wall_clock :: "nat \<Rightarrow> real"
  ticks :: nat
  sleeps :: "real list"

definition monotonic :: "'a world_scheme \<Rightarrow> real \<times> 'a world_scheme" where
  "monotonic w = (mono_clock w (ticks w), w\<lparr>ticks := ticks w + 1\<rparr>)"

definition perf_counter :: "'a world_scheme \<Rightarrow> real \<times> 'a world_scheme" where
  "perf_counter w = (perf_clock w (ticks w), w\<lparr>ticks := ticks w + 1\<rparr>)"

definition wall_time :: "'a world_scheme \<Rightarrow> real \<times> 'a world_scheme" where
  "wall_time w = (wall_clock w (ticks w), w\<lparr>ticks := ticks w + 1\<rparr>)"

definition sleep :: "real \<Rightarrow> 'a world_scheme \<Rightarrow> 'a world_scheme" where
  "sleep d w = w\<lparr>sleeps := sleeps w @ [d]\<rparr>"

lemmas world_defs = monotonic_def perf_counter_def wall_time_def sleep_def

definition no_world :: world where
  "no_world = \<lparr>mono_clock = (\<lambda>_. 0), perf_clock = (\<lambda>n. of_nat n), wall_clock = (\<lambda>_. 0), ticks = 0, sleeps = []\<rparr>"

end
