(* ===== verification/Network.thy ===== *)
theory Network
  imports SocketClient World Throughput
begin

text \<open>
  \<open>client/network/shaper.py\<close> and \<open>client/network/downloader.py\<close>: the client-side model of a slow
  network, and the download of one segment with its measured throughput.  The shaper's clock and
  sleeper are the ones of \<open>world\<close>.
\<close>

section \<open>The shaper\<close>

record network_shaper =
  sh_name :: json
  latency_s :: real
  packet_loss :: real
  timeline :: "(real \<times> real) list"
  sh_start :: "real option"

text \<open>Iterating over a parsed document: lists, the keys of an object, the characters of a string.\<close>

fun json_iter :: "json \<Rightarrow> json list result" where
  "json_iter (JList xs) = Inr xs"
| "json_iter (JObj kvs) = Inr (map (\<lambda>(k, v). JStr k) kvs)"
| "json_iter (JStr s) = Inr (map (\<lambda>c. JStr [c]) s)"
| "json_iter _ = Inl TypeError"

text \<open>
  A profile with a number that is not finite is outside the model: the constructor then has the
  value \<open>Inr None\<close>.
\<close>

definition bind_finite :: "xfloat result \<Rightarrow> (real \<Rightarrow> 'b option result) \<Rightarrow> 'b option result" where
  "bind_finite m k = bind_res m (\<lambda>x. case x of Finite r \<Rightarrow> k r | _ \<Rightarrow> Inr None)"

fun timeline_steps :: "json list \<Rightarrow> (real \<times> real) list option result" where
  "timeline_steps [] = Inr (Some [])"
| "timeline_steps (step # steps) =
     bind_res (json_item step (u ''t'')) (\<lambda>tj.
     bind_finite (json_float tj) (\<lambda>t.
     bind_res (json_item step (u ''mbps'')) (\<lambda>mj.
     bind_finite (json_float mj) (\<lambda>m.
     bind_res (timeline_steps steps) (\<lambda>r.
     Inr (case r of None \<Rightarrow> None | Some xs \<Rightarrow> Some ((t, fl (m * 1000000)) # xs)))))))"

definition default_timeline :: json where
  "default_timeline = JList [JObj [(u ''t'', JInt 0), (u ''mbps'', JInt 10)]]"

definition shaper_init :: "json \<Rightarrow> network_shaper option result" where
  "shaper_init profile =
     bind_res (json_get profile (u ''name'')) (\<lambda>name.
     bind_res (json_get profile (u ''latency_ms'')) (\<lambda>lat.
     bind_finite (json_float (or_default lat (JInt 0))) (\<lambda>ms.
     bind_res (json_get profile (u ''packet_loss'')) (\<lambda>pl.
     bind_finite (json_float (or_default pl (JFloat (Finite 0)))) (\<lambda>loss.
     bind_res (json_get profile (u ''timeline'')) (\<lambda>tl.
     bind_res (json_iter (or_default tl default_timeline)) (\<lambda>steps.
     bind_res (timeline_steps steps) (\<lambda>r.
     Inr (case r of
            None \<Rightarrow> None
          | Some xs \<Rightarrow>
              Some \<lparr>sh_name = or_default name (JStr (u ''custom'')), latency_s = fl (ms / 1000),
                    packet_loss = loss, timeline = sort_key fst xs, sh_start = None\<rparr>)))))))))"

text \<open>\<open>from_file\<close>, given what reading and parsing the file comes to.\<close>

definition from_file :: "json result \<Rightarrow> network_shaper option result" where
  "from_file doc = bind_res doc shaper_init"

text \<open>\<open>start\<close>: the first call anchors the timeline, later calls change nothing.\<close>

definition shaper_start :: "network_shaper \<Rightarrow> world \<Rightarrow> network_shaper \<times> world" where
  "shaper_start s w =
     (case sh_start s of
        Some _ \<Rightarrow> (s, w)
      | None \<Rightarrow> (let (t, w') = monotonic w in (s\<lparr>sh_start := Some t\<rparr>, w')))"

text \<open>The loop over the sorted timeline.\<close>

fun cap_loop :: "real \<Rightarrow> real \<Rightarrow> (real \<times> real) list \<Rightarrow> real" where
  "cap_loop elapsed cap [] = cap"
| "cap_loop elapsed cap ((t, bps) # steps) = (if elapsed \<ge> t then cap_loop elapsed bps steps else cap)"

definition current_cap_bps :: "network_shaper \<Rightarrow> world \<Rightarrow> real result \<times> network_shaper \<times> world" where
  "current_cap_bps s w =
     (let (s1, w1) = shaper_start s w;
          (t, w2) = monotonic w1;
          elapsed = fl (t - (case sh_start s1 of Some t0 \<Rightarrow> t0 | None \<Rightarrow> 0))
      in (bind_res (py_nth (timeline s1) 0) (\<lambda>p. Inr (cap_loop elapsed (snd p) (timeline s1))), s1, w2))"

definition apply_request_latency :: "network_shaper \<Rightarrow> world \<Rightarrow> world" where
  "apply_request_latency s w = (if latency_s s > 0 then sleep (latency_s s) w else w)"

text \<open>The time that a transfer of \<open>n\<close> bytes needs at a cap.\<close>

definition required_time :: "int \<Rightarrow> real \<Rightarrow> real" where
  "required_time n cap = fl (fl (of_int (n * 8)) / cap)"

definition apply_download_delay ::
    "int \<Rightarrow> real \<Rightarrow> network_shaper \<Rightarrow> world \<Rightarrow> real result \<times> network_shaper \<times> world" where
  "apply_download_delay num_bytes elapsed s w =
     (case current_cap_bps s w of
        (Inl e, s1, w1) \<Rightarrow> (Inl e, s1, w1)
      | (Inr cap, s1, w1) \<Rightarrow>
          if cap \<le> 0 then (Inr 0, s1, w1)
          else let required = required_time num_bytes cap in
               if elapsed < required
               then let extra = fl (required - elapsed) in (Inr extra, s1, sleep extra w1)
               else (Inr 0, s1, w1))"

section \<open>The downloader\<close>

record segment_download =
  sd_rep :: pystr
  sd_segment :: int
  sd_bitrate :: int
  sd_duration :: xfloat
  sd_size :: int
  sd_download_time :: real
  sd_throughput :: real
  sd_data :: pybytes
  sd_status :: int

record downloader =
  dl_client :: socket_client
  dl_shaper :: "network_shaper option"

definition throughput_of :: "int \<Rightarrow> real \<Rightarrow> real" where
  "throughput_of n elapsed = (if elapsed > 0 then fl (fl (of_int (n * 8)) / elapsed) else 0)"

text \<open>The start and the latency before the request, and the delay after a successful one.\<close>

definition shape_before :: "downloader \<Rightarrow> world \<Rightarrow> downloader \<times> world" where
  "shape_before d w =
     (case dl_shaper d of
        None \<Rightarrow> (d, w)
      | Some s \<Rightarrow> (let (s1, w1) = shaper_start s w
                  in (d\<lparr>dl_shaper := Some s1\<rparr>, apply_request_latency s1 w1)))"

definition shape_after :: "int \<Rightarrow> int \<Rightarrow> real \<Rightarrow> downloader \<Rightarrow> world \<Rightarrow> real result \<times> downloader \<times> world" where
  "shape_after status n elapsed d w =
     (case dl_shaper d of
        None \<Rightarrow> (Inr elapsed, d, w)
      | Some s \<Rightarrow>
          if status \<noteq> 200 then (Inr elapsed, d, w)
          else (let (r, s1, w1) = apply_download_delay n elapsed s w
                in (bind_res r (\<lambda>extra. Inr (fl (elapsed + extra))), d\<lparr>dl_shaper := Some s1\<rparr>, w1)))"

definition download :: "pystr \<Rightarrow> int \<Rightarrow> downloader \<Rightarrow> world \<Rightarrow> segment_download result \<times> downloader \<times> world" where
  "download rep segment_id d w =
     (let (d1, w1) = shape_before d w;
          (t0, w2) = perf_counter w1;
          (r, c) = fetch rep segment_id (dl_client d1);
          d2 = d1\<lparr>dl_client := c\<rparr>
      in case r of
           Inl e \<Rightarrow> (Inl e, d2, w2)
         | Inr (header, data) \<Rightarrow>
             (let (t1, w3) = perf_counter w2;
                  n = int (length data);
                  (re, d3, w4) = shape_after (STATUS header) n (fl (t1 - t0)) d2 w3
              in (bind_res re (\<lambda>elapsed.
                    Inr \<lparr>sd_rep = rep, sd_segment = segment_id, sd_bitrate = BITRATE header,
                         sd_duration = DURATION header, sd_size = n, sd_download_time = elapsed,
                         sd_throughput = throughput_of n elapsed, sd_data = data,
                         sd_status = STATUS header\<rparr>), d3, w4)))"

section \<open>The cap in force\<close>

lemma cap_loop_last:
  "cap_loop e cap steps = (if takeWhile (\<lambda>p. fst p \<le> e) steps = [] then cap
     else snd (last (takeWhile (\<lambda>p. fst p \<le> e) steps)))"
  by (induction e cap steps rule: cap_loop.induct) auto

lemma sorted_takeWhile_filter:
  fixes steps :: "(real \<times> real) list"
  shows "sorted (map fst steps) \<Longrightarrow> takeWhile (\<lambda>p. fst p \<le> e) steps = filter (\<lambda>p. fst p \<le> e) steps"
proof (induction steps)
  case (Cons p steps)
  have "\<not> fst q \<le> e" if "\<not> fst p \<le> e" "q \<in> set steps" for q
    using Cons.prems that by fastforce
  then show ?case using Cons by (auto simp: empty_filter_conv)
qed simp

section \<open>Shaped throughput\<close>

lemma slowdown_arith: "(1 + ulp2) / ((1 - ulp2) * (1 - ulp2) * (1 - ulp2)) \<le> 1 + 1 / 2 ^ 50"
  unfolding ulp2_eq by simp

text \<open>Sleeping the missing time loses at most one rounding, relative to the time required.\<close>

lemma missing_time:
  assumes r: "2 powi (-601) \<le> r" and e: "0 \<le> e"
  shows "r * (1 - ulp2) \<le> e + (if e < r then fl (r - e) else 0)"
proof -
  have u: "(0::real) \<le> ulp2" unfolding ulp2_eq by simp
  show ?thesis
  proof (cases "e < r")
    case True
    have "r - e - r * ulp2 \<le> fl (r - e)"
    proof (cases "2 powi (-1022) \<le> r - e")
      case True
      then have "(r - e) * (1 - ulp2) \<le> fl (r - e)" by (intro fl_lower) auto
      moreover have "(r - e) * ulp2 \<le> r * ulp2" using e u by (intro mult_right_mono) auto
      ultimately show ?thesis by (simp only: right_diff_distrib mult_1_right)
    next
      case False
      have "(2::real) powi (-1022) \<le> 2 powi (-654)" by (rule powi2_mono) simp
      also have "(2::real) powi (-654) = 2 powi (-601) * ulp2" unfolding powi2_add[symmetric] by simp
      also have "\<dots> \<le> r * ulp2" using r u by (intro mult_right_mono) auto
      finally have "r - e - r * ulp2 \<le> 0" using False by linarith
      moreover have "0 \<le> fl (r - e)" using True by simp
      ultimately show ?thesis by linarith
    qed
    then show ?thesis using True by (simp add: right_diff_distrib)
  next
    case False
    have "r * (1 - ulp2) \<le> r * 1" using r u powi2_nonneg[of "-601"] by (intro mult_left_mono) linarith+
    then show ?thesis using False by simp
  qed
qed

lemma shaped_time:
  assumes c: "1 \<le> cap" "cap \<le> 2 ^ 500" and n: "1 \<le> N" and e: "0 \<le> e"
  defines "r \<equiv> fl (N / cap)"
  defines "e' \<equiv> fl (e + (if e < r then fl (r - e) else 0))"
  shows "N / cap * ((1 - ulp2) * (1 - ulp2) * (1 - ulp2)) \<le> e'"
proof -
  let ?u = "ulp2"
  have u: "0 \<le> ?u" "?u \<le> 1 / 2" unfolding ulp2_eq by simp_all
  have q: "2 powi (-600) \<le> N / cap"
  proof -
    have "(2::real) powi (-600) = 1 / 2 ^ 600" by (simp add: power_int_def power_divide)
    also have "\<dots> \<le> 1 / 2 ^ 500" by simp
    also have "\<dots> \<le> 1 / cap" using c by (intro divide_left_mono) auto
    also have "\<dots> \<le> N / cap" using c n by (intro divide_right_mono) auto
    finally show ?thesis .
  qed
  have qn: "0 \<le> N / cap" using c n by simp
  have nm: "(2::real) powi (-1022) \<le> 2 powi (-700)" "(2::real) powi (-700) \<le> 2 powi (-600)"
    by (rule powi2_mono; simp)+
  have r: "N / cap * (1 - ?u) \<le> r" unfolding r_def by (rule fl_lower[OF order_refl]) (use q nm in linarith)
  have half: "2 powi (-700) \<le> x * (1 - ?u)" if "2 powi (-k) \<le> x" "k \<le> 698" for x :: real and k
  proof -
    have "(2::real) powi (-700) \<le> 2 powi (- k - 1)" using that(2) by (intro powi2_mono) simp
    also have "\<dots> = 2 powi (-k) * (1 / 2)" using powi2_add[of "- k - 1" 1] by simp
    also have "\<dots> \<le> x * (1 - ?u)" by (intro mult_mono) (use that(1) u powi2_nonneg[of "- k"] in linarith)+
    finally show ?thesis .
  qed
  have rpos: "2 powi (-601) \<le> r"
  proof -
    have "2 powi (-601) = 2 powi (-600) * (1 / (2::real))" using powi2_add[of "-601" 1] by simp
    also have "\<dots> \<le> N / cap * (1 - ?u)" by (intro mult_mono) (use q qn u in linarith)+
    finally show ?thesis using r by linarith
  qed
  have "r * (1 - ?u) \<le> e + (if e < r then fl (r - e) else 0)" by (rule missing_time[OF rpos e])
  then have "r * (1 - ?u) * (1 - ?u) \<le> e'" unfolding e'_def
    by (rule fl_lower) (use half[of 601 r] rpos nm in linarith)
  moreover have "N / cap * (1 - ?u) * ((1 - ?u) * (1 - ?u)) \<le> r * ((1 - ?u) * (1 - ?u))"
    using r u by (intro mult_right_mono) auto
  ultimately show ?thesis by (simp only: mult.assoc)
qed

lemma shaped_throughput_bound:
  assumes c: "1 \<le> cap" "cap \<le> 2 ^ 500" and n: "1 \<le> n" "n * 8 \<le> 2 ^ 53" and e: "0 \<le> e"
  defines "r \<equiv> required_time n cap"
  shows "throughput_of n (fl (e + (if e < r then fl (r - e) else 0))) \<le> cap * (1 + 1 / 2 ^ 50)"
proof -
  define N :: real where "N = of_int (n * 8)"
  have N: "fl (of_int (n * 8)) = N" "1 \<le> N" using n fl_of_int_simp[of "n * 8"] by (simp_all add: N_def)
  define x where "x = fl (e + (if e < r then fl (r - e) else 0))"
  let ?k = "(1 - ulp2) * (1 - ulp2) * (1 - ulp2)"
  have k: "0 < ?k" "?k \<le> 1" unfolding ulp2_eq by simp_all
  have r: "r = fl (N / cap)" unfolding r_def required_time_def N(1) ..
  have x: "N / cap * ?k \<le> x" unfolding x_def r by (rule shaped_time[OF c N(2) e])
  have pos: "0 < N / cap * ?k" using N(2) c k by (intro mult_pos_pos divide_pos_pos) auto
  have "N / x \<le> N / (N / cap * ?k)" using x pos N(2) by (intro divide_left_mono mult_pos_pos) auto
  also have "\<dots> = cap / ?k" using N(2) c k by (simp add: field_simps)
  finally have le: "N / x \<le> cap / ?k" .
  have "1 \<le> cap / ?k"
  proof -
    have "1 * ?k \<le> cap" using c k by linarith
    then show ?thesis using k by (simp add: le_divide_eq)
  qed
  then have "fl (N / x) \<le> cap / ?k * (1 + ulp2)" by (intro fl_upper[OF le] normal_ge) simp
  also have "\<dots> = cap * ((1 + ulp2) / ?k)" by simp
  also have "\<dots> \<le> cap * (1 + 1 / 2 ^ 50)" using slowdown_arith c by (intro mult_left_mono) auto
  finally show ?thesis using pos x unfolding throughput_of_def N(1) x_def[symmetric] by (simp add: not_less)
qed

lemma json_example:
  "shaper_init (JObj [(u ''latency_ms'', JInt 20), (u ''timeline'', JList
     [JObj [(u ''t'', JInt 5), (u ''mbps'', JInt 2)], JObj [(u ''t'', JInt 0), (u ''mbps'', JInt 10)]])]) =
   Inr (Some \<lparr>sh_name = JStr (u ''custom''), latency_s = fl (20 / 1000), packet_loss = 0,
     timeline = [(0, 10000000), (5, 2000000)], sh_start = None\<rparr>)"
  by (simp add: shaper_init_def bind_finite_def or_default_def)

section \<open>Properties\<close>

text \<open>C37: The cap is the profile's: the shaper's constructor keeps the steps of the profile sorted by
  time, and once the timeline is anchored the cap in force is the rate of the last step that has
  started by now (of the first step, before any has), without changing the shaper.\<close>

theorem shaper_cap_in_force:
  assumes "timeline s = sort_key fst steps" and "steps \<noteq> []" and "sh_start s = Some t0"
  shows "\<exists>cap w'. current_cap_bps s w = (Inr cap, s, w')
    \<and> (let started = filter (\<lambda>p. fst p \<le> fl (mono_clock w (ticks w) - t0)) (timeline s)
       in cap = (if started = [] then snd (hd (timeline s)) else snd (last started)))"
proof -
  let ?e = "fl (mono_clock w (ticks w) - t0)"
  have ne: "timeline s \<noteq> []" using assms(1,2) by (metis length_0_conv length_sort)
  have "sorted (map fst (timeline s))" using assms(1) by simp
  from sorted_takeWhile_filter[OF this, of ?e] show ?thesis using assms(3) ne
    by (simp add: current_cap_bps_def shaper_start_def monotonic_def cap_loop_last py_nth_in_range hd_conv_nth Let_def)
qed

definition two_steps :: network_shaper where
  "two_steps = \<lparr>sh_name = JNull, latency_s = 0, packet_loss = 0, timeline = [(0, 10000000), (5, 2000000)],
                sh_start = Some 0\<rparr>"

lemma shaper_cap_in_force_witness:
  "\<exists>cap w'. current_cap_bps two_steps (no_world\<lparr>mono_clock := \<lambda>_. 7\<rparr>) = (Inr cap, two_steps, w') \<and> cap = 2000000"
  using shaper_cap_in_force[of two_steps "[(5, 2000000), (0, 10000000)]" 0 "no_world\<lparr>mono_clock := \<lambda>_. 7\<rparr>"]
  by (simp add: two_steps_def Let_def)

text \<open>C38: Shaping works: after a successful download of \<open>n\<close> bytes in a measured time, the time that is
  reported is at least the measured one, the extra time is exactly what the shaper slept, and the
  throughput computed from it does not exceed the cap in force by more than a relative
  2 to the minus 50.\<close>

theorem shaped_download_within_cap:
  assumes "dl_shaper d = Some s" and "current_cap_bps s w = (Inr cap, s1, w1)"
    and "1 \<le> cap" "cap \<le> 2 ^ 500" and "1 \<le> n" "n * 8 \<le> 2 ^ 53" and "0 \<le> elapsed" "is_float elapsed"
  shows "\<exists>elapsed' w'. shape_after 200 n elapsed d w = (Inr elapsed', d\<lparr>dl_shaper := Some s1\<rparr>, w')
    \<and> elapsed \<le> elapsed' \<and> throughput_of n elapsed' \<le> cap * (1 + 1 / 2 ^ 50)
    \<and> (if elapsed < required_time n cap
       then sleeps w' = sleeps w1 @ [fl (required_time n cap - elapsed)]
         \<and> elapsed' = fl (elapsed + fl (required_time n cap - elapsed))
       else w' = w1 \<and> elapsed' = elapsed)"
proof -
  let ?r = "required_time n cap"
  let ?x = "if elapsed < ?r then fl (?r - elapsed) else 0"
  have "throughput_of n (fl (elapsed + ?x)) \<le> cap * (1 + 1 / 2 ^ 50)"
    by (rule shaped_throughput_bound[OF assms(3-7)])
  moreover have "elapsed \<le> fl (elapsed + ?x)" using assms(8) by (intro fl_ge_iff_float) auto
  moreover have "fl (elapsed + 0) = elapsed" using assms(8) by (simp add: fl_is_float)
  ultimately show ?thesis using assms(1-3)
    by (cases "elapsed < ?r") (simp_all add: shape_after_def apply_download_delay_def Let_def sleep_def)
qed

lemma shaped_download_within_cap_witness:
  "\<exists>elapsed' w'. shape_after 200 1000000 1 \<lparr>dl_client = \<lparr>sock = None, buf = []\<rparr>, dl_shaper = Some two_steps\<rparr>
      (no_world\<lparr>mono_clock := \<lambda>_. 7\<rparr>) = (Inr elapsed', \<lparr>dl_client = \<lparr>sock = None, buf = []\<rparr>, dl_shaper = Some two_steps\<rparr>, w')
    \<and> 1 \<le> elapsed' \<and> throughput_of 1000000 elapsed' \<le> 2000000 * (1 + 1 / 2 ^ 50)"
proof -
  let ?d = "\<lparr>dl_client = \<lparr>sock = None, buf = []\<rparr>, dl_shaper = Some two_steps\<rparr>"
  have "current_cap_bps two_steps (no_world\<lparr>mono_clock := \<lambda>_. 7\<rparr>) =
      (Inr 2000000, two_steps, (no_world\<lparr>mono_clock := \<lambda>_. 7\<rparr>)\<lparr>ticks := 1\<rparr>)"
    by (simp add: current_cap_bps_def two_steps_def shaper_start_def monotonic_def py_nth_def no_world_def)
  from shaped_download_within_cap[OF _ this, of ?d 1000000 1] show ?thesis by auto
qed

end
