(* ===== verification/Buffer.thy ===== *)
theory Buffer
  imports PyFloat PyText Prelude
begin

text \<open>
  \<open>client/buffer/buffer_manager.py\<close>: the bounded buffer between the downloading and the playing
  thread.  The first part has the operations on the buffer itself, as they run under the lock; the
  second part has the threads: a step is what one thread does between taking the lock and
  releasing it (by leaving the block or by waiting on a condition).
\<close>

section \<open>The buffer\<close>

record buffered_segment =
  bs_segment :: int
  bs_rep :: pystr
  bs_bitrate :: int
  bs_duration :: real
  bs_size :: int
  received_at :: real

record buffer_manager =
  max_seconds :: real
  queue :: "buffered_segment list"
  blevel :: real
  dropped :: int

definition buffer_manager_init :: "real \<Rightarrow> buffer_manager result" where
  "buffer_manager_init m =
     (if m \<le> 0 then Inl ValueError else Inr \<lparr>max_seconds = m, queue = [], blevel = 0, dropped = 0\<rparr>)"

text \<open>The test of the waiting loop of \<open>put\<close>, what it does when there is room, and when it gives up.\<close>

definition put_full :: "buffer_manager \<Rightarrow> buffered_segment \<Rightarrow> bool" where
  "put_full b seg \<longleftrightarrow> fl (blevel b + bs_duration seg) > max_seconds b"

definition put_append :: "buffered_segment \<Rightarrow> buffer_manager \<Rightarrow> buffer_manager" where
  "put_append seg b = b\<lparr>queue := queue b @ [seg], blevel := fl (blevel b + bs_duration seg)\<rparr>"

definition put_drop :: "buffer_manager \<Rightarrow> buffer_manager" where
  "put_drop b = b\<lparr>dropped := dropped b + 1\<rparr>"

text \<open>The removal in \<open>get\<close>, once the deque is not empty.\<close>

definition get_popleft :: "buffer_manager \<Rightarrow> buffer_manager" where
  "get_popleft b =
     (let l = fl (blevel b - bs_duration (hd (queue b)))
      in b\<lparr>queue := tl (queue b), blevel := (if l < 0 then 0 else l)\<rparr>)"

definition level :: "buffer_manager \<Rightarrow> real" where "level b = blevel b"

definition buffer_size :: "buffer_manager \<Rightarrow> int" where "buffer_size b = int (length (queue b))"

definition buffer_empty :: "buffer_manager \<Rightarrow> bool" where "buffer_empty b \<longleftrightarrow> queue b = []"

definition snapshot :: "buffer_manager \<Rightarrow> buffered_segment list" where "snapshot b = queue b"

section \<open>The threads\<close>

text \<open>
  Where a producer is: outside, about to test for room, or waiting on \<open>_not_full\<close>; the flag says
  whether the call has a timeout.  Where a consumer is: outside, about to look at the deque for
  the first time, waiting on \<open>_not_empty\<close>, or notified and about to look again.
\<close>

datatype producer = PIdle | PRun buffered_segment bool | PWait buffered_segment bool

datatype consumer = CIdle | CEnter bool | CWait bool | CWoken

text \<open>With the threads, and the history of what was stored and what was taken.\<close>

record buffer_sys =
  buf_state :: buffer_manager
  producers :: "nat \<Rightarrow> producer"
  consumers :: "nat \<Rightarrow> consumer"
  stored :: "buffered_segment list"
  taken :: "buffered_segment list"

text \<open>A consumer that looks at the deque now.\<close>

definition c_ready :: "consumer \<Rightarrow> bool" where
  "c_ready c \<longleftrightarrow> c = CWoken \<or> c = CEnter True \<or> c = CEnter False"

definition p_waits :: "producer \<Rightarrow> bool" where
  "p_waits p \<longleftrightarrow> (case p of PWait _ _ \<Rightarrow> True | _ \<Rightarrow> False)"

definition c_waits :: "consumer \<Rightarrow> bool" where
  "c_waits c \<longleftrightarrow> (case c of CWait _ \<Rightarrow> True | _ \<Rightarrow> False)"

definition p_notified :: "producer \<Rightarrow> producer" where
  "p_notified p = (case p of PWait seg timed \<Rightarrow> PRun seg timed | _ \<Rightarrow> p)"

definition do_store :: "nat \<Rightarrow> buffered_segment \<Rightarrow> buffer_sys \<Rightarrow> buffer_sys" where
  "do_store i seg s =
     s\<lparr>buf_state := put_append seg (buf_state s), producers := (producers s)(i := PIdle),
       stored := stored s @ [seg]\<rparr>"

definition do_take :: "nat \<Rightarrow> buffer_sys \<Rightarrow> buffer_sys" where
  "do_take j s =
     s\<lparr>buf_state := get_popleft (buf_state s), consumers := (consumers s)(j := CIdle),
       taken := taken s @ [hd (queue (buf_state s))]\<rparr>"

definition wake_consumer :: "nat \<Rightarrow> buffer_sys \<Rightarrow> buffer_sys" where
  "wake_consumer k s = s\<lparr>consumers := (consumers s)(k := CWoken)\<rparr>"

definition wake_producer :: "nat \<Rightarrow> buffer_sys \<Rightarrow> buffer_sys" where
  "wake_producer k s = s\<lparr>producers := (producers s)(k := p_notified (producers s k))\<rparr>"

text \<open>
  The steps.  \<open>notify\<close> wakes one thread that waits on the condition, if there is one; which one is
  left open.  A wait with a timeout may expire at any moment: the thread then no longer waits, and
  goes on once it has the lock.
\<close>

inductive buffer_step :: "buffer_sys \<Rightarrow> buffer_sys \<Rightarrow> bool" where
  put_call: "producers s i = PIdle \<Longrightarrow>
    buffer_step s (s\<lparr>producers := (producers s)(i := PRun seg timed)\<rparr>)"
| put_wait: "producers s i = PRun seg timed \<Longrightarrow> put_full (buf_state s) seg \<Longrightarrow>
    buffer_step s (s\<lparr>producers := (producers s)(i := PWait seg timed)\<rparr>)"
| put_expire: "producers s i = PWait seg True \<Longrightarrow>
    buffer_step s (s\<lparr>producers := (producers s)(i := PRun seg True)\<rparr>)"
| put_timeout: "producers s i = PRun seg True \<Longrightarrow> put_full (buf_state s) seg \<Longrightarrow>
    buffer_step s (s\<lparr>buf_state := put_drop (buf_state s), producers := (producers s)(i := PIdle)\<rparr>)"
| put_store: "producers s i = PRun seg timed \<Longrightarrow> \<not> put_full (buf_state s) seg \<Longrightarrow>
    \<forall>k. \<not> c_waits (consumers s k) \<Longrightarrow> buffer_step s (do_store i seg s)"
| put_notify: "producers s i = PRun seg timed \<Longrightarrow> \<not> put_full (buf_state s) seg \<Longrightarrow>
    c_waits (consumers s k) \<Longrightarrow> buffer_step s (wake_consumer k (do_store i seg s))"
| get_call: "consumers s j = CIdle \<Longrightarrow>
    buffer_step s (s\<lparr>consumers := (consumers s)(j := CEnter timed)\<rparr>)"
| get_wait: "consumers s j = CEnter timed \<Longrightarrow> queue (buf_state s) = [] \<Longrightarrow>
    buffer_step s (s\<lparr>consumers := (consumers s)(j := CWait timed)\<rparr>)"
| get_expire: "consumers s j = CWait True \<Longrightarrow>
    buffer_step s (s\<lparr>consumers := (consumers s)(j := CWoken)\<rparr>)"
| get_none: "consumers s j = CWoken \<Longrightarrow> queue (buf_state s) = [] \<Longrightarrow>
    buffer_step s (s\<lparr>consumers := (consumers s)(j := CIdle)\<rparr>)"
| get_take: "c_ready (consumers s j) \<Longrightarrow> queue (buf_state s) \<noteq> [] \<Longrightarrow>
    \<forall>k. \<not> p_waits (producers s k) \<Longrightarrow> buffer_step s (do_take j s)"
| get_notify: "c_ready (consumers s j) \<Longrightarrow> queue (buf_state s) \<noteq> [] \<Longrightarrow>
    p_waits (producers s k) \<Longrightarrow> buffer_step s (wake_producer k (do_take j s))"

definition buffer_start :: "buffer_manager \<Rightarrow> buffer_sys" where
  "buffer_start b = \<lparr>buf_state = b, producers = \<lambda>_. PIdle, consumers = \<lambda>_. CIdle, stored = [], taken = []\<rparr>"

inductive_cases buffer_stepE: "buffer_step s t"

text \<open>The segments that are being put.\<close>

definition asked :: "(buffered_segment \<Rightarrow> bool) \<Rightarrow> buffer_sys \<Rightarrow> bool" where
  "asked P s \<longleftrightarrow> (\<forall>i seg timed. producers s i = PRun seg timed \<or> producers s i = PWait seg timed \<longrightarrow> P seg)"

text \<open>The runs in which only segments with \<open>P\<close> are put, from an empty buffer of \<open>m\<close> seconds.\<close>

definition run_init :: "real \<Rightarrow> buffer_sys \<Rightarrow> bool" where
  "run_init m s \<longleftrightarrow> (\<exists>b. buffer_manager_init m = Inr b \<and> s = buffer_start b)"

definition run_step :: "(buffered_segment \<Rightarrow> bool) \<Rightarrow> buffer_sys \<Rightarrow> buffer_sys \<Rightarrow> bool" where
  "run_step P s t \<longleftrightarrow> buffer_step s t \<and> asked P t"

lemmas sys_ops = do_store_def do_take_def wake_consumer_def wake_producer_def put_append_def get_popleft_def
  put_drop_def

lemma asked_run: "asked P s \<Longrightarrow> producers s i = PRun seg timed \<Longrightarrow> P seg"
  by (auto simp: asked_def)

section \<open>Bounds and order\<close>

definition fits :: "real \<Rightarrow> buffer_manager \<Rightarrow> bool" where
  "fits m b \<longleftrightarrow> max_seconds b = m \<and> 0 \<le> blevel b \<and> blevel b \<le> m \<and> is_float (blevel b)"

definition seconds_ok :: "buffered_segment \<Rightarrow> bool" where
  "seconds_ok seg \<longleftrightarrow> 0 \<le> bs_duration seg"

lemma put_append_fits: "fits m b \<Longrightarrow> seconds_ok seg \<Longrightarrow> \<not> put_full b seg \<Longrightarrow> fits m (put_append seg b)"
  by (simp add: fits_def put_full_def put_append_def seconds_ok_def not_less)

lemma get_popleft_fits:
  assumes "fits m b" and "seconds_ok (hd (queue b))"
  shows "fits m (get_popleft b)"
proof -
  have "fl (blevel b - bs_duration (hd (queue b))) \<le> blevel b"
    using assms by (intro fl_le_iff_float) (auto simp: fits_def seconds_ok_def)
  then show ?thesis using assms by (auto simp: fits_def get_popleft_def Let_def)
qed

definition buffer_inv :: "real \<Rightarrow> buffer_sys \<Rightarrow> bool" where
  "buffer_inv m s \<longleftrightarrow> fits m (buf_state s) \<and> stored s = taken s @ queue (buf_state s)
   \<and> asked seconds_ok s \<and> list_all seconds_ok (stored s)"

lemma fits_drop: "fits m (put_drop b) \<longleftrightarrow> fits m b"
  by (simp add: fits_def put_drop_def)

lemma buffer_inv_step:
  assumes inv: "buffer_inv m s" and step: "run_step seconds_ok s t"
  shows "buffer_inv m t"
proof -
  have a: "asked seconds_ok t" and st: "buffer_step s t" using step by (auto simp: run_step_def)
  have keep: "buffer_inv m t" if "buf_state t = buf_state s" "stored t = stored s" "taken t = taken s"
    using inv a that by (auto simp: buffer_inv_def)
  have store: "buffer_inv m t" if "producers s i = PRun seg timed" "\<not> put_full (buf_state s) seg"
    "buf_state t = put_append seg (buf_state s)" "stored t = stored s @ [seg]" "taken t = taken s" for i seg timed
  proof -
    have "seconds_ok seg" using inv that(1) asked_run by (auto simp: buffer_inv_def)
    moreover have "queue (buf_state t) = queue (buf_state s) @ [seg]" by (simp add: that(3) put_append_def)
    ultimately show ?thesis using inv a that(2-) put_append_fits[of m "buf_state s" seg]
      unfolding buffer_inv_def by auto
  qed
  have take: "buffer_inv m t" if "queue (buf_state s) \<noteq> []" "buf_state t = get_popleft (buf_state s)"
    "taken t = taken s @ [hd (queue (buf_state s))]" "stored t = stored s"
  proof -
    have "seconds_ok (hd (queue (buf_state s)))" using inv that(1) by (auto simp: buffer_inv_def list_all_iff)
    moreover have "queue (buf_state t) = tl (queue (buf_state s))" by (simp add: that(2) get_popleft_def Let_def)
    ultimately show ?thesis using inv a that get_popleft_fits[of m "buf_state s"]
      unfolding buffer_inv_def by auto
  qed
  from st show ?thesis
  proof (cases rule: buffer_step.cases)
    case (put_timeout i seg)
    then have "buf_state t = put_drop (buf_state s)" "stored t = stored s" "taken t = taken s" by simp_all
    then show ?thesis using inv a fits_drop[of m "buf_state s"] by (auto simp: buffer_inv_def put_drop_def)
  next
    case (put_store i seg timed)
    then show ?thesis by (intro store[of i seg timed]) (simp_all add: do_store_def)
  next
    case (put_notify i seg timed k)
    then show ?thesis by (intro store[of i seg timed]) (simp_all add: do_store_def wake_consumer_def)
  next
    case (get_take j)
    then show ?thesis by (intro take) (simp_all add: do_take_def)
  next
    case (get_notify j k)
    then show ?thesis by (intro take) (simp_all add: do_take_def wake_producer_def)
  qed (rule keep; simp)+
qed

lemma buffer_inv_init: "run_init m s \<Longrightarrow> buffer_inv m s"
  by (auto simp: run_init_def buffer_manager_init_def buffer_inv_def fits_def buffer_start_def asked_def split: if_splits)

interpretation buffer: machine_invariant "run_init m" "run_step seconds_ok" "buffer_inv m" for m
  by unfold_locales (auto intro: buffer_inv_init buffer_inv_step)

section \<open>No wake-up of a consumer is lost\<close>

definition woken :: "buffer_sys \<Rightarrow> nat set" where
  "woken s = {j. consumers s j = CWoken}"

definition consumer_inv :: "buffer_sys \<Rightarrow> bool" where
  "consumer_inv s \<longleftrightarrow> finite (woken s)
   \<and> ((\<exists>k. c_waits (consumers s k)) \<longrightarrow> length (queue (buf_state s)) \<le> card (woken s))"

lemma woken_upd: "{j. (f(k := c)) j = CWoken} = (if c = CWoken then insert k {j. f j = CWoken} else {j. f j = CWoken} - {k})"
  by auto

lemma waits_upd: "(\<exists>j. c_waits ((f(k := c)) j)) \<Longrightarrow> \<not> c_waits c \<Longrightarrow> \<exists>j. c_waits (f j)"
  by (auto split: if_splits)

text \<open>A consumer takes a segment; a producer stores one and wakes the consumer \<open>k\<close>.\<close>

lemma consumer_inv_take:
  assumes inv: "consumer_inv s" and q: "queue (buf_state s) \<noteq> []"
    and t: "queue (buf_state t) = tl (queue (buf_state s))" "consumers t = (consumers s)(j := CIdle)"
  shows "consumer_inv t"
proof -
  let ?q = "queue (buf_state s)"
  have fin: "finite (woken s)" using inv by (simp add: consumer_inv_def)
  have w: "woken t = woken s - {j}" by (auto simp: woken_def t(2))
  have "length (tl ?q) \<le> card (woken s - {j})" if "\<exists>k. c_waits (consumers t k)"
  proof -
    have "\<exists>k. c_waits (consumers s k)" using that waits_upd[of "consumers s" j CIdle] by (auto simp: t(2) c_waits_def)
    then have "length ?q \<le> card (woken s)" using inv by (simp add: consumer_inv_def)
    then show ?thesis using fin by (cases "j \<in> woken s") (auto simp: card_Diff_singleton)
  qed
  then show ?thesis using fin by (simp add: consumer_inv_def t(1) w)
qed

lemma consumer_inv_wake:
  assumes inv: "consumer_inv s" and k: "c_waits (consumers s k)"
    and t: "queue (buf_state t) = queue (buf_state s) @ [seg]" "consumers t = (consumers s)(k := CWoken)"
  shows "consumer_inv t"
proof -
  have "k \<notin> woken s" using k by (auto simp: woken_def c_waits_def)
  moreover have "woken t = insert k (woken s)" by (auto simp: woken_def t(2))
  ultimately have "card (woken t) = Suc (card (woken s))" "finite (woken t)" using inv by (simp_all add: consumer_inv_def)
  moreover have "length (queue (buf_state s)) \<le> card (woken s)" using inv k by (auto simp: consumer_inv_def)
  ultimately show ?thesis by (simp add: consumer_inv_def t(1))
qed

lemma consumer_inv_step:
  assumes inv: "consumer_inv s" and step: "buffer_step s t"
  shows "consumer_inv t"
proof -
  let ?q = "queue (buf_state s)"
  have fin: "finite (woken s)" using inv by (simp add: consumer_inv_def)
  from step show ?thesis
  proof (cases rule: buffer_step.cases)
    case (put_store i seg timed)
    then show ?thesis using fin by (simp add: consumer_inv_def do_store_def woken_def)
  next
    case (put_notify i seg timed k)
    then show ?thesis by (intro consumer_inv_wake[OF inv put_notify(4)]) (simp_all add: sys_ops)
  next
    case (get_take j)
    then show ?thesis by (intro consumer_inv_take[OF inv, where j = j]) (simp_all add: sys_ops Let_def)
  next
    case (get_notify j k)
    then show ?thesis by (intro consumer_inv_take[OF inv, where j = j]) (simp_all add: sys_ops Let_def)
  next
    case (get_call j timed)
    then have w: "woken t = woken s" by (auto simp: woken_def)
    have "\<exists>k. c_waits (consumers s k)" if "\<exists>k. c_waits (consumers t k)"
      using that get_call waits_upd[of "consumers s" j "CEnter timed"] by (auto simp: c_waits_def)
    moreover have "queue (buf_state t) = ?q" using get_call by simp
    ultimately show ?thesis using inv unfolding consumer_inv_def w by auto
  next
    case (get_wait j timed)
    then have "woken t = woken s" "queue (buf_state t) = []" by (auto simp: woken_def)
    then show ?thesis using fin by (simp add: consumer_inv_def)
  next
    case (get_expire j)
    then have w: "woken t = insert j (woken s)" and q: "queue (buf_state t) = ?q" by (auto simp: woken_def)
    have "c_waits (consumers s j)" using get_expire by (simp add: c_waits_def)
    then have "length ?q \<le> card (woken s)" using inv unfolding consumer_inv_def by blast
    also have "\<dots> \<le> card (woken t)" unfolding w using fin by (intro card_mono) auto
    finally show ?thesis using fin by (simp add: consumer_inv_def w q)
  next
    case (get_none j)
    then have "woken t = woken s - {j}" "queue (buf_state t) = []" by (auto simp: woken_def)
    then show ?thesis using fin by (simp add: consumer_inv_def)
  qed (use inv in \<open>simp_all add: consumer_inv_def woken_def put_drop_def\<close>)
qed

lemma consumer_inv_init: "run_init m s \<Longrightarrow> consumer_inv s"
  by (auto simp: run_init_def consumer_inv_def buffer_start_def woken_def c_waits_def)

interpretation consumer: machine_invariant "run_init m" buffer_step consumer_inv for m
  by unfold_locales (auto intro: consumer_inv_init consumer_inv_step)

section \<open>One producer: exact level, no deadlock\<close>

text \<open>Durations in whole 1024ths of a second are added without rounding.\<close>

definition grid :: "real \<Rightarrow> bool" where
  "grid x \<longleftrightarrow> of_int \<lfloor>1024 * x\<rfloor> = 1024 * x"

lemma grid_iff: "grid x \<longleftrightarrow> (\<exists>n. 1024 * x = of_int n)"
  by (metis floor_of_int grid_def)

lemma grid_add: "grid x \<Longrightarrow> grid y \<Longrightarrow> grid (x + y)"
  by (metis grid_iff distrib_left of_int_add)

lemma grid_diff: "grid x \<Longrightarrow> grid y \<Longrightarrow> grid (x - y)"
  by (metis grid_iff right_diff_distrib of_int_diff)

lemma fl_grid:
  assumes "grid x" and "\<bar>x\<bar> \<le> 2 ^ 43"
  shows "fl x = x"
proof -
  obtain n where n: "1024 * x = of_int n" using assms(1) grid_iff by blast
  have "of_int \<bar>n\<bar> \<le> (of_int (2 ^ 53) :: real)" using assms(2) n by (simp flip: n add: abs_mult)
  then have "\<bar>n\<bar> \<le> 2 ^ 53" by (simp only: of_int_le_iff)
  then have "is_float (of_int n / 2 ^ 10)" by (intro is_float_scaled) simp_all
  moreover have "of_int n / 2 ^ 10 = x" by (simp flip: n)
  ultimately have "is_float x" by (simp only:)
  then show ?thesis by (rule fl_is_float)
qed

definition ticks_ok :: "real \<Rightarrow> buffered_segment \<Rightarrow> bool" where
  "ticks_ok m seg \<longleftrightarrow> 0 \<le> bs_duration seg \<and> bs_duration seg \<le> m \<and> grid (bs_duration seg)"

definition exact :: "real \<Rightarrow> buffer_manager \<Rightarrow> bool" where
  "exact m b \<longleftrightarrow> max_seconds b = m \<and> list_all (ticks_ok m) (queue b)
   \<and> blevel b = sum_list (map bs_duration (queue b)) \<and> grid (blevel b) \<and> 0 \<le> blevel b \<and> blevel b \<le> m"

lemma put_append_exact:
  assumes "exact m b" and "ticks_ok m seg" and "\<not> put_full b seg" and "m \<le> 2 ^ 42"
  shows "exact m (put_append seg b)"
proof -
  have "grid (blevel b)" "grid (bs_duration seg)" using assms(1,2) by (auto simp: exact_def ticks_ok_def)
  then have "grid (blevel b + bs_duration seg)" by (rule grid_add)
  moreover from this have "fl (blevel b + bs_duration seg) = blevel b + bs_duration seg"
    using assms by (intro fl_grid) (auto simp: exact_def ticks_ok_def)
  ultimately show ?thesis using assms by (simp add: exact_def put_append_def put_full_def ticks_ok_def not_less)
qed

lemma get_popleft_exact:
  assumes "exact m b" and "queue b \<noteq> []" and "m \<le> 2 ^ 42"
  shows "exact m (get_popleft b)"
proof -
  obtain seg q where q: "queue b = seg # q" using assms(2) by (cases "queue b") auto
  have rest: "0 \<le> sum_list (map bs_duration q)"
    using assms(1) by (intro sum_list_nonneg) (auto simp: exact_def q ticks_ok_def list_all_iff)
  have "grid (blevel b)" "grid (bs_duration seg)" using assms(1) by (auto simp: exact_def q ticks_ok_def)
  then have g: "grid (blevel b - bs_duration seg)" by (rule grid_diff)
  have "fl (blevel b - bs_duration seg) = blevel b - bs_duration seg"
    using assms(1,3) rest by (intro fl_grid[OF g]) (auto simp: exact_def q ticks_ok_def)
  then show ?thesis using assms(1) g rest by (auto simp: exact_def get_popleft_def Let_def q ticks_ok_def)
qed

definition one_producer :: "buffer_sys \<Rightarrow> bool" where
  "one_producer s \<longleftrightarrow> (\<forall>i. i \<noteq> 0 \<longrightarrow> producers s i = PIdle)"

definition session_step :: "real \<Rightarrow> buffer_sys \<Rightarrow> buffer_sys \<Rightarrow> bool" where
  "session_step m s t \<longleftrightarrow> run_step (ticks_ok m) s t \<and> one_producer t"

definition session_inv :: "real \<Rightarrow> buffer_sys \<Rightarrow> bool" where
  "session_inv m s \<longleftrightarrow> exact m (buf_state s) \<and> asked (ticks_ok m) s \<and> one_producer s
   \<and> (\<forall>seg timed. producers s 0 = PWait seg timed \<longrightarrow> put_full (buf_state s) seg)"

lemma one_producer_waits: "one_producer s \<Longrightarrow> p_waits (producers s k) \<Longrightarrow> k = 0"
  by (auto simp: one_producer_def p_waits_def split: producer.splits)

lemma session_inv_step:
  assumes m: "m \<le> 2 ^ 42" and inv: "session_inv m s" and step: "session_step m s t"
  shows "session_inv m t"
proof -
  have a: "asked (ticks_ok m) t" "one_producer t" and st: "buffer_step s t"
    using step by (auto simp: session_step_def run_step_def)
  have i: "exact m (buf_state s)" "asked (ticks_ok m) s" "one_producer s" using inv by (auto simp: session_inv_def)
  have store: "session_inv m t" if "producers s i = PRun seg timed" "\<not> put_full (buf_state s) seg"
    "buf_state t = put_append seg (buf_state s)" "producers t = (producers s)(i := PIdle)" for i seg timed
  proof -
    have "i = 0" using i(3) that(1) by (auto simp: one_producer_def)
    moreover have "exact m (put_append seg (buf_state s))"
      using put_append_exact[OF i(1) asked_run[OF i(2) that(1)] that(2) m] .
    ultimately show ?thesis using a that(3,4) by (simp add: session_inv_def)
  qed
  have take: "session_inv m t" if "queue (buf_state s) \<noteq> []" "buf_state t = get_popleft (buf_state s)"
    "\<not> p_waits (producers t 0)"
    using a get_popleft_exact[OF i(1) that(1) m] that(2,3) by (auto simp: session_inv_def p_waits_def)
  from st show ?thesis
  proof (cases rule: buffer_step.cases)
    case (put_timeout i seg)
    then have "exact m (buf_state t)" "i = 0" "producers t 0 = PIdle"
      using i(1,3) by (auto simp: exact_def put_drop_def one_producer_def)
    then show ?thesis using a by (simp add: session_inv_def)
  next
    case (put_store i seg timed)
    then show ?thesis by (intro store[of i seg timed]) (simp_all add: do_store_def)
  next
    case (put_notify i seg timed k)
    then show ?thesis by (intro store[of i seg timed]) (simp_all add: do_store_def wake_consumer_def)
  next
    case (get_take j)
    then show ?thesis by (intro take) (simp_all add: do_take_def)
  next
    case (get_notify j k)
    then have "k = 0" using i(3) one_producer_waits by blast
    then show ?thesis using get_notify
      by (intro take) (auto simp: do_take_def wake_producer_def p_waits_def p_notified_def split: producer.splits)
  qed (use inv a in \<open>auto simp: session_inv_def\<close>)
qed

text \<open>A producer that waits for room waits in front of a buffer that holds something.\<close>

lemma waiting_not_empty:
  assumes m: "m \<le> 2 ^ 42" and i: "session_inv m s" and p: "p_waits (producers s 0)"
  shows "queue (buf_state s) \<noteq> []"
proof
  assume "queue (buf_state s) = []"
  then have "level (buf_state s) = 0" using i by (simp add: session_inv_def exact_def level_def)
  obtain seg timed where w: "producers s 0 = PWait seg timed"
    using p by (cases "producers s 0") (simp_all add: p_waits_def)
  have ok: "ticks_ok m seg" using i w by (auto simp: session_inv_def asked_def)
  have "fl (bs_duration seg) = bs_duration seg" using ok m by (intro fl_grid) (auto simp: ticks_ok_def)
  then have "\<not> put_full (buf_state s) seg"
    using ok i \<open>level (buf_state s) = 0\<close> by (simp add: put_full_def level_def ticks_ok_def session_inv_def exact_def)
  then show False using i w by (auto simp: session_inv_def)
qed

lemma session_inv_init: "run_init m s \<Longrightarrow> session_inv m s"
  by (auto simp: run_init_def buffer_manager_init_def session_inv_def exact_def buffer_start_def asked_def one_producer_def
      grid_def split: if_splits)

text \<open>The same with the bound on the size of the buffer as part of the machine.\<close>

definition session_init :: "real \<Rightarrow> buffer_sys \<Rightarrow> bool" where
  "session_init m s \<longleftrightarrow> run_init m s \<and> m \<le> 2 ^ 42"

interpretation session: machine_invariant "session_init m" "session_step m"
    "\<lambda>s. m \<le> 2 ^ 42 \<and> session_inv m s \<and> consumer_inv s" for m
  by unfold_locales
    (auto simp: session_init_def session_step_def run_step_def
      intro: session_inv_init session_inv_step consumer_inv_init consumer_inv_step)

text \<open>A run of a buffer of 60 seconds: a segment of 60 seconds is stored, the next one waits, a consumer calls.\<close>

definition minute :: buffered_segment where
  "minute = \<lparr>bs_segment = 1, bs_rep = u ''1080p'', bs_bitrate = 5000000, bs_duration = 60, bs_size = 4, received_at = 0\<rparr>"

definition full_sys :: "consumer \<Rightarrow> buffer_sys" where
  "full_sys c = \<lparr>buf_state = \<lparr>max_seconds = 60, queue = [minute], blevel = 60, dropped = 0\<rparr>,
     producers = (\<lambda>_. PIdle)(0 := PWait minute False), consumers = (\<lambda>_. CIdle)(0 := c), stored = [minute], taken = []\<rparr>"

lemma minute_ok [simp]: "ticks_ok 60 minute" "bs_duration minute = 60" "seconds_ok minute"
  by (simp_all add: ticks_ok_def minute_def grid_def seconds_ok_def)

lemma full_sys_reachable:
  assumes "c = CIdle \<or> c = CEnter False"
  shows "reachable (session_init 60) (session_step 60) (full_sys c)"
proof -
  let ?b = "\<lparr>max_seconds = 60, queue = [], blevel = 0, dropped = 0\<rparr>"
  let ?b' = "\<lparr>max_seconds = 60, queue = [minute], blevel = 60, dropped = 0\<rparr>"
  let ?s = "\<lambda>b p st. \<lparr>buf_state = b, producers = (\<lambda>_. PIdle)(0 := p), consumers = \<lambda>_. CIdle, stored = st, taken = []\<rparr>"
  let ?R = "reachable (session_init 60) (session_step 60)"
  have ok: "session_step 60 s t" if "buffer_step s t" "asked (ticks_ok 60) t" "one_producer t" for s t
    using that by (simp add: session_step_def run_step_def)
  have "?R (buffer_start ?b)"
    by (rule reach_init) (simp add: session_init_def run_init_def buffer_manager_init_def)
  then have "?R (?s ?b (PRun minute False) [])"
    by (rule reach_step) (rule ok, use put_call[of "buffer_start ?b" 0 minute False] in
      \<open>simp_all add: buffer_start_def asked_def one_producer_def\<close>)
  then have "?R (?s ?b' PIdle [minute])"
    by (rule reach_step) (rule ok, use put_store[of "?s ?b (PRun minute False) []" 0 minute False] in
      \<open>simp_all add: put_full_def do_store_def put_append_def c_waits_def asked_def one_producer_def\<close>)
  then have "?R (?s ?b' (PRun minute False) [minute])"
    by (rule reach_step) (rule ok, use put_call[of "?s ?b' PIdle [minute]" 0 minute False] in
      \<open>simp_all add: asked_def one_producer_def\<close>)
  then have w: "?R (?s ?b' (PWait minute False) [minute])"
    by (rule reach_step) (rule ok, use put_wait[of "?s ?b' (PRun minute False) [minute]" 0 minute False] in
      \<open>simp_all add: put_full_def asked_def one_producer_def\<close>)
  then have "?R (full_sys (CEnter False))"
    by (rule reach_step) (rule ok, use get_call[of "?s ?b' (PWait minute False) [minute]" 0 False] in
      \<open>simp_all add: asked_def one_producer_def full_sys_def\<close>)
  moreover have "?R (full_sys CIdle)" using w by (simp add: full_sys_def fun_upd_idem)
  ultimately show ?thesis using assms by blast
qed

lemma full_sys_run: "reachable (run_init 60) (run_step seconds_ok) (full_sys CIdle)"
  by (rule reachable_mono[OF full_sys_reachable])
    (auto simp: session_init_def session_step_def run_step_def asked_def ticks_ok_def seconds_ok_def)

lemma full_sys_any: "reachable (run_init 60) buffer_step (full_sys CIdle)"
  by (rule reachable_mono[OF full_sys_run]) (auto simp: run_step_def)

section \<open>Properties\<close>

text \<open>C30: In every interleaving of any number of producers and consumers, with or without timeouts,
  the buffer never holds more than its maximum by its own count and never less than nothing, and the
  segments come out in the order in which they went in, each one once: what was stored is what was
  taken followed by what the buffer holds.  (The segments put have a duration that is not negative.)\<close>

theorem buffer_bounded_fifo:
  assumes "reachable (run_init m) (run_step seconds_ok) s"
  shows "0 \<le> level (buf_state s) \<and> level (buf_state s) \<le> m \<and> stored s = taken s @ snapshot (buf_state s)"
  using buffer.always[OF assms] by (simp add: buffer_inv_def fits_def level_def snapshot_def)

lemma buffer_bounded_fifo_witness: "0 \<le> level (buf_state (full_sys CIdle)) \<and> level (buf_state (full_sys CIdle)) \<le> 60
    \<and> stored (full_sys CIdle) = taken (full_sys CIdle) @ snapshot (buf_state (full_sys CIdle))"
  using buffer_bounded_fifo[OF full_sys_run] .

text \<open>No wake-up of a consumer is lost: in every interleaving, whenever a consumer waits although
  the buffer is not empty, at least as many consumers are woken and on their way to the lock as there
  are segments, so every segment has a consumer that will look for it.\<close>

lemma buffer_no_lost_wakeup:
  assumes "reachable (run_init m) buffer_step s" and "c_waits (consumers s k)"
  shows "buffer_size (buf_state s) \<le> int (card (woken s)) \<and> finite (woken s)"
proof -
  have "consumer_inv s" by (rule consumer.always[OF assms(1)])
  then show ?thesis using assms(2) by (auto simp: consumer_inv_def buffer_size_def)
qed

definition hungry_sys :: buffer_sys where
  "hungry_sys = (buffer_start \<lparr>max_seconds = 60, queue = [], blevel = 0, dropped = 0\<rparr>)
     \<lparr>consumers := (\<lambda>_. CIdle)(0 := CWait False)\<rparr>"

lemma hungry_sys_reachable: "reachable (run_init 60) buffer_step hungry_sys"
proof -
  let ?s = "buffer_start \<lparr>max_seconds = 60, queue = [], blevel = 0, dropped = 0\<rparr>"
  have "reachable (run_init 60) buffer_step ?s"
    by (rule reach_init) (simp add: run_init_def buffer_manager_init_def)
  then have "reachable (run_init 60) buffer_step (?s\<lparr>consumers := (consumers ?s)(0 := CEnter False)\<rparr>)"
    by (rule reach_step) (rule get_call, simp add: buffer_start_def)
  then show ?thesis
    by (rule reach_step) (use get_wait[of "?s\<lparr>consumers := (consumers ?s)(0 := CEnter False)\<rparr>" 0 False] in
      \<open>simp add: buffer_start_def hungry_sys_def\<close>)
qed

lemma buffer_no_lost_wakeup_example: "buffer_size (buf_state hungry_sys) \<le> int (card (woken hungry_sys)) \<and> finite (woken hungry_sys)"
  by (rule buffer_no_lost_wakeup[OF hungry_sys_reachable, of 0]) (simp add: hungry_sys_def c_waits_def)

text \<open>C12: With one producer, as in a session, segments no longer than the buffer and durations in whole
  1024ths of a second, the level is exactly the sum of the buffered durations, and there is no
  deadlock: while the producer waits for room the buffer is not empty, so that a consumer which looks
  takes a segment and wakes it, and never do all threads that are inside a call wait for each other.\<close>

theorem buffer_no_deadlock:
  assumes "reachable (session_init m) (session_step m) s"
  shows "level (buf_state s) = sum_list (map bs_duration (snapshot (buf_state s)))
    \<and> \<not> (p_waits (producers s 0) \<and> buffer_empty (buf_state s))
    \<and> \<not> (p_waits (producers s 0) \<and> c_waits (consumers s k) \<and> woken s = {})
    \<and> (if p_waits (producers s 0) \<and> c_ready (consumers s j)
       then \<exists>t. session_step m s t \<and> producers t 0 = p_notified (producers s 0)
              \<and> snapshot (buf_state t) = tl (snapshot (buf_state s)) else True)"
proof -
  have m: "m \<le> 2 ^ 42" and i: "session_inv m s" and c: "consumer_inv s" using session.always[OF assms] by auto
  have e: "queue (buf_state s) \<noteq> []" if "p_waits (producers s 0)" by (rule waiting_not_empty[OF m i that])
  have "False" if "p_waits (producers s 0)" "c_waits (consumers s k)" "woken s = {}"
  proof -
    have "length (queue (buf_state s)) \<le> card (woken s)" using c that(2) by (auto simp: consumer_inv_def)
    then show False using e[OF that(1)] that(3) by simp
  qed
  moreover have "\<exists>t. session_step m s t \<and> producers t 0 = p_notified (producers s 0)
      \<and> queue (buf_state t) = tl (queue (buf_state s))" if "p_waits (producers s 0)" "c_ready (consumers s j)"
  proof -
    let ?t = "wake_producer 0 (do_take j s)"
    have "buffer_step s ?t" using get_notify[OF that(2) e[OF that(1)] that(1)] .
    moreover have "asked (ticks_ok m) ?t" "one_producer ?t" using i
      by (auto simp: session_inv_def asked_def one_producer_def sys_ops p_notified_def split: producer.splits if_splits)
    ultimately show ?thesis
      by (intro exI[of _ ?t]) (simp add: session_step_def run_step_def sys_ops Let_def)
  qed
  moreover have "blevel (buf_state s) = sum_list (map bs_duration (queue (buf_state s)))"
    using i by (simp add: session_inv_def exact_def)
  ultimately show ?thesis using e by (auto simp: level_def snapshot_def buffer_empty_def)
qed

lemma buffer_no_deadlock_witness:
  "level (buf_state (full_sys (CEnter False))) = 60
    \<and> (\<exists>t. session_step 60 (full_sys (CEnter False)) t \<and> producers t 0 = PRun minute False \<and> snapshot (buf_state t) = [])"
proof -
  have f: "p_waits (producers (full_sys (CEnter False)) 0)" "c_ready (consumers (full_sys (CEnter False)) 0)"
    "snapshot (buf_state (full_sys (CEnter False))) = [minute]"
    "p_notified (producers (full_sys (CEnter False)) 0) = PRun minute False"
    by (simp_all add: full_sys_def p_waits_def c_ready_def snapshot_def p_notified_def)
  show ?thesis using buffer_no_deadlock[OF full_sys_reachable, of "CEnter False" 0 0] by (simp add: f)
qed

text \<open>Without that grid the level drifts: after 0.1 and 0.2 seconds have gone in and out again, the empty
  buffer still counts a positive level.\<close>

definition short_segment :: "real \<Rightarrow> buffered_segment" where
  "short_segment d = minute\<lparr>bs_duration := d\<rparr>"

lemma buffer_level_drifts:
  "let b = get_popleft (get_popleft (put_append (short_segment (fl (1 / 5))) (put_append (short_segment (fl (1 / 10)))
       \<lparr>max_seconds = 60, queue = [], blevel = 0, dropped = 0\<rparr>)))
   in buffer_empty b \<and> 0 < level b"
proof -
  have a: "fl (1 / 5) = 3602879701896397 / 18014398509481984" by code_simp
  have b: "fl (10808639105689191 / 36028797018963968) = 1351079888211149 / 4503599627370496" by code_simp
  have c: "fl (7205759403792795 / 36028797018963968) = 7205759403792795 / 36028797018963968" by code_simp
  have d: "fl (1 / 36028797018963968) = 1 / 36028797018963968" by code_simp
  have e: "fl (3602879701896397 / 36028797018963968) = 3602879701896397 / 36028797018963968"
    using fl_idem[of "1 / 10"] by (simp only: fl_tenth)
  show ?thesis
    by (simp add: put_append_def get_popleft_def buffer_empty_def level_def short_segment_def fl_tenth a b c d e Let_def)
qed

end
