(* ===== verification/Playback.thy ===== *)
theory Playback
  imports Buffer World
begin

text \<open>
  \<open>client/playback/playback_controller.py\<close>: the playing thread.  What it sees of the buffer is the
  sequence of answers of its calls of \<open>get\<close>: a segment, or None after the timeout.  An answer may be
  anything here; that the segments come in the order they were stored is a property of the buffer
  (theory \<open>Buffer\<close>).  The two loops may run forever when the clock does not go on, so both are partial
  functions.
\<close>

record play_env = world +
  answers :: "nat \<Rightarrow> buffered_segment option"
  calls :: nat

definition buffer_get :: "play_env \<Rightarrow> buffered_segment option \<times> play_env" where
  "buffer_get w = (answers w (calls w), w\<lparr>calls := calls w + 1\<rparr>)"

record playback_report =
  segments_played :: int
  startup_delay :: real
  rebuffer_seconds :: real
  rebuffer_events :: "(real \<times> real \<times> int) list"
  last_segment :: int

definition playback_report_init :: playback_report where
  "playback_report_init = \<lparr>segments_played = 0, startup_delay = 0, rebuffer_seconds = 0, rebuffer_events = [],
     last_segment = 0\<rparr>"

record playback_controller =
  total_segments :: int
  speed :: real
  session_start :: real
  report :: playback_report
  finished :: bool

text \<open>\<open>max(speed, 1e-6)\<close> takes the first of two equal arguments.\<close>

definition playback_init :: "int \<Rightarrow> real \<Rightarrow> real option \<Rightarrow> play_env \<Rightarrow> playback_controller \<times> play_env" where
  "playback_init n sp start w =
     (let (t, w') = (case start of None \<Rightarrow> monotonic w | Some t \<Rightarrow> (t, w))
      in (\<lparr>total_segments = n, speed = (if fl (1 / 1000000) > sp then fl (1 / 1000000) else sp),
           session_start = t, report = playback_report_init, finished = False\<rparr>, w'))"

text \<open>The loop of \<open>_wait_for_segment\<close>.\<close>

partial_function (option) wait_loop ::
    "real \<Rightarrow> play_env \<Rightarrow> (buffered_segment option \<times> play_env) option" where
  "wait_loop deadline w =
     (case monotonic w of (t, w1) \<Rightarrow>
        if t < deadline then
          (case buffer_get w1 of
             (Some seg, w2) \<Rightarrow> Some (Some seg, w2)
           | (None, w2) \<Rightarrow> wait_loop deadline w2)
        else Some (None, w1))"

definition wait_for_segment :: "real \<Rightarrow> play_env \<Rightarrow> (buffered_segment option \<times> play_env) option" where
  "wait_for_segment timeout w = (case monotonic w of (t, w1) \<Rightarrow> wait_loop (fl (t + timeout)) w1)"

text \<open>\<open>_consume\<close>: the report is updated first, then \<open>time.sleep\<close>, which raises for a negative time.\<close>

definition played :: "buffered_segment \<Rightarrow> playback_controller \<Rightarrow> playback_controller" where
  "played seg c =
     c\<lparr>report := (report c)\<lparr>segments_played := segments_played (report c) + 1, last_segment := bs_segment seg\<rparr>\<rparr>"

definition play_time :: "playback_controller \<Rightarrow> buffered_segment \<Rightarrow> real" where
  "play_time c seg = fl (bs_duration seg / speed c)"

definition consume ::
    "buffered_segment \<Rightarrow> playback_controller \<Rightarrow> play_env \<Rightarrow> unit result \<times> playback_controller \<times> play_env" where
  "consume seg c w =
     (if play_time c seg < 0 then (Inl ValueError, played seg c, w)
      else (Inr (), played seg c, sleep (play_time c seg) w))"

text \<open>The bookkeeping of a stall that ends with segment \<open>seg\<close>.\<close>

definition add_stall :: "real \<Rightarrow> real \<Rightarrow> buffered_segment \<Rightarrow> playback_controller \<Rightarrow> playback_controller" where
  "add_stall stall_start stall seg c =
     (if stall > fl (2 / 100) then
        c\<lparr>report := (report c)\<lparr>rebuffer_seconds := fl (rebuffer_seconds (report c) + stall),
           rebuffer_events := rebuffer_events (report c)
             @ [(fl (stall_start - session_start c), stall, bs_segment seg)]\<rparr>\<rparr>
      else c)"

definition finish :: "playback_controller \<Rightarrow> playback_controller" where
  "finish c = c\<lparr>finished := True\<rparr>"

text \<open>The loop of \<open>run\<close>, with the \<open>_finished.set()\<close> after it.\<close>

partial_function (option) steady ::
    "playback_controller \<Rightarrow> play_env \<Rightarrow> (unit result \<times> playback_controller \<times> play_env) option" where
  "steady c w =
     (if segments_played (report c) < total_segments c then
        (case buffer_get w of
           (Some seg, w1) \<Rightarrow>
             (case consume seg c w1 of (r, c2, w2) \<Rightarrow>
                if r = Inr () then steady c2 w2 else Some (r, c2, w2))
         | (None, w1) \<Rightarrow>
             (case monotonic w1 of (stall_start, w2) \<Rightarrow>
                Option.bind (wait_for_segment 600 w2) (\<lambda>(found, w3).
                  case found of
                    None \<Rightarrow> Some (Inr (), finish c, w3)
                  | Some seg \<Rightarrow>
                      (case monotonic w3 of (t, w4) \<Rightarrow>
                         case consume seg (add_stall stall_start (fl (t - stall_start)) seg c) w4 of (r, c5, w5) \<Rightarrow>
                           if r = Inr () then steady c5 w5 else Some (r, c5, w5)))))
      else Some (Inr (), finish c, w))"

definition playback_run ::
    "playback_controller \<Rightarrow> play_env \<Rightarrow> (unit result \<times> playback_controller \<times> play_env) option" where
  "playback_run c w =
     (case monotonic w of (t0, w1) \<Rightarrow>
        Option.bind (wait_for_segment 600 w1) (\<lambda>(first, w2).
          case first of
            None \<Rightarrow> Some (Inr (), c, w2)
          | Some seg \<Rightarrow>
              (case monotonic w2 of (t, w3) \<Rightarrow>
                 case consume seg (c\<lparr>report := (report c)\<lparr>startup_delay := fl (t - t0)\<rparr>\<rparr>) w3 of (r, c4, w4) \<Rightarrow>
                   if r = Inr () then steady c4 w4 else Some (r, c4, w4))))"

text \<open>\<open>join_session\<close> returns the report as it is when the thread has ended or the timeout is over.\<close>

definition join_session :: "playback_controller \<Rightarrow> playback_report" where
  "join_session c = report c"

section \<open>Termination\<close>

text \<open>A clock that passes every time for good.\<close>

definition clock_goes_on :: "(nat \<Rightarrow> real) \<Rightarrow> bool" where
  "clock_goes_on f \<longleftrightarrow> (\<forall>b. \<exists>n. \<forall>k\<ge>n. b \<le> f k)"

lemma wait_loop_ends:
  assumes "\<forall>k\<ge>n. deadline \<le> mono_clock w k"
  shows "\<exists>r w'. wait_loop deadline w = Some (r, w') \<and> mono_clock w' = mono_clock w"
  using assms
proof (induction "n - ticks w" arbitrary: w)
  case 0
  then have "deadline \<le> mono_clock w (ticks w)" by simp
  then show ?case by (subst wait_loop.simps) (simp add: monotonic_def not_less)
next
  case (Suc d)
  show ?case
  proof (cases "mono_clock w (ticks w) < deadline \<and> answers w (calls w) = None")
    case True
    let ?w = "w\<lparr>ticks := ticks w + 1, calls := calls w + 1\<rparr>"
    have "d = n - ticks ?w" "\<forall>k\<ge>n. deadline \<le> mono_clock ?w k" using Suc by simp_all
    from Suc.hyps(1)[OF this] obtain r w' where "wait_loop deadline ?w = Some (r, w')" "mono_clock w' = mono_clock w"
      by auto
    then show ?thesis using True by (subst wait_loop.simps) (simp add: monotonic_def buffer_get_def)
  next
    case False
    then show ?thesis by (subst wait_loop.simps) (auto simp: monotonic_def buffer_get_def)
  qed
qed

lemma wait_for_segment_ends:
  assumes "clock_goes_on (mono_clock w)"
  shows "\<exists>r w'. wait_for_segment timeout w = Some (r, w') \<and> mono_clock w' = mono_clock w"
proof -
  let ?w = "w\<lparr>ticks := ticks w + 1\<rparr>"
  obtain n where "\<forall>k\<ge>n. fl (mono_clock w (ticks w) + timeout) \<le> mono_clock ?w k"
    using assms by (auto simp: clock_goes_on_def)
  from wait_loop_ends[OF this] show ?thesis by (simp add: wait_for_segment_def monotonic_def)
qed

lemma consume_fields:
  "consume seg c w = (r, c', w') \<Longrightarrow> total_segments c' = total_segments c \<and> mono_clock w' = mono_clock w
     \<and> segments_played (report c') = segments_played (report c) + 1"
  by (auto simp: consume_def played_def sleep_def split: if_splits)

lemma add_stall_fields [simp]:
  "total_segments (add_stall a b seg c) = total_segments c"
  "segments_played (report (add_stall a b seg c)) = segments_played (report c)"
  "session_start (add_stall a b seg c) = session_start c" "speed (add_stall a b seg c) = speed c"
  "last_segment (report (add_stall a b seg c)) = last_segment (report c)"
  "finished (add_stall a b seg c) = finished c"
  by (simp_all add: add_stall_def)

lemma steady_ends:
  "clock_goes_on (mono_clock w) \<Longrightarrow> \<exists>r. steady c w = Some r"
proof (induction "nat (total_segments c - segments_played (report c))" arbitrary: c w rule: less_induct)
  case less
  have next_ends: "\<exists>r. (case consume seg c1 w1 of (r, c2, w2) \<Rightarrow> if r = Inr () then steady c2 w2 else Some (r, c2, w2)) = Some r"
    if "segments_played (report c) < total_segments c" "mono_clock w1 = mono_clock w"
      "total_segments c1 = total_segments c" "segments_played (report c1) = segments_played (report c)" for seg c1 and w1 :: play_env
  proof -
    obtain r c2 w2 where n: "consume seg c1 w1 = (r, c2, w2)" by (cases "consume seg c1 w1") auto
    then show ?thesis using less.hyps[of c2 w2] less.prems consume_fields[OF n] that by auto
  qed
  show ?case
  proof (cases "segments_played (report c) < total_segments c")
    case True
    show ?thesis
    proof (cases "answers w (calls w)")
      case (Some seg)
      then show ?thesis using True next_ends[OF True, of "w\<lparr>calls := calls w + 1\<rparr>" c seg]
        by (subst steady.simps) (simp add: buffer_get_def)
    next
      case None
      let ?w = "w\<lparr>calls := calls w + 1, ticks := ticks w + 1\<rparr>"
      obtain r w' where w: "wait_for_segment 600 ?w = Some (r, w')" "mono_clock w' = mono_clock w"
        using wait_for_segment_ends[of ?w 600] less.prems by auto
      show ?thesis
      proof (cases r)
        case None
        then show ?thesis using True \<open>answers w (calls w) = None\<close> w
          by (subst steady.simps) (simp add: buffer_get_def monotonic_def)
      next
        case (Some seg)
        then show ?thesis using True \<open>answers w (calls w) = None\<close> w
            next_ends[OF True, of "w'\<lparr>ticks := ticks w' + 1\<rparr>" "add_stall (mono_clock w (ticks w))
              (fl (mono_clock w (ticks w') - mono_clock w (ticks w))) seg c" seg]
          by (subst steady.simps) (simp add: buffer_get_def monotonic_def)
      qed
    qed
  next
    case False
    then show ?thesis by (subst steady.simps) simp
  qed
qed

section \<open>Accounting\<close>

text \<open>The segments among the answers from the \<open>n\<close>-th to before the \<open>m\<close>-th.\<close>

definition answered :: "(nat \<Rightarrow> buffered_segment option) \<Rightarrow> nat \<Rightarrow> nat \<Rightarrow> buffered_segment list" where
  "answered f n m = List.map_filter f [n..<m]"

lemma answered_same [simp]: "answered f n n = []"
  by (simp add: answered_def List.map_filter_def)

lemma answered_append: "n \<le> m \<Longrightarrow> m \<le> k \<Longrightarrow> answered f n k = answered f n m @ answered f m k"
  using upt_add_eq_append[of n m "k - m"] by (simp add: answered_def List.map_filter_def)

lemma answered_next: "answered f n (Suc n) = (case f n of None \<Rightarrow> [] | Some s \<Rightarrow> [s])"
  by (simp add: answered_def List.map_filter_def split: option.split)

text \<open>
  What happens between two moments of the thread: the segments that it got are played, in order, each
  once; each event is a stall that is long enough, before one of these segments; and the total is the
  sum of the events.
\<close>

definition event_ok :: "buffered_segment list \<Rightarrow> real \<times> real \<times> int \<Rightarrow> bool" where
  "event_ok segs ev \<longleftrightarrow> fl (2 / 100) < fst (snd ev) \<and> snd (snd ev) \<in> bs_segment ` set segs"

definition add_times :: "real \<Rightarrow> (real \<times> real \<times> int) list \<Rightarrow> real" where
  "add_times a evs = foldl (\<lambda>x ev. fl (x + fst (snd ev))) a evs"

definition heard :: "play_env \<Rightarrow> play_env \<Rightarrow> buffered_segment list \<Rightarrow> bool" where
  "heard w w' segs \<longleftrightarrow>
     answers w' = answers w \<and> calls w \<le> calls w' \<and> segs = answered (answers w) (calls w) (calls w')"

lemma heard_trans: "heard w w1 s1 \<Longrightarrow> heard w1 w2 s2 \<Longrightarrow> heard w w2 (s1 @ s2)"
  using answered_append[of "calls w" "calls w1" "calls w2" "answers w"] by (simp add: heard_def)

lemma heard_same: "answers w' = answers w \<Longrightarrow> calls w' = calls w \<Longrightarrow> heard w w' []"
  by (simp add: heard_def)

lemma heard_get: "answers w' = answers w \<Longrightarrow> calls w' = Suc (calls w) \<Longrightarrow>
    heard w w' (case answers w (calls w) of None \<Rightarrow> [] | Some s \<Rightarrow> [s])"
  by (simp add: heard_def answered_next)

definition plays :: "playback_controller \<Rightarrow> play_env \<Rightarrow> playback_controller \<Rightarrow> play_env \<Rightarrow>
    buffered_segment list \<Rightarrow> (real \<times> real \<times> int) list \<Rightarrow> bool" where
  "plays c w c' w' segs evs \<longleftrightarrow>
     total_segments c' = total_segments c \<and> speed c' = speed c \<and> session_start c' = session_start c
   \<and> segments_played (report c') = segments_played (report c) + int (length segs)
   \<and> last_segment (report c') = (if segs = [] then last_segment (report c) else bs_segment (last segs))
   \<and> sleeps w' = sleeps w @ map (play_time c) (filter (\<lambda>s. 0 \<le> play_time c s) segs)
   \<and> rebuffer_events (report c') = rebuffer_events (report c) @ evs
   \<and> rebuffer_seconds (report c') = add_times (rebuffer_seconds (report c)) evs
   \<and> length evs \<le> length segs \<and> list_all (event_ok segs) evs"

lemma event_ok_more: "event_ok segs ev \<Longrightarrow> event_ok (xs @ segs @ ys) ev"
  by (auto simp: event_ok_def)

lemma play_time_cong: "speed c' = speed c \<Longrightarrow> play_time c' = play_time c"
  by (rule ext) (simp add: play_time_def)

lemma play_time_report [simp]: "play_time (c\<lparr>report := x\<rparr>) = play_time c"
  by (rule play_time_cong) simp

lemma plays_trans:
  assumes "plays c w c1 w1 s1 e1" and "plays c1 w1 c2 w2 s2 e2"
  shows "plays c w c2 w2 (s1 @ s2) (e1 @ e2)"
proof -
  have "play_time c1 = play_time c" using assms(1) by (intro play_time_cong) (simp add: plays_def)
  moreover have "list_all (event_ok (s1 @ s2)) (e1 @ e2)"
    using assms event_ok_more[of s1 _ "[]" s2] event_ok_more[of s2 _ s1 "[]"] by (auto simp: plays_def list_all_iff)
  ultimately show ?thesis using assms by (simp add: plays_def add_times_def)
qed

lemma plays_refl: "plays c w c w [] []"
  by (simp add: plays_def add_times_def)

lemma wait_loop_heard:
  assumes "wait_loop deadline w = Some z"
  shows "sleeps (snd z) = sleeps w \<and> heard w (snd z) (case fst z of None \<Rightarrow> [] | Some s \<Rightarrow> [s])"
proof (rule wait_loop.raw_induct[OF _ assms, where P = "\<lambda>deadline w z. sleeps (snd z) = sleeps w
      \<and> heard w (snd z) (case fst z of None \<Rightarrow> [] | Some s \<Rightarrow> [s])"])
  fix rec deadline and w :: play_env and z
  assume ih: "\<And>d w z. rec d w = Some z \<Longrightarrow>
      sleeps (snd z) = sleeps w \<and> heard w (snd z) (case fst z of None \<Rightarrow> [] | Some s \<Rightarrow> [s])"
    and eq: "(case monotonic w of (t, w1) \<Rightarrow> if t < deadline
        then case buffer_get w1 of (None, w2) \<Rightarrow> rec deadline w2 | (Some seg, w2) \<Rightarrow> Some (Some seg, w2)
        else Some (None, w1)) = Some z"
  let ?w = "w\<lparr>ticks := ticks w + 1, calls := calls w + 1\<rparr>"
  show "sleeps (snd z) = sleeps w \<and> heard w (snd z) (case fst z of None \<Rightarrow> [] | Some s \<Rightarrow> [s])"
  proof (cases "mono_clock w (ticks w) < deadline \<and> answers w (calls w) = None")
    case True
    then have "rec deadline ?w = Some z" using eq by (simp add: monotonic_def buffer_get_def)
    from ih[OF this] show ?thesis
      using True heard_trans[of w ?w "[]"] heard_get[of ?w w] by (auto split: option.splits)
  next
    case False
    then show ?thesis using eq
      by (auto simp: monotonic_def buffer_get_def heard_def answered_next split: if_splits option.splits)
  qed
qed

lemma wait_for_segment_heard:
  "wait_for_segment timeout w = Some (r, w') \<Longrightarrow>
   sleeps w' = sleeps w \<and> heard w w' (case r of None \<Rightarrow> [] | Some s \<Rightarrow> [s])"
  using wait_loop_heard[of "fl (mono_clock w (ticks w) + timeout)" "w\<lparr>ticks := ticks w + 1\<rparr>" "(r, w')"]
  by (simp add: wait_for_segment_def monotonic_def heard_def)

lemma consume_plays:
  assumes "consume seg c w = (r, c', w')"
  shows "plays c w c' w' [seg] [] \<and> heard w w' [] \<and> (r = Inr () \<longleftrightarrow> 0 \<le> play_time c seg)"
  using assms by (auto simp: consume_def plays_def played_def sleep_def heard_def add_times_def split: if_splits)

lemma add_stall_plays:
  assumes "consume seg (add_stall a b seg c) w = (r, c', w')"
  shows "\<exists>evs. plays c w c' w' [seg] evs \<and> heard w w' [] \<and> (r = Inr () \<longleftrightarrow> 0 \<le> play_time c seg)"
proof -
  have t: "play_time (add_stall a b seg c) = play_time c" by (rule play_time_cong) simp
  have p: "plays (add_stall a b seg c) w c' w' [seg] []" "heard w w' []" "r = Inr () \<longleftrightarrow> 0 \<le> play_time c seg"
    using consume_plays[OF assms] by (simp_all add: t)
  have "plays c w c' w' [seg] (if b > fl (2 / 100) then [(fl (a - session_start c), b, bs_segment seg)] else [])"
    using p(1) t by (auto simp: plays_def add_stall_def add_times_def event_ok_def)
  then show ?thesis using p by blast
qed

text \<open>What a call of the loop does, for the induction over its unfoldings.\<close>

definition steady_ok :: "playback_controller \<Rightarrow> play_env \<Rightarrow> unit result \<times> playback_controller \<times> play_env \<Rightarrow> bool" where
  "steady_ok c w z \<longleftrightarrow> (case z of (r, c', w') \<Rightarrow> \<exists>segs evs. plays c w c' w' segs evs \<and> heard w w' segs
     \<and> (r = Inr () \<longleftrightarrow> list_all (\<lambda>s. 0 \<le> play_time c s) segs)
     \<and> int (length segs) \<le> max 0 (total_segments c - segments_played (report c))
     \<and> (if r = Inr () then finished c' else finished c' = finished c))"

lemma consume_finished: "consume seg c w = (r, c', w') \<Longrightarrow> finished c' = finished c"
  by (auto simp: consume_def played_def split: if_splits)

text \<open>One segment is heard and consumed, and then the loop goes on or the exception ends it.\<close>

lemma steady_ok_one:
  assumes ih: "\<And>c w z. rec c w = Some z \<Longrightarrow> steady_ok c w z"
    and room: "segments_played (report c) < total_segments c"
    and h: "heard w w1 [seg]" "sleeps w1 = sleeps w"
    and n: "consume seg (add_stall a b seg c) w1 = (r, c2, w2) \<or> consume seg c w1 = (r, c2, w2)"
    and eq: "(if r = Inr () then rec c2 w2 else Some (r, c2, w2)) = Some z"
  shows "steady_ok c w z"
proof -
  obtain evs where e: "plays c w1 c2 w2 [seg] evs" "heard w1 w2 []" "r = Inr () \<longleftrightarrow> 0 \<le> play_time c seg"
    using n add_stall_plays[of seg a b c w1 r c2 w2] consume_plays[of seg c w1 r c2 w2] by metis
  have "finished c2 = finished (add_stall a b seg c) \<or> finished c2 = finished c"
    using n consume_finished by blast
  then have fin: "finished c2 = finished c" by simp
  have p: "plays c w c2 w2 [seg] evs" using e(1) h(2) by (simp add: plays_def)
  have hd: "heard w w2 [seg]" using heard_trans[OF h(1) e(2)] by simp
  have sp: "segments_played (report c2) = segments_played (report c) + 1" "total_segments c2 = total_segments c"
    "play_time c2 = play_time c" using p by (simp_all add: plays_def play_time_cong[of c2 c])
  show ?thesis
  proof (cases "r = Inr ()")
    case True
    obtain r' c' w' where z: "z = (r', c', w')" by (cases z) auto
    have "rec c2 w2 = Some z" using eq True by simp
    from ih[OF this] obtain segs evs' where s: "plays c2 w2 c' w' segs evs'" "heard w2 w' segs"
      "r' = Inr () \<longleftrightarrow> list_all (\<lambda>s. 0 \<le> play_time c s) segs"
      "int (length segs) \<le> max 0 (total_segments c - (segments_played (report c) + 1))"
      "if r' = Inr () then finished c' else finished c' = finished c"
      unfolding steady_ok_def z prod.case sp fin by blast
    have "plays c w c' w' ([seg] @ segs) (evs @ evs')" by (rule plays_trans[OF p s(1)])
    moreover have "heard w w' ([seg] @ segs)" by (rule heard_trans[OF hd s(2)])
    moreover have "r' = Inr () \<longleftrightarrow> list_all (\<lambda>s. 0 \<le> play_time c s) ([seg] @ segs)" using s(3) e(3) True by simp
    moreover have "int (length ([seg] @ segs)) \<le> max 0 (total_segments c - segments_played (report c))"
      using s(4) room by simp
    ultimately show ?thesis using s(5) unfolding steady_ok_def z prod.case by blast
  next
    case False
    then have z: "z = (r, c2, w2)" using eq by simp
    have "r = Inr () \<longleftrightarrow> list_all (\<lambda>s. 0 \<le> play_time c s) [seg]" using e(3) by simp
    moreover have "int (length [seg]) \<le> max 0 (total_segments c - segments_played (report c))" using room by simp
    ultimately show ?thesis using p hd fin False unfolding steady_ok_def z prod.case by meson
  qed
qed

lemma steady_ok_none:
  assumes "heard w w' []" and "sleeps w' = sleeps w"
  shows "steady_ok c w (Inr (), finish c, w')"
  using assms by (auto simp: steady_ok_def plays_def add_times_def finish_def intro!: exI[of _ "[]"])

lemma steady_accounts:
  assumes "steady c w = Some z"
  shows "steady_ok c w z"
proof (rule steady.raw_induct[OF _ assms, where P = steady_ok])
  fix rec :: "playback_controller \<Rightarrow> play_env \<Rightarrow> (unit result \<times> playback_controller \<times> play_env) option"
    and c and w :: play_env and z
  let ?w = "w\<lparr>calls := calls w + 1\<rparr>" and ?t = "w\<lparr>calls := calls w + 1, ticks := ticks w + 1\<rparr>"
  assume ih: "\<And>c w z. rec c w = Some z \<Longrightarrow> steady_ok c w z"
    and eq: "(if segments_played (report c) < total_segments c then
        (case buffer_get w of
           (None, w1) \<Rightarrow>
             (case monotonic w1 of (stall_start, w2) \<Rightarrow>
                Option.bind (wait_for_segment 600 w2) (\<lambda>(found, w3).
                  case found of
                    None \<Rightarrow> Some (Inr (), finish c, w3)
                  | Some seg \<Rightarrow>
                      (case monotonic w3 of (t, w4) \<Rightarrow>
                         case consume seg (add_stall stall_start (fl (t - stall_start)) seg c) w4 of (r, c5, w5) \<Rightarrow>
                           if r = Inr () then rec c5 w5 else Some (r, c5, w5))))
         | (Some seg, w1) \<Rightarrow>
             (case consume seg c w1 of (r, c2, w2) \<Rightarrow> if r = Inr () then rec c2 w2 else Some (r, c2, w2)))
      else Some (Inr (), finish c, w)) = Some z"
  show "steady_ok c w z"
  proof (cases "segments_played (report c) < total_segments c")
    case room: True
    show ?thesis
    proof (cases "answers w (calls w)")
      case (Some seg)
      obtain r c2 w2 where n: "consume seg c ?w = (r, c2, w2)" by (cases "consume seg c ?w") auto
      have "heard w ?w [seg]" using heard_get[of ?w w] Some by simp
      then show ?thesis using eq room Some n
        by (intro steady_ok_one[where rec = rec and ?w1.0 = ?w and seg = seg and r = r and ?c2.0 = c2 and ?w2.0 = w2, OF ih room]) (simp_all add: buffer_get_def)
    next
      case None
      have h0: "heard w ?t []" using heard_get[of ?t w] None by simp
      obtain found w3 where f: "wait_for_segment 600 ?t = Some (found, w3)"
        using eq room None by (cases "wait_for_segment 600 ?t") (auto simp: buffer_get_def monotonic_def)
      have h: "sleeps w3 = sleeps w" "heard w w3 (case found of None \<Rightarrow> [] | Some s \<Rightarrow> [s])"
        using wait_for_segment_heard[OF f] heard_trans[OF h0] by auto
      show ?thesis
      proof (cases found)
        case None
        then have "z = (Inr (), finish c, w3)"
          using eq room \<open>answers w (calls w) = None\<close> f by (simp add: buffer_get_def monotonic_def)
        then show ?thesis using steady_ok_none h None by simp
      next
        case (Some seg)
        let ?w4 = "w3\<lparr>ticks := ticks w3 + 1\<rparr>" and ?a = "mono_clock w (ticks w)"
        let ?b = "fl (mono_clock w3 (ticks w3) - ?a)"
        obtain r c2 w2 where n: "consume seg (add_stall ?a ?b seg c) ?w4 = (r, c2, w2)"
          by (cases "consume seg (add_stall ?a ?b seg c) ?w4") auto
        have "heard w3 ?w4 []" by (rule heard_same) simp_all
        then have "heard w ?w4 [seg]" using heard_trans[of w w3 "[seg]" ?w4 "[]"] h(2) Some by simp
        then show ?thesis using eq room \<open>answers w (calls w) = None\<close> f Some n h(1)
          by (intro steady_ok_one[where rec = rec and ?w1.0 = ?w4 and seg = seg and a = ?a and b = ?b and r = r and ?c2.0 = c2
              and ?w2.0 = w2, OF ih room]) (simp_all add: buffer_get_def monotonic_def)
      qed
    qed
  next
    case False
    then have "z = (Inr (), finish c, w)" using eq by simp
    then show ?thesis using steady_ok_none[of w w] by (simp add: heard_same)
  qed
qed

text \<open>The first segment is consumed, and then the loop goes on or the exception ends it.\<close>

lemma run_after_first:
  assumes h: "heard w0 w [seg]" and n: "consume seg c w = (r2, c2, w2)"
    and eq: "(if r2 = Inr () then steady c2 w2 else Some (r2, c2, w2)) = Some (r, c', w')"
    and c: "finished c = False" "segments_played (report c) = 0"
  shows "\<exists>ss evs. plays c w c' w' ss evs \<and> heard w0 w' ss \<and> int (length ss) \<le> max 1 (total_segments c) \<and> ss \<noteq> []
    \<and> (finished c' \<longleftrightarrow> r = Inr ()) \<and> (r = Inr () \<longleftrightarrow> list_all (\<lambda>s. 0 \<le> play_time c s) ss)"
proof -
  have cp: "plays c w c2 w2 [seg] []" "heard w0 w2 [seg]" "r2 = Inr () \<longleftrightarrow> 0 \<le> play_time c seg"
    using consume_plays[OF n] heard_trans[OF h, of w2 "[]"] by auto
  have fin: "finished c2 = False" using consume_finished[OF n] c(1) by simp
  have sp: "total_segments c2 = total_segments c" "segments_played (report c2) = 1" "play_time c2 = play_time c"
    using cp(1) c(2) by (simp_all add: plays_def play_time_cong[of c2 c])
  show ?thesis
  proof (cases "r2 = Inr ()")
    case True
    then have "steady_ok c2 w2 (r, c', w')" using eq steady_accounts by simp
    from this[unfolded steady_ok_def prod.case sp] obtain ss evs where s: "plays c2 w2 c' w' ss evs" "heard w2 w' ss"
      "r = Inr () \<longleftrightarrow> list_all (\<lambda>s. 0 \<le> play_time c s) ss"
      "int (length ss) \<le> max 0 (total_segments c - 1)" "if r = Inr () then finished c' else finished c' = finished c2"
      by blast
    have "plays c w c' w' ([seg] @ ss) ([] @ evs)" by (rule plays_trans[OF cp(1) s(1)])
    moreover have "heard w0 w' ([seg] @ ss)" by (rule heard_trans[OF cp(2) s(2)])
    moreover have "finished c' \<longleftrightarrow> r = Inr ()" using s(5) fin by (simp split: if_splits)
    ultimately show ?thesis using s(3,4) cp(3) True
      by (intro exI[of _ "[seg] @ ss"] exI[of _ "[] @ evs"]) auto
  next
    case False
    then have "r = r2" "c' = c2" "w' = w2" using eq by auto
    then show ?thesis using cp False fin by (intro exI[of _ "[seg]"] exI[of _ "[]"]) auto
  qed
qed

lemma playback_run_report:
  assumes "playback_init n sp start w0 = (c, w)" and "playback_run c w = Some (r, c', w')"
    and "segs = answered (answers w) (calls w) (calls w')"
  shows "segments_played (join_session c') = int (length segs) \<and> int (length segs) \<le> max 1 n
    \<and> last_segment (join_session c') = (if segs = [] then 0 else bs_segment (last segs))
    \<and> sleeps w' = sleeps w @ map (play_time c) (filter (\<lambda>s. 0 \<le> play_time c s) segs)
    \<and> rebuffer_seconds (join_session c') = add_times 0 (rebuffer_events (join_session c'))
    \<and> length (rebuffer_events (join_session c')) \<le> length segs
    \<and> list_all (event_ok segs) (rebuffer_events (join_session c'))
    \<and> (finished c' \<longleftrightarrow> segs \<noteq> [] \<and> r = Inr ())
    \<and> (r = Inr () \<longleftrightarrow> list_all (\<lambda>s. 0 \<le> play_time c s) segs)"
proof -
  have c: "report c = playback_report_init" "total_segments c = n" "finished c = False"
    using assms(1) by (auto simp: playback_init_def split: prod.splits)
  let ?w = "w\<lparr>ticks := ticks w + 1\<rparr>"
  obtain found w2 where f: "wait_for_segment 600 ?w = Some (found, w2)"
    using assms(2) by (cases "wait_for_segment 600 ?w") (auto simp: playback_run_def monotonic_def)
  have h: "sleeps w2 = sleeps w" "heard w w2 (case found of None \<Rightarrow> [] | Some s \<Rightarrow> [s])"
    using wait_for_segment_heard[OF f] by (auto simp: heard_def)
  show ?thesis
  proof (cases found)
    case None
    then have z: "r = Inr ()" "c' = c" "w' = w2" using assms(2) f by (auto simp: playback_run_def monotonic_def)
    moreover have "segs = []" using h(2) None assms(3) z by (simp add: heard_def)
    ultimately show ?thesis using c h(1) by (simp add: playback_report_init_def join_session_def add_times_def)
  next
    case (Some seg)
    let ?c = "c\<lparr>report := (report c)\<lparr>startup_delay := fl (mono_clock w2 (ticks w2) - mono_clock w (ticks w))\<rparr>\<rparr>"
    let ?w3 = "w2\<lparr>ticks := ticks w2 + 1\<rparr>"
    have h3: "heard w ?w3 [seg]" using heard_trans[OF h(2) heard_same[of ?w3 w2]] Some by simp
    obtain r2 c2 w4 where n: "consume seg ?c ?w3 = (r2, c2, w4)" by (cases "consume seg ?c ?w3") auto
    have t: "play_time ?c = play_time c" by (rule play_time_cong) simp
    have eq: "(if r2 = Inr () then steady c2 w4 else Some (r2, c2, w4)) = Some (r, c', w')"
      using assms(2) f Some n by (simp add: playback_run_def monotonic_def)
    from run_after_first[OF h3 n eq] c obtain ss evs where s: "plays ?c ?w3 c' w' ss evs" "heard w w' ss"
      "int (length ss) \<le> max 1 n" "ss \<noteq> []" "finished c' \<longleftrightarrow> r = Inr ()" "r = Inr () \<longleftrightarrow> list_all (\<lambda>s. 0 \<le> play_time c s) ss"
      by (auto simp: t playback_report_init_def)
    have "segs = ss" using s(2) assms(3) by (simp add: heard_def)
    then show ?thesis using s c(1) h(1)
      by (simp add: plays_def playback_report_init_def join_session_def t)
  qed
qed

section \<open>Properties\<close>

text \<open>C31: The playing thread always ends: on a clock that goes on, whatever the buffer answers and
  however often it answers nothing, \<open>run\<close> returns.\<close>

theorem playback_terminates:
  assumes "clock_goes_on (mono_clock w)"
  shows "\<exists>r c' w'. playback_run c w = Some (r, c', w')"
proof -
  let ?w = "w\<lparr>ticks := ticks w + 1\<rparr>"
  obtain found w2 where f: "wait_for_segment 600 ?w = Some (found, w2)" "mono_clock w2 = mono_clock w"
    using wait_for_segment_ends[of ?w 600] assms by auto
  show ?thesis
  proof (cases found)
    case None
    then show ?thesis using f by (simp add: playback_run_def monotonic_def)
  next
    case (Some seg)
    let ?c = "c\<lparr>report := (report c)\<lparr>startup_delay := fl (mono_clock w (ticks w2) - mono_clock w (ticks w))\<rparr>\<rparr>"
    obtain r c4 w4 where n: "consume seg ?c (w2\<lparr>ticks := ticks w2 + 1\<rparr>) = (r, c4, w4)"
      by (cases "consume seg ?c (w2\<lparr>ticks := ticks w2 + 1\<rparr>)") auto
    then have "mono_clock w4 = mono_clock w" using consume_fields f(2) by fastforce
    then obtain z where "steady c4 w4 = Some z" using steady_ends[of w4 c4] assms by auto
    then show ?thesis using f n Some by (cases z) (auto simp: playback_run_def monotonic_def)
  qed
qed

definition play_env_at :: "(nat \<Rightarrow> real) \<Rightarrow> buffered_segment list \<Rightarrow> play_env" where
  "play_env_at f segs = \<lparr>mono_clock = f, perf_clock = f, wall_clock = f, ticks = 0, sleeps = [],
     answers = (\<lambda>n. if n < length segs then Some (segs ! n) else None), calls = 0\<rparr>"

lemma playback_terminates_witness:
  "\<exists>r c' w'. playback_run (fst (playback_init 3 1 None (play_env_at of_nat [])))
     (play_env_at of_nat [minute, minute]) = Some (r, c', w')"
proof (rule playback_terminates)
  show "clock_goes_on (mono_clock (play_env_at of_nat [minute, minute]))"
    unfolding clock_goes_on_def
  proof
    fix b :: real
    have "b \<le> of_nat k" if "nat \<lceil>b\<rceil> \<le> k" for k using that by linarith
    then show "\<exists>n. \<forall>k\<ge>n. b \<le> mono_clock (play_env_at of_nat [minute, minute]) k"
      by (intro exI[of _ "nat \<lceil>b\<rceil>"]) (simp add: play_env_at_def)
  qed
qed

text \<open>C32: The report is right: when \<open>run\<close> has returned, the segments played are exactly those it got from
  the buffer, at most the total asked for (one, if fewer were asked for), each was played for its
  duration over the speed, in the order it came; the rebuffering time is the sum of the recorded
  events, each of which is longer than 20 ms and names a segment that was played; the thread counts as
  finished unless it got nothing or died of a negative duration.\<close>

theorem playback_accounts:
  assumes "playback_init n sp start w0 = (c, w)" and "playback_run c w = Some (r, c', w')"
    and "segs = answered (answers w) (calls w) (calls w')"
  shows "segments_played (join_session c') = int (length segs) \<and> int (length segs) \<le> max 1 n
    \<and> last_segment (join_session c') = (if segs = [] then 0 else bs_segment (last segs))
    \<and> sleeps w' = sleeps w @ map (play_time c) (filter (\<lambda>s. 0 \<le> play_time c s) segs)
    \<and> rebuffer_seconds (join_session c') = add_times 0 (rebuffer_events (join_session c'))
    \<and> length (rebuffer_events (join_session c')) \<le> length segs
    \<and> list_all (event_ok segs) (rebuffer_events (join_session c'))
    \<and> (finished c' \<longleftrightarrow> segs \<noteq> [] \<and> r = Inr ())
    \<and> (r = Inr () \<longleftrightarrow> list_all (\<lambda>s. 0 \<le> play_time c s) segs)"
  by (rule playback_run_report[OF assms])

lemma playback_accounts_witness:
  defines "w \<equiv> play_env_at (\<lambda>_. 0) [minute]"
  defines "c \<equiv> \<lparr>total_segments = 1, speed = 1, session_start = 0, report = playback_report_init, finished = False\<rparr>"
  shows "\<exists>c' w'. playback_run c w = Some (Inr (), c', w') \<and> segments_played (join_session c') = 1
    \<and> last_segment (join_session c') = 1 \<and> sleeps w' = [60] \<and> rebuffer_seconds (join_session c') = 0 \<and> finished c'"
proof -
  let ?c = "finish (played minute c)"
  let ?w = "w\<lparr>ticks := 4, calls := 1, sleeps := [60]\<rparr>"
  have i: "playback_init 1 1 (Some 0) w = (c, w)"
    using fl_le_1[of "1 / 1000000"] by (simp add: playback_init_def c_def not_less)
  have r: "playback_run c w = Some (Inr (), ?c, ?w)"
    by (simp add: playback_run_def wait_for_segment_def wait_loop.simps steady.simps monotonic_def w_def play_env_at_def
        buffer_get_def consume_def played_def play_time_def sleep_def c_def playback_report_init_def finish_def)
  have a: "answered (answers w) (calls w) (calls ?w) = [minute]"
    by (simp add: answered_def List.map_filter_def w_def play_env_at_def)
  have p: "play_time c minute = 60" by (simp add: play_time_def c_def)
  from playback_accounts[OF i r refl] show ?thesis unfolding a using r p
    by (intro exI[of _ ?c] exI[of _ ?w]) (auto simp: w_def play_env_at_def minute_def c_def finish_def join_session_def
        playback_report_init_def played_def)
qed

end
