(* ===== verification/Collector.thy ===== *)
theory Collector
  imports PyText Prelude
begin

text \<open>
  \<open>client/metrics/collector.py\<close>: the SQLite tables of the experiments, as lists of rows in the order
  of insertion, and the operations on them; and from \<open>analysis/analyze.py\<close> the two queries that read
  them.  A table with \<open>AUTOINCREMENT\<close> has a counter, the largest number it has ever given.  Of the
  language SQL only the statements of these two files are there.
\<close>

section \<open>The tables\<close>

record session_row =
  s_id :: int
  s_client :: pystr
  s_abr :: pystr
  s_profile :: pystr
  s_alpha :: real
  s_beta :: real
  s_gamma :: real
  s_start_time :: real
  s_segment_count :: int
  s_notes :: pystr

record segment_data =
  timestamp :: real
  m_segment :: int
  m_rep :: pystr
  m_bitrate :: int
  m_size :: int
  download_time :: real
  instant_throughput :: real
  ewma_throughput :: real
  buffer_before :: real
  buffer_after :: real
  quality_switch :: bool
  rebuffer_event :: bool
  rebuffer_duration :: real
  network_profile :: pystr
  m_abr :: pystr

text \<open>A row is its number, its session (NULL where the column allows it) and the rest.\<close>

record qoe_row =
  r_avg_quality :: real
  r_avg_bitrate :: real
  r_rebuffer_seconds :: real
  r_n_switches :: int
  r_qoe :: real

record database =
  sessions :: "session_row list"
  session_seq :: int
  segment_metrics :: "(int \<times> int \<times> segment_data) list"
  segment_seq :: int
  quality_switches :: "(int \<times> int option \<times> (int \<times> int \<times> int)) list"
  switch_seq :: int
  rebuffer_rows :: "(int \<times> int option \<times> (real \<times> real \<times> int)) list"
  rebuffer_seq :: int
  qoe_results :: "(int \<times> qoe_row) list"

text \<open>The schema on a new file.\<close>

definition empty_database :: database where
  "empty_database = \<lparr>sessions = [], session_seq = 0, segment_metrics = [], segment_seq = 0, quality_switches = [],
     switch_seq = 0, rebuffer_rows = [], rebuffer_seq = 0, qoe_results = []\<rparr>"

section \<open>The collector\<close>

record metrics_collector =
  db :: database
  is_open :: bool
  session_id :: "int option"

text \<open>The tables are created when they do not exist, and kept when they do.\<close>

definition collector_init :: "database option \<Rightarrow> metrics_collector" where
  "collector_init file =
     \<lparr>db = (case file of None \<Rightarrow> empty_database | Some d \<Rightarrow> d), is_open = True, session_id = None\<rparr>"

text \<open>\<open>execute\<close> on a closed connection, and integers that do not fit into 64 bits.\<close>

definition sql_int :: "int \<Rightarrow> bool" where
  "sql_int n \<longleftrightarrow> - (2 ^ 63) \<le> n \<and> n < 2 ^ 63"

definition guarded :: "metrics_collector \<Rightarrow> int list \<Rightarrow> exn option" where
  "guarded c ints =
     (if \<not> is_open c then Some ProgrammingError
      else if \<not> list_all sql_int ints then Some OverflowError else None)"

definition start_session :: "pystr \<Rightarrow> pystr \<Rightarrow> pystr \<Rightarrow> real \<Rightarrow> real \<Rightarrow> real \<Rightarrow> int \<Rightarrow> pystr \<Rightarrow> real \<Rightarrow>
    metrics_collector \<Rightarrow> int result \<times> metrics_collector" where
  "start_session client abr profile al be ga n notes now c =
     (case guarded c [n] of
        Some e \<Rightarrow> (Inl e, c)
      | None \<Rightarrow>
          (let d = db c; i = session_seq d + 1;
               row = \<lparr>s_id = i, s_client = client, s_abr = abr, s_profile = profile, s_alpha = al, s_beta = be,
                      s_gamma = ga, s_start_time = now, s_segment_count = n, s_notes = notes\<rparr>
           in (Inr i, c\<lparr>db := d\<lparr>sessions := sessions d @ [row], session_seq := i\<rparr>, session_id := Some i\<rparr>)))"

definition record_segment :: "segment_data \<Rightarrow> metrics_collector \<Rightarrow> unit result \<times> metrics_collector" where
  "record_segment row c =
     (case guarded c [m_segment row, m_bitrate row, m_size row] of
        Some e \<Rightarrow> (Inl e, c)
      | None \<Rightarrow>
          (case session_id c of
             None \<Rightarrow> (Inl IntegrityError, c)
           | Some s \<Rightarrow>
               (let d = db c; i = segment_seq d + 1
                in (Inr (), c\<lparr>db := d\<lparr>segment_metrics := segment_metrics d @ [(i, s, row)], segment_seq := i\<rparr>\<rparr>))))"

definition record_switch :: "int \<Rightarrow> int \<Rightarrow> int \<Rightarrow> metrics_collector \<Rightarrow> unit result \<times> metrics_collector" where
  "record_switch seg from_bitrate to_bitrate c =
     (case guarded c [seg, from_bitrate, to_bitrate] of
        Some e \<Rightarrow> (Inl e, c)
      | None \<Rightarrow>
          (let d = db c; i = switch_seq d + 1
           in (Inr (), c\<lparr>db := d\<lparr>quality_switches := quality_switches d @ [(i, session_id c, seg, from_bitrate, to_bitrate)],
                                switch_seq := i\<rparr>\<rparr>)))"

definition record_rebuffer :: "real \<Rightarrow> real \<Rightarrow> int \<Rightarrow> metrics_collector \<Rightarrow> unit result \<times> metrics_collector" where
  "record_rebuffer start_offset duration seg c =
     (case guarded c [seg] of
        Some e \<Rightarrow> (Inl e, c)
      | None \<Rightarrow>
          (let d = db c; i = rebuffer_seq d + 1
           in (Inr (), c\<lparr>db := d\<lparr>rebuffer_rows := rebuffer_rows d @ [(i, session_id c, start_offset, duration, seg)],
                                rebuffer_seq := i\<rparr>\<rparr>)))"

text \<open>
  \<open>INSERT OR REPLACE\<close>: a row with the same primary key is deleted first.  Without a session the key
  is NULL, and SQLite takes one more than the largest.
\<close>

definition replace_row :: "int \<Rightarrow> 'a \<Rightarrow> (int \<times> 'a) list \<Rightarrow> (int \<times> 'a) list" where
  "replace_row k v rows = filter (\<lambda>p. fst p \<noteq> k) rows @ [(k, v)]"

definition next_rowid :: "(int \<times> 'a) list \<Rightarrow> int" where
  "next_rowid rows = (if rows = [] then 1 else Max (fst ` set rows) + 1)"

definition record_qoe :: "qoe_row \<Rightarrow> metrics_collector \<Rightarrow> unit result \<times> metrics_collector" where
  "record_qoe row c =
     (case guarded c [r_n_switches row] of
        Some e \<Rightarrow> (Inl e, c)
      | None \<Rightarrow>
          (let d = db c; k = (case session_id c of Some s \<Rightarrow> s | None \<Rightarrow> next_rowid (qoe_results d))
           in (Inr (), c\<lparr>db := d\<lparr>qoe_results := replace_row k row (qoe_results d)\<rparr>\<rparr>)))"

text \<open>
  \<open>query\<close> gives any statement to SQLite, which is the parameter \<open>execute\<close> here: the rows it answers with, or its error,
  and the tables afterwards.
\<close>

definition query :: "(pystr \<Rightarrow> 'p \<Rightarrow> database \<Rightarrow> 'row list result \<times> database) \<Rightarrow> pystr \<Rightarrow> 'p \<Rightarrow>
    metrics_collector \<Rightarrow> 'row list result \<times> metrics_collector" where
  "query execute sql params c =
     (if \<not> is_open c then (Inl ProgrammingError, c)
      else let (r, d) = execute sql params (db c) in (r, c\<lparr>db := d\<rparr>))"

definition collector_close :: "metrics_collector \<Rightarrow> metrics_collector" where
  "collector_close c = c\<lparr>is_open := False\<rparr>"

section \<open>The queries of the analysis\<close>

text \<open>\<open>sessions s LEFT JOIN qoe_results q ON q.session_id = s.id ORDER BY s.id\<close>.\<close>

definition left_join :: "('a \<Rightarrow> int) \<Rightarrow> 'a list \<Rightarrow> (int \<times> 'b) list \<Rightarrow> ('a \<times> 'b option) list" where
  "left_join key xs rows =
     concat (map (\<lambda>x. case filter (\<lambda>p. fst p = key x) rows of
                        [] \<Rightarrow> [(x, None)]
                      | ms \<Rightarrow> map (\<lambda>p. (x, Some (snd p))) ms) xs)"

definition load_sessions :: "database \<Rightarrow> (session_row \<times> qoe_row option) list" where
  "load_sessions d = left_join s_id (sort_key s_id (sessions d)) (qoe_results d)"

text \<open>\<open>segment_metrics ORDER BY session_id, segment_id\<close>.\<close>

definition segment_frame :: "database \<Rightarrow> (int \<times> int \<times> segment_data) list" where
  "segment_frame d =
     sort_key (\<lambda>r. fst (snd r)) (sort_key (\<lambda>r. m_segment (snd (snd r))) (segment_metrics d))"

section \<open>The tables stay well-formed\<close>

definition numbered :: "int list \<Rightarrow> int \<Rightarrow> bool" where
  "numbered ids n \<longleftrightarrow> distinct ids \<and> (\<forall>i\<in>set ids. i \<le> n)"

lemma numbered_next: "numbered ids n \<Longrightarrow> numbered (ids @ [n + 1]) (n + 1)"
  by (auto simp: numbered_def)

lemma numbered_nil [simp]: "numbered [] n"
  by (simp add: numbered_def)

text \<open>
  Primary keys are unique and below their counters, and every row of \<open>segment_metrics\<close> belongs to a
  session that exists: the declared foreign key, which SQLite does not enforce by itself.
\<close>

definition db_ok :: "database \<Rightarrow> bool" where
  "db_ok d \<longleftrightarrow> numbered (map s_id (sessions d)) (session_seq d)
   \<and> numbered (map fst (segment_metrics d)) (segment_seq d)
   \<and> numbered (map fst (quality_switches d)) (switch_seq d)
   \<and> numbered (map fst (rebuffer_rows d)) (rebuffer_seq d)
   \<and> distinct (map fst (qoe_results d))
   \<and> list_all (\<lambda>r. fst (snd r) \<in> set (map s_id (sessions d))) (segment_metrics d)
   \<and> list_all (\<lambda>r. set_option (fst (snd r)) \<subseteq> set (map s_id (sessions d))) (quality_switches d)
   \<and> list_all (\<lambda>r. set_option (fst (snd r)) \<subseteq> set (map s_id (sessions d))) (rebuffer_rows d)"

definition collector_ok :: "metrics_collector \<Rightarrow> bool" where
  "collector_ok c \<longleftrightarrow> db_ok (db c)
   \<and> (case session_id c of None \<Rightarrow> True | Some s \<Rightarrow> s \<in> set (map s_id (sessions (db c))))"

text \<open>What a program may do with collectors on one file: the operations, and opening it again.\<close>

inductive collector_step :: "metrics_collector \<Rightarrow> metrics_collector \<Rightarrow> bool" where
  "collector_step c (snd (start_session client abr profile al be ga n notes now c))"
| "collector_step c (snd (record_segment row c))"
| "collector_step c (snd (record_switch seg f t c))"
| "collector_step c (snd (record_rebuffer off dur seg c))"
| "collector_step c (snd (record_qoe q c))"
| "collector_step c (collector_close c)"
| "collector_step c (collector_init (Some (db c)))"

lemma replace_row_distinct: "distinct (map fst rows) \<Longrightarrow> distinct (map fst (replace_row k v rows))"
  by (auto simp: replace_row_def distinct_map inj_on_def)

lemma collector_ok_step: "collector_ok c \<Longrightarrow> collector_step c c' \<Longrightarrow> collector_ok c'"
proof (erule collector_step.cases, goal_cases)
  case 1
  then show ?case using numbered_next[of "map s_id (sessions (db c))" "session_seq (db c)"]
    by (auto simp: start_session_def collector_ok_def db_ok_def list_all_iff Let_def split: option.splits)
next
  case 2
  then show ?case using numbered_next[of "map fst (segment_metrics (db c))" "segment_seq (db c)"]
    by (auto simp: record_segment_def collector_ok_def db_ok_def Let_def split: option.splits)
next
  case 3
  then show ?case using numbered_next[of "map fst (quality_switches (db c))" "switch_seq (db c)"]
    by (auto simp: record_switch_def collector_ok_def db_ok_def Let_def split: option.splits)
next
  case 4
  then show ?case using numbered_next[of "map fst (rebuffer_rows (db c))" "rebuffer_seq (db c)"]
    by (auto simp: record_rebuffer_def collector_ok_def db_ok_def Let_def split: option.splits)
next
  case 5
  then show ?case
    by (auto simp: record_qoe_def collector_ok_def db_ok_def Let_def replace_row_distinct split: option.splits)
qed (auto simp: collector_close_def collector_init_def collector_ok_def split: option.splits)

definition collector_start :: "metrics_collector \<Rightarrow> bool" where
  "collector_start c \<longleftrightarrow> c = collector_init None"

lemma collector_ok_init: "collector_start c \<Longrightarrow> collector_ok c"
  by (simp add: collector_start_def collector_init_def collector_ok_def db_ok_def empty_database_def)

interpretation metrics: machine_invariant collector_start collector_step collector_ok
  by unfold_locales (auto intro: collector_ok_init collector_ok_step)

text \<open>The rows of one session.\<close>

definition segments_of :: "int \<Rightarrow> database \<Rightarrow> segment_data list" where
  "segments_of k d = map (\<lambda>r. snd (snd r)) (filter (\<lambda>r. fst (snd r) = k) (segment_metrics d))"

definition switches_of :: "int \<Rightarrow> database \<Rightarrow> (int \<times> int \<times> int) list" where
  "switches_of k d = map (\<lambda>r. snd (snd r)) (filter (\<lambda>r. fst (snd r) = Some k) (quality_switches d))"

definition rebuffers_of :: "int \<Rightarrow> database \<Rightarrow> (real \<times> real \<times> int) list" where
  "rebuffers_of k d = map (\<lambda>r. snd (snd r)) (filter (\<lambda>r. fst (snd r) = Some k) (rebuffer_rows d))"

lemma new_session_empty:
  assumes "db_ok d"
  shows "segments_of (session_seq d + 1) d = []" "switches_of (session_seq d + 1) d = []"
    "rebuffers_of (session_seq d + 1) d = []"
proof -
  have new: "session_seq d + 1 \<notin> set (map s_id (sessions d))"
    using assms unfolding db_ok_def numbered_def by fastforce
  show "segments_of (session_seq d + 1) d = []" "switches_of (session_seq d + 1) d = []"
    "rebuffers_of (session_seq d + 1) d = []"
    using assms new unfolding db_ok_def segments_of_def switches_of_def rebuffers_of_def list_all_iff
    by (fastforce simp: filter_empty_conv)+
qed

section \<open>The join\<close>

lemma left_join_unique:
  assumes "distinct (map fst rows)"
  shows "left_join key xs rows = map (\<lambda>x. (x, map_of rows (key x))) xs"
proof -
  have "filter (\<lambda>p. fst p = k) rows = (case map_of rows k of None \<Rightarrow> [] | Some v \<Rightarrow> [(k, v)])" for k
    using assms by (induction rows) (auto simp: filter_empty_conv map_of_eq_None_iff image_iff split: option.splits)
  then show ?thesis by (induction xs) (auto simp: left_join_def split: option.splits)
qed

lemma map_of_replace_row: "map_of (replace_row k v rows) = (map_of rows)(k \<mapsto> v)"
proof
  fix x show "map_of (replace_row k v rows) x = ((map_of rows)(k \<mapsto> v)) x"
    by (induction rows) (auto simp: replace_row_def)
qed

lemma load_sessions_eq: "db_ok d \<Longrightarrow>
    load_sessions d = map (\<lambda>s. (s, map_of (qoe_results d) (s_id s))) (sort_key s_id (sessions d))"
  by (simp add: load_sessions_def left_join_unique db_ok_def)

section \<open>Properties\<close>

text \<open>C33: Whatever a program does with collectors on one database file, with whatever errors, the tables
  stay well-formed: every primary key is unique, no number is given twice, and every row of the segment
  table belongs to a session that exists, though SQLite does not check the declared foreign key.\<close>

theorem collector_tables_wellformed:
  assumes "reachable collector_start collector_step c"
  shows "distinct (map s_id (sessions (db c))) \<and> distinct (map fst (segment_metrics (db c)))
    \<and> distinct (map fst (quality_switches (db c))) \<and> distinct (map fst (rebuffer_rows (db c)))
    \<and> distinct (map fst (qoe_results (db c)))
    \<and> (\<forall>i\<in>set (map s_id (sessions (db c))). i \<le> session_seq (db c))
    \<and> (\<forall>r\<in>set (segment_metrics (db c)). fst (snd r) \<in> s_id ` set (sessions (db c)))"
  using metrics.always[OF assms] by (auto simp: collector_ok_def db_ok_def numbered_def list_all_iff)

definition sample_row :: segment_data where
  "sample_row = \<lparr>timestamp = 0, m_segment = 1, m_rep = u ''360p'', m_bitrate = 500000, m_size = 125000, download_time = 1,
     instant_throughput = 1000000, ewma_throughput = 1000000, buffer_before = 0, buffer_after = 2,
     quality_switch = False, rebuffer_event = False, rebuffer_duration = 0, network_profile = u ''none'', m_abr = u ''rate''\<rparr>"

definition sample_qoe :: qoe_row where
  "sample_qoe = \<lparr>r_avg_quality = 1, r_avg_bitrate = 5000000, r_rebuffer_seconds = 0, r_n_switches = 0, r_qoe = 1\<rparr>"

definition sample_collector :: metrics_collector where
  "sample_collector = snd (record_segment sample_row
     (snd (start_session (u ''c'') (u ''rate'') (u ''none'') 1 (9 / 2) 1 60 [] 0 (collector_init None))))"

lemma sample_collector_reachable: "reachable collector_start collector_step sample_collector"
proof -
  have "reachable collector_start collector_step (collector_init None)"
    by (rule reach_init) (simp add: collector_start_def)
  then have "reachable collector_start collector_step
      (snd (start_session (u ''c'') (u ''rate'') (u ''none'') 1 (9 / 2) 1 60 [] 0 (collector_init None)))"
    by (rule reach_step) (rule collector_step.intros)
  then show ?thesis unfolding sample_collector_def by (rule reach_step) (rule collector_step.intros)
qed

lemma sample_collector_fields:
  "session_id sample_collector = Some 1" "is_open sample_collector = True" "map s_id (sessions (db sample_collector)) = [1]"
  "segment_metrics (db sample_collector) = [(1, 1, sample_row)]" "qoe_results (db sample_collector) = []"
  by (simp_all add: sample_collector_def record_segment_def start_session_def guarded_def collector_init_def sql_int_def
      empty_database_def sample_row_def Let_def)

lemma collector_tables_wellformed_witness:
  "distinct (map fst (segment_metrics (db sample_collector))) \<and> segment_metrics (db sample_collector) = [(1, 1, sample_row)]
    \<and> 1 \<in> s_id ` set (sessions (db sample_collector))"
  using collector_tables_wellformed[OF sample_collector_reachable] by (simp add: sample_collector_fields)

text \<open>C34: The analysis reads back what the sessions wrote: \<open>load_sessions\<close> has exactly one entry per
  session, in the order of their numbers, and after \<open>record_qoe\<close> the entry of that session, and no
  other, has changed: it carries the recorded result, also when there was an earlier one.\<close>

theorem load_sessions_reads_back:
  assumes "reachable collector_start collector_step c" and "session_id c = Some k"
    and "record_qoe q c = (Inr (), c')"
  shows "map fst (load_sessions (db c)) = sort_key s_id (sessions (db c))
    \<and> load_sessions (db c') = map (\<lambda>(x, r). (x, if s_id x = k then Some q else r)) (load_sessions (db c))
    \<and> (\<exists>x. s_id x = k \<and> (x, Some q) \<in> set (load_sessions (db c')))"
proof -
  have ok: "db_ok (db c)" "k \<in> s_id ` set (sessions (db c))"
    using metrics.always[OF assms(1)] assms(2) by (auto simp: collector_ok_def)
  have c': "c' = snd (record_qoe q c)" using assms(3) by simp
  have "reachable collector_start collector_step c'" unfolding c'
    by (rule reach_step[OF assms(1)]) (rule collector_step.intros)
  then have ok': "db_ok (db c')" using metrics.always by (auto simp: collector_ok_def)
  have "sessions (db c') = sessions (db c)" "qoe_results (db c') = replace_row k q (qoe_results (db c))"
    using assms(2,3) by (auto simp: record_qoe_def Let_def split: option.splits)
  then have e: "load_sessions (db c') = map (\<lambda>s. (s, if s_id s = k then Some q else map_of (qoe_results (db c)) (s_id s)))
      (sort_key s_id (sessions (db c)))"
    using load_sessions_eq[OF ok'] by (simp add: map_of_replace_row)
  moreover obtain x where x: "x \<in> set (sessions (db c))" "s_id x = k" using ok(2) by auto
  then have "(x, Some q) \<in> set (load_sessions (db c'))" unfolding e set_map by (intro image_eqI[of _ _ x]) simp_all
  ultimately show ?thesis using x(2) by (auto simp: load_sessions_eq[OF ok(1)] o_def)
qed

lemma load_sessions_reads_back_witness:
  "\<exists>x. s_id x = 1 \<and> (x, Some sample_qoe) \<in> set (load_sessions (db (snd (record_qoe sample_qoe sample_collector))))"
proof -
  have "fst (record_qoe sample_qoe sample_collector) = Inr ()"
    by (simp add: record_qoe_def guarded_def sample_collector_fields sample_qoe_def sql_int_def Let_def)
  then have "record_qoe sample_qoe sample_collector = (Inr (), snd (record_qoe sample_qoe sample_collector))"
    by (metis prod.collapse)
  from load_sessions_reads_back[OF sample_collector_reachable sample_collector_fields(1) this] show ?thesis by blast
qed

end
