(* ===== verification/Session.thy ===== *)
theory Session
  imports EndToEnd Qoe Scheduler Network Playback Collector
begin

text \<open>
  \<open>run_session\<close> of \<open>client/client.py\<close>: the loop that asks the scheduler and the controller, downloads,
  fills the buffer and writes the tables, and what is done before and after it.  The playing thread
  and the buffer are seen through what the main thread gets from them: each reading of the buffer level
  is the next value of a sequence, and so is each look of \<open>put\<close>, which goes on looking until there is
  room (it has no timeout) and then adds its segment to the list of the segments put; when no look finds room the
  session never returns.  The report comes from outside.  The theories \<open>Buffer\<close> and \<open>Playback\<close> say what
  levels and reports these threads can produce.  What a verbose session prints is in \<open>Report\<close>.
\<close>

section \<open>Sequencing\<close>

text \<open>
  A step returns a value, raises an exception, waits for ever, or leaves the model (a number that is not finite
  where the model has only finite ones); the state is kept in each case.
\<close>

datatype 'a outcome = Ret 'a | Exc exn | Waits | Outside

type_synonym ('s, 'a) act = "'s \<Rightarrow> 'a outcome \<times> 's"

definition then_do :: "('s, 'a) act \<Rightarrow> ('a \<Rightarrow> ('s, 'b) act) \<Rightarrow> ('s, 'b) act" where
  "then_do m f s = (case m s of
      (Ret x, s') \<Rightarrow> f x s'
    | (Exc e, s') \<Rightarrow> (Exc e, s')
    | (Waits, s') \<Rightarrow> (Waits, s')
    | (Outside, s') \<Rightarrow> (Outside, s'))"

definition return_of :: "'a result \<Rightarrow> ('s, 'a) act" where
  "return_of r s = (case r of Inl e \<Rightarrow> (Exc e, s) | Inr x \<Rightarrow> (Ret x, s))"

lemma then_do_Ret: "then_do m f s = (Ret y, s') \<longleftrightarrow> (\<exists>x s1. m s = (Ret x, s1) \<and> f x s1 = (Ret y, s'))"
  by (auto simp: then_do_def split: prod.splits outcome.splits)

lemma return_of_Ret [simp]: "return_of r s = (Ret y, s') \<longleftrightarrow> r = Inr y \<and> s' = s"
  by (auto simp: return_of_def split: sum.splits)

section \<open>The state of a session\<close>

record session =
  ss_abr :: abr
  ss_downloader :: downloader
  ss_ewma :: ewma
  ss_scheduler :: deadline_scheduler
  ss_collector :: metrics_collector
  ss_index :: int
  ss_qualities :: "real list"
  ss_switches :: int
  ss_world :: world
  ss_levels :: "nat \<Rightarrow> real"
  ss_reads :: nat
  ss_puts :: "buffered_segment list"

text \<open>Reading the level and the clocks.\<close>

definition read_level :: "(session, real) act" where
  "read_level s = (Ret (ss_levels s (ss_reads s)), s\<lparr>ss_reads := ss_reads s + 1\<rparr>)"

definition read_monotonic :: "(session, real) act" where
  "read_monotonic s = (let (t, w) = monotonic (ss_world s) in (Ret t, s\<lparr>ss_world := w\<rparr>))"

definition read_time :: "(session, real) act" where
  "read_time s = (let (t, w) = wall_time (ss_world s) in (Ret t, s\<lparr>ss_world := w\<rparr>))"

text \<open>A call of an operation of the collector.\<close>

definition collect :: "(metrics_collector \<Rightarrow> 'a result \<times> metrics_collector) \<Rightarrow> (session, 'a) act" where
  "collect f s = (let (r, c) = f (ss_collector s) in return_of r (s\<lparr>ss_collector := c\<rparr>))"

section \<open>One segment\<close>

definition ask_scheduler :: "int \<Rightarrow> (session, int) act" where
  "ask_scheduler i =
     then_do read_monotonic (\<lambda>t.
     then_do read_level (\<lambda>b s.
       let (k, sch) = next_segment (i + 1) 3 t b (ss_scheduler s)
       in (Ret k, s\<lparr>ss_scheduler := sch\<rparr>)))"

definition state_of :: "session \<Rightarrow> int \<Rightarrow> real \<Rightarrow> abr_state" where
  "state_of s k b =
     \<lparr>buffer_level = b,
      throughput_bps = (case ewma_estimate (ss_ewma s) of
          None \<Rightarrow> fl (of_int (snd (hd DEFAULT_LADDER)))
        | Some t \<Rightarrow> if t = 0 then fl (of_int (snd (hd DEFAULT_LADDER))) else t),
      st_segment_id = k, current_index = ss_index s,
      segments_downloaded = int (length (ss_qualities s)), last_download_time = 0\<rparr>"

definition decide :: "int \<Rightarrow> (session, int \<times> pystr \<times> int) act" where
  "decide k =
     then_do read_level (\<lambda>b s.
       case select (ss_abr s) (state_of s k b) of
         Inl e \<Rightarrow> (Exc e, s)
       | Inr (index, a) \<Rightarrow>
           then_do (return_of (py_nth DEFAULT_LADDER index)) (\<lambda>rung s. (Ret (index, rung), s))
             (s\<lparr>ss_abr := a\<rparr>))"

definition download_checked :: "pystr \<Rightarrow> int \<Rightarrow> (session, segment_download) act" where
  "download_checked rep k s =
     (let (r, d, w) = download rep k (ss_downloader s) (ss_world s);
          s' = s\<lparr>ss_downloader := d, ss_world := w\<rparr>
      in case r of
           Inl e \<Rightarrow> (Exc e, s')
         | Inr result \<Rightarrow> if sd_status result \<noteq> 200 then (Exc ConnectionError, s') else (Ret result, s'))"

definition update_ewma :: "real \<Rightarrow> (session, real) act" where
  "update_ewma t s = (let (v, e) = ewma_update t (ss_ewma s) in (Ret v, s\<lparr>ss_ewma := e\<rparr>))"

text \<open>A change of level: counted, recorded, and made current; the answer says whether there was one.\<close>

definition note_switch :: "int \<Rightarrow> int \<Rightarrow> int \<Rightarrow> (session, bool) act" where
  "note_switch k index br s =
     (if index \<noteq> ss_index s then
        then_do (\<lambda>s. return_of (bitrate_of (ss_index s) (abr_ladder (ss_abr s))) (s\<lparr>ss_switches := ss_switches s + 1\<rparr>)) (\<lambda>old.
        then_do (collect (record_switch k old br)) (\<lambda>_ s.
          (Ret True, s\<lparr>ss_index := index\<rparr>))) s
      else (Ret False, s))"

text \<open>
  The waiting loop of \<open>put\<close>: the number of the first look, from the one numbered \<open>n\<close> on, that finds room for
  \<open>d\<close> seconds; there may be none.
\<close>

definition full_at :: "(nat \<Rightarrow> real) \<Rightarrow> real \<Rightarrow> nat \<Rightarrow> bool" where
  "full_at levels d n \<longleftrightarrow> fl (levels n + d) > DEFAULT_MAX_BUFFER_SECONDS"

partial_function (option) first_room :: "(nat \<Rightarrow> real) \<Rightarrow> real \<Rightarrow> nat \<Rightarrow> nat option" where
  "first_room levels d n = (if full_at levels d n then first_room levels d (n + 1) else Some n)"

definition wait_for_room :: "real \<Rightarrow> (session, unit) act" where
  "wait_for_room d s =
     (case first_room (ss_levels s) d (ss_reads s) of
        None \<Rightarrow> (Waits, s)
      | Some n \<Rightarrow> (Ret (), s\<lparr>ss_reads := n + 1\<rparr>))"

text \<open>\<open>result.duration or 2.0\<close>, and the call of \<open>put\<close>.\<close>

definition or_two :: "real \<Rightarrow> real" where
  "or_two d = (if d = 0 then 2 else d)"

definition put_segment :: "int \<Rightarrow> pystr \<Rightarrow> int \<Rightarrow> segment_download \<Rightarrow> (session, unit) act" where
  "put_segment k rep br result s =
     (case sd_duration result of
        Finite d \<Rightarrow>
          then_do read_time (\<lambda>t.
          then_do (wait_for_room (or_two d)) (\<lambda>_ s.
            (Ret (), s\<lparr>ss_puts := ss_puts s @ [\<lparr>bs_segment = k, bs_rep = rep, bs_bitrate = br,
               bs_duration = or_two d, bs_size = sd_size result, received_at = t\<rparr>]\<rparr>))) s
      | _ \<Rightarrow> (Outside, s))"

text \<open>The loop ends exactly when some look finds room, and then at the first such look.\<close>

lemma first_room_at: "\<not> full_at levels d (n + k) \<Longrightarrow> \<exists>m. first_room levels d n = Some m"
proof (induction k arbitrary: n)
  case 0
  then show ?case by (simp add: first_room.simps[of levels d n])
next
  case (Suc k)
  then have "\<exists>m. first_room levels d (n + 1) = Some m" by (metis add_Suc_shift Suc_eq_plus1)
  then show ?case by (auto simp: first_room.simps[of levels d n])
qed

lemma first_room_Some:
  assumes "first_room levels d n = Some m"
  shows "n \<le> m \<and> \<not> full_at levels d m"
  by (rule first_room.raw_induct[OF _ assms]) (fastforce split: if_splits)

lemma first_room_None: "first_room levels d n = None \<longleftrightarrow> (\<forall>k\<ge>n. full_at levels d k)"
proof (cases "first_room levels d n")
  case None
  then have "full_at levels d k" if "n \<le> k" for k
    using first_room_at[of levels d n "k - n"] that by auto
  with None show ?thesis by simp
next
  case (Some m)
  with first_room_Some[OF this] show ?thesis by auto
qed

definition note_quality :: "int \<Rightarrow> (session, unit) act" where
  "note_quality index =
     then_do (\<lambda>s. return_of (quality_of index (abr_ladder (ss_abr s))) s) (\<lambda>q s.
       (Ret (), s\<lparr>ss_qualities := ss_qualities s @ [q]\<rparr>))"

definition one_segment :: "pystr \<Rightarrow> int \<Rightarrow> (session, unit) act" where
  "one_segment profile i =
     then_do (ask_scheduler i) (\<lambda>k.
     then_do (decide k) (\<lambda>(index, rep, br).
     then_do read_level (\<lambda>before.
     then_do (download_checked rep k) (\<lambda>result.
     then_do read_level (\<lambda>_.
     then_do (update_ewma (sd_throughput result)) (\<lambda>ewma_value.
     then_do (note_switch k index br) (\<lambda>switch.
     then_do (put_segment k rep br result) (\<lambda>_.
     then_do read_level (\<lambda>after.
     then_do (note_quality index) (\<lambda>_.
     then_do read_time (\<lambda>now s.
       collect (record_segment
         \<lparr>timestamp = now, m_segment = k, m_rep = rep, m_bitrate = br, m_size = sd_size result,
          download_time = sd_download_time result, instant_throughput = sd_throughput result,
          ewma_throughput = ewma_value, buffer_before = before, buffer_after = after,
          quality_switch = switch, rebuffer_event = False, rebuffer_duration = 0,
          network_profile = profile, m_abr = abr_name (ss_abr s)\<rparr>) s)))))))))))"

fun all_segments :: "pystr \<Rightarrow> int list \<Rightarrow> (session, unit) act" where
  "all_segments profile [] s = (Ret (), s)"
| "all_segments profile (i # is) s = then_do (one_segment profile i) (\<lambda>_. all_segments profile is) s"

section \<open>The whole session\<close>

record run_config =
  rc_abr :: pystr
  rc_hysteresis :: bool
  rc_profile :: "(pystr \<times> json result) option"
  rc_segments :: int
  rc_client :: pystr
  rc_qoe :: "qoe_config option"

text \<open>
  What the configuration does not fix: the other end of the connection or the failure to connect, the
  readings of the level and the clocks, the database file, and the report of the playing thread.
\<close>

record surroundings =
  peer :: "conn result"
  level_readings :: "nat \<Rightarrow> real"
  clocks :: world
  db_file :: "database option"
  final_report :: playback_report

definition cfg_of :: "run_config \<Rightarrow> qoe_config" where
  "cfg_of rc = (case rc_qoe rc of None \<Rightarrow> default_qoe_config | Some c \<Rightarrow> c)"

definition profile_name :: "run_config \<Rightarrow> pystr" where
  "profile_name rc = (case rc_profile rc of None \<Rightarrow> u ''none'' | Some (stem, _) \<Rightarrow> stem)"

text \<open>\<open>NetworkShaper.from_file\<close>, if there is a profile.\<close>

definition shaper_of :: "run_config \<Rightarrow> network_shaper option outcome" where
  "shaper_of rc =
     (case rc_profile rc of
        None \<Rightarrow> Ret None
      | Some (_, doc) \<Rightarrow>
          (case from_file doc of
             Inl e \<Rightarrow> Exc e
           | Inr None \<Rightarrow> Outside
           | Inr (Some s) \<Rightarrow> Ret (Some s)))"

text \<open>Up to the start of the playing thread: the session, its number, and its start on the clock.\<close>

definition session_begin :: "run_config \<Rightarrow> surroundings \<Rightarrow> (session \<times> int \<times> real) outcome" where
  "session_begin rc env =
     (let cfg = cfg_of rc in
      case make_abr (rc_abr rc) (rc_hysteresis rc) cfg of
        Inl e \<Rightarrow> Exc e
      | Inr a \<Rightarrow>
          (case shaper_of rc of
             Exc e \<Rightarrow> Exc e
           | Waits \<Rightarrow> Waits
           | Outside \<Rightarrow> Outside
           | Ret sh \<Rightarrow>
               (case peer env of
                  Inl e \<Rightarrow> Exc e
                | Inr cn \<Rightarrow>
                    (case bind_res (buffer_manager_init DEFAULT_MAX_BUFFER_SECONDS) (\<lambda>_. ewma_init DEFAULT_EWMA_ALPHA None) of
                       Inl e \<Rightarrow> Exc e
                     | Inr ew \<Rightarrow>
                         (let (t, w) = wall_time (clocks env);
                              (r, c) = start_session (rc_client rc) (abr_name a) (profile_name rc) (qoe_alpha cfg)
                                  (qoe_beta cfg) (qoe_gamma cfg) (rc_segments rc) [] t (collector_init (db_file env))
                          in case r of
                               Inl e \<Rightarrow> Exc e
                             | Inr sid \<Rightarrow>
                                 (let (t0, w') = monotonic w
                                  in Ret (\<lparr>ss_abr = a,
                                           ss_downloader = \<lparr>dl_client = connect cn \<lparr>sock = None, buf = []\<rparr>, dl_shaper = sh\<rparr>,
                                           ss_ewma = ew,
                                           ss_scheduler = deadline_init DEFAULT_SEGMENT_DURATION 1 (fl (1 / 10)),
                                           ss_collector = c, ss_index = 0, ss_qualities = [], ss_switches = 0,
                                           ss_world = w', ss_levels = level_readings env, ss_reads = 0, ss_puts = []\<rparr>,
                                          sid, t0)))))))"

text \<open>The \<open>finally\<close>: the report is joined and the connection closed, whether the loop returns or raises; a loop that
  waits for ever does not come to it.\<close>

definition close_client :: "session \<Rightarrow> session" where
  "close_client s = s\<lparr>ss_downloader := (ss_downloader s)\<lparr>dl_client := close (dl_client (ss_downloader s))\<rparr>\<rparr>"

definition finally_close :: "(session, unit) act \<Rightarrow> (session, unit) act" where
  "finally_close m s = (case m s of (Waits, s') \<Rightarrow> (Waits, s') | (r, s') \<Rightarrow> (r, close_client s'))"

fun record_events :: "(real \<times> real \<times> int) list \<Rightarrow> (session, unit) act" where
  "record_events [] s = (Ret (), s)"
| "record_events ((off, dur, seg) # evs) s =
     then_do (collect (record_rebuffer off dur seg)) (\<lambda>_. record_events evs) s"

definition average_bitrate :: "real list \<Rightarrow> real" where
  "average_bitrate qs =
     (if qs = [] then 0
      else fl (py_sum (map (\<lambda>q. fl (q * of_int (snd (last DEFAULT_LADDER)))) qs) / of_nat (length qs)))"

record session_summary =
  sm_session :: int
  sm_abr :: pystr
  sm_profile :: pystr
  sm_segments :: int
  sm_avg_bitrate :: real
  sm_avg_quality :: real
  sm_switches :: int
  sm_rebuffer :: real
  sm_startup :: real
  sm_qoe :: real
  sm_wall_time :: real

definition summarize :: "run_config \<Rightarrow> playback_report \<Rightarrow> int \<Rightarrow> real \<Rightarrow> (session, session_summary) act" where
  "summarize rc rep sid t0 s =
     (let avg = average_bitrate (ss_qualities s);
          q = compute_qoe (ss_qualities s) (rebuffer_seconds rep) (ss_switches s) (Some (cfg_of rc))
      in then_do (collect (record_qoe \<lparr>r_avg_quality = avg_quality q, r_avg_bitrate = avg,
              r_rebuffer_seconds = rebuffer_seconds rep, r_n_switches = ss_switches s, r_qoe = qoe q\<rparr>)) (\<lambda>_.
         then_do read_monotonic (\<lambda>t s.
           (Ret \<lparr>sm_session = sid, sm_abr = abr_name (ss_abr s), sm_profile = profile_name rc,
                 sm_segments = int (length (ss_qualities s)), sm_avg_bitrate = avg, sm_avg_quality = avg_quality q,
                 sm_switches = ss_switches s, sm_rebuffer = rebuffer_seconds rep, sm_startup = startup_delay rep,
                 sm_qoe = qoe q, sm_wall_time = fl (t - t0)\<rparr>,
            s\<lparr>ss_collector := collector_close (ss_collector s)\<rparr>))) s)"

definition run_session :: "run_config \<Rightarrow> surroundings \<Rightarrow> session_summary outcome \<times> session option" where
  "run_session rc env =
     (case session_begin rc env of
        Exc e \<Rightarrow> (Exc e, None)
      | Waits \<Rightarrow> (Waits, None)
      | Outside \<Rightarrow> (Outside, None)
      | Ret (s, sid, t0) \<Rightarrow>
          (let rep = final_report env;
               (r, s') = then_do (finally_close (all_segments (profile_name rc) (iota (rc_segments rc)))) (\<lambda>_.
                 then_do (record_events (rebuffer_events rep)) (\<lambda>_.
                 summarize rc rep sid t0)) s
           in (r, Some s')))"

section \<open>Reasoning about steps\<close>

text \<open>The step ends in \<open>Q\<close> when it returns, and in \<open>E\<close> when it does not.\<close>

definition wp :: "('s, 'a) act \<Rightarrow> ('a \<Rightarrow> 's \<Rightarrow> bool) \<Rightarrow> ('s \<Rightarrow> bool) \<Rightarrow> 's \<Rightarrow> bool" where
  "wp m Q E s = (case m s of (Ret x, s') \<Rightarrow> Q x s' | (_, s') \<Rightarrow> E s')"

lemma wp_then_do: "wp m (\<lambda>x. wp (f x) Q E) E s \<Longrightarrow> wp (then_do m f) Q E s"
  by (auto simp: wp_def then_do_def split: prod.splits outcome.splits)

lemma finally_close_Ret [simp]:
  "finally_close m s = (Ret x, s') \<longleftrightarrow> (\<exists>s1. m s = (Ret x, s1) \<and> s' = close_client s1)"
  by (auto simp: finally_close_def split: prod.splits outcome.splits)

lemma wp_weaken: "wp m Q E s \<Longrightarrow> (\<And>x s'. Q x s' \<Longrightarrow> Q' x s') \<Longrightarrow> (\<And>s'. E s' \<Longrightarrow> E' s') \<Longrightarrow> wp m Q' E' s"
  by (auto simp: wp_def split: prod.splits outcome.splits)

lemma wp_mono: "wp m Q' E s \<Longrightarrow> (\<And>x s'. Q' x s' \<Longrightarrow> Q x s') \<Longrightarrow> wp m Q E s"
  by (auto simp: wp_def split: prod.splits outcome.splits)

lemma wp_bind: "wp m Q' E s \<Longrightarrow> (\<And>x s'. Q' x s' \<Longrightarrow> wp (f x) Q E s') \<Longrightarrow> wp (then_do m f) Q E s"
  by (rule wp_then_do) (rule wp_mono)

lemma wp_state: "wp (f s) Q E s \<Longrightarrow> wp (\<lambda>s. f s s) Q E s"
  by (simp add: wp_def)

lemma wp_Ret: "wp m Q E s \<Longrightarrow> m s = (Ret x, s') \<Longrightarrow> Q x s'"
  by (simp add: wp_def)

lemma wp_other: "wp m Q E s \<Longrightarrow> m s = (Exc e, s') \<or> m s = (Waits, s') \<or> m s = (Outside, s') \<Longrightarrow> E s'"
  by (auto simp: wp_def)

section \<open>What a session has done so far\<close>

text \<open>A segment's place on the ladder, and what the tables and the summary say of the segments put.\<close>

definition rung_bitrate :: "int \<Rightarrow> int" where
  "rung_bitrate i = snd (DEFAULT_LADDER ! nat i)"

definition on_ladder :: "buffered_segment \<Rightarrow> bool" where
  "on_ladder p \<longleftrightarrow> (bs_rep p, bs_bitrate p) \<in> set DEFAULT_LADDER"

definition quality_number :: "buffered_segment \<Rightarrow> real" where
  "quality_number p = fl (of_int (bs_bitrate p) / 5000000)"

definition last_bitrate :: "int \<Rightarrow> buffered_segment list \<Rightarrow> int" where
  "last_bitrate b ps = (if ps = [] then b else bs_bitrate (last ps))"

fun switch_list :: "int \<Rightarrow> buffered_segment list \<Rightarrow> (int \<times> int \<times> int) list" where
  "switch_list b [] = []"
| "switch_list b (p # ps) =
     (if bs_bitrate p \<noteq> b then [(bs_segment p, b, bs_bitrate p)] else []) @ switch_list (bs_bitrate p) ps"

fun metric_rows :: "pystr \<Rightarrow> pystr \<Rightarrow> int \<Rightarrow> buffered_segment list \<Rightarrow> (int \<times> pystr \<times> int \<times> int \<times> bool \<times> pystr \<times> pystr) list" where
  "metric_rows prof nm b [] = []"
| "metric_rows prof nm b (p # ps) =
     (bs_segment p, bs_rep p, bs_bitrate p, bs_size p, bs_bitrate p \<noteq> b, prof, nm) # metric_rows prof nm (bs_bitrate p) ps"

definition row_view :: "segment_data \<Rightarrow> int \<times> pystr \<times> int \<times> int \<times> bool \<times> pystr \<times> pystr" where
  "row_view r = (m_segment r, m_rep r, m_bitrate r, m_size r, quality_switch r, network_profile r, m_abr r)"

lemma switch_list_append: "switch_list b (ps @ [p]) = switch_list b ps
    @ (if bs_bitrate p \<noteq> last_bitrate b ps then [(bs_segment p, last_bitrate b ps, bs_bitrate p)] else [])"
  by (induction ps arbitrary: b) (auto simp: last_bitrate_def)

lemma metric_rows_append: "metric_rows prof nm b (ps @ [p]) = metric_rows prof nm b ps
    @ [(bs_segment p, bs_rep p, bs_bitrate p, bs_size p, bs_bitrate p \<noteq> last_bitrate b ps, prof, nm)]"
  by (induction ps arbitrary: b) (auto simp: last_bitrate_def)

lemma rung_cases: "0 \<le> i \<Longrightarrow> i < 4 \<Longrightarrow> i = 0 \<or> i = 1 \<or> i = 2 \<or> i = (3::int)"
  by presburger

lemma rung_inject: "0 \<le> i \<Longrightarrow> i < 4 \<Longrightarrow> 0 \<le> j \<Longrightarrow> j < 4 \<Longrightarrow> rung_bitrate i = rung_bitrate j \<longleftrightarrow> i = j"
  using rung_cases[of i] rung_cases[of j] by (auto simp: rung_bitrate_def DEFAULT_LADDER_def)

lemma rung_ops:
  assumes "0 \<le> i" "i < 4"
  shows "py_nth DEFAULT_LADDER i = Inr (DEFAULT_LADDER ! nat i)" "bitrate_of i DEFAULT_LADDER = Inr (rung_bitrate i)"
    "quality_of i DEFAULT_LADDER = Inr (fl (of_int (rung_bitrate i) / 5000000))"
  using rung_cases[OF assms] by (auto simp: py_nth_def bitrate_of_def quality_of_def rung_bitrate_def DEFAULT_LADDER_def)

lemma select_name: "select a st = Inr (i, a') \<Longrightarrow> abr_name a' = abr_name a"
proof (induction a arbitrary: i a')
  case (HysteresisABR h inner)
  then show ?case by (auto simp: py_simps)
qed (auto simp: py_simps)

text \<open>The state of the session, spelled out: next segment of the scheduler, segments put, switches,
  qualities, rows, and current level.\<close>

definition shape :: "int \<Rightarrow> pystr \<Rightarrow> pystr \<Rightarrow> int \<Rightarrow> buffered_segment list \<Rightarrow> (int \<times> int \<times> int) list \<Rightarrow> real list \<Rightarrow>
    (int \<times> pystr \<times> int \<times> int \<times> bool \<times> pystr \<times> pystr) list \<Rightarrow> int \<Rightarrow> session \<Rightarrow> bool" where
  "shape sid prof nm m ps sw qs rows idx s \<longleftrightarrow>
     (\<forall>n. level_ok (ss_levels s n)) \<and> sched_ok (m + 1) (ss_scheduler s)
   \<and> abr_ok (ss_abr s) \<and> abr_ladder (ss_abr s) = DEFAULT_LADDER \<and> abr_name (ss_abr s) = nm
   \<and> ss_index s = idx \<and> 0 \<le> idx \<and> idx < 4 \<and> ss_puts s = ps \<and> ss_qualities s = qs
   \<and> ss_switches s = int (length sw) \<and> switches_of sid (db (ss_collector s)) = sw
   \<and> map row_view (segments_of sid (db (ss_collector s))) = rows \<and> rebuffers_of sid (db (ss_collector s)) = []
   \<and> session_id (ss_collector s) = Some sid \<and> collector_ok (ss_collector s)"

text \<open>What is left of it when a step does not return: the tables, and the segments put.\<close>

definition tables_at :: "int \<Rightarrow> buffered_segment list \<Rightarrow> (int \<times> int \<times> int) list
    \<Rightarrow> (int \<times> pystr \<times> int \<times> int \<times> bool \<times> pystr \<times> pystr) list \<Rightarrow> session \<Rightarrow> bool" where
  "tables_at sid ps sw rows s \<longleftrightarrow> ss_puts s = ps \<and> switches_of sid (db (ss_collector s)) = sw
   \<and> map row_view (segments_of sid (db (ss_collector s))) = rows \<and> rebuffers_of sid (db (ss_collector s)) = []
   \<and> session_id (ss_collector s) = Some sid \<and> collector_ok (ss_collector s)"

lemma shape_tables: "shape sid prof nm m ps sw qs rows idx s \<Longrightarrow> tables_at sid ps sw rows s"
  by (simp add: shape_def tables_at_def)

lemma wp_read:
  assumes "shape sid prof nm m ps sw qs rows idx s"
  shows "wp read_level (\<lambda>_. shape sid prof nm m ps sw qs rows idx) E s"
    "wp read_time (\<lambda>_. shape sid prof nm m ps sw qs rows idx) E s"
    "wp (update_ewma t) (\<lambda>_. shape sid prof nm m ps sw qs rows idx) E s"
  using assms by (simp_all add: wp_def read_level_def read_time_def wall_time_def update_ewma_def shape_def case_prod_beta)

lemma wp_ask_scheduler:
  assumes "shape sid prof nm m ps sw qs rows idx s"
  shows "wp (ask_scheduler m) (\<lambda>k s'. k = m + 1 \<and> shape sid prof nm (m + 1) ps sw qs rows idx s') E s"
proof -
  let ?t = "mono_clock (ss_world s) (ticks (ss_world s))" and ?b = "ss_levels s (ss_reads s)"
  let ?n = "next_segment (m + 1) 3 ?t ?b (ss_scheduler s)"
  have "fst ?n = m + 1 \<and> sched_ok (m + 1 + 1) (snd ?n)"
    using assms by (intro next_segment_in_order) (simp_all add: shape_def)
  then show ?thesis using assms
    by (auto simp: wp_def ask_scheduler_def then_do_def read_monotonic_def monotonic_def read_level_def shape_def case_prod_beta)
qed

lemma wp_decide:
  assumes "shape sid prof nm m ps sw qs rows idx s"
  shows "wp (decide k) (\<lambda>(i, rep, br) s'. 0 \<le> i \<and> i < 4 \<and> DEFAULT_LADDER ! nat i = (rep, br)
    \<and> shape sid prof nm m ps sw qs rows idx s') E s"
proof -
  let ?st = "state_of (s\<lparr>ss_reads := ss_reads s + 1\<rparr>) k (ss_levels s (ss_reads s))"
  have "\<exists>i a'. select (ss_abr s) ?st = Inr (i, a') \<and> abr_ok a' \<and> abr_ladder a' = abr_ladder (ss_abr s)
      \<and> 0 \<le> i \<and> i < abr_levels (ss_abr s)"
    using assms by (intro select_ok) (simp_all add: shape_def state_of_def abr_levels_def)
  then obtain i a' where d: "select (ss_abr s) ?st = Inr (i, a')" "abr_ok a'" "abr_ladder a' = DEFAULT_LADDER" "0 \<le> i" "i < 4"
    using assms by (auto simp: shape_def abr_levels_def)
  have "abr_name a' = nm" using select_name[OF d(1)] assms by (simp add: shape_def)
  then show ?thesis using assms d rung_ops(1)[OF d(4,5)]
    by (simp add: wp_def decide_def then_do_def read_level_def return_of_def shape_def case_prod_beta)
qed

lemma wp_download:
  assumes "shape sid prof nm m ps sw qs rows idx s" and "\<And>s'. tables_at sid ps sw rows s' \<Longrightarrow> E s'"
  shows "wp (download_checked rep k) (\<lambda>_. shape sid prof nm m ps sw qs rows idx) E s"
proof -
  obtain r d w where "download rep k (ss_downloader s) (ss_world s) = (r, d, w)" by (metis prod_cases3)
  then show ?thesis using assms by (cases r) (simp_all add: wp_def download_checked_def shape_def tables_at_def Let_def)
qed

text \<open>The operations of the collector, on a started session.\<close>

text \<open>An operation that fails changes nothing.\<close>

lemma record_failed:
  "record_segment row c = (Inl e, c') \<Longrightarrow> c' = c" "record_switch k a b c = (Inl e, c') \<Longrightarrow> c' = c"
  "record_rebuffer off dur k c = (Inl e, c') \<Longrightarrow> c' = c" "record_qoe q c = (Inl e, c') \<Longrightarrow> c' = c"
  by (auto simp: record_segment_def record_switch_def record_rebuffer_def record_qoe_def Let_def split: option.splits)

lemma record_switch_effect:
  assumes "record_switch k a b c = (r, c')"
  shows "session_id c' = session_id c \<and> segments_of sid (db c') = segments_of sid (db c)
    \<and> rebuffers_of sid (db c') = rebuffers_of sid (db c) \<and> (if collector_ok c then collector_ok c' else True)
    \<and> (if r = Inr () \<and> session_id c = Some sid then switches_of sid (db c') = switches_of sid (db c) @ [(k, a, b)] else True)"
proof -
  have "collector_step c c'" using collector_step.intros(3)[of c k a b] assms by simp
  then show ?thesis using assms collector_ok_step
    by (auto simp: record_switch_def Let_def segments_of_def switches_of_def rebuffers_of_def split: option.splits)
qed

lemma record_segment_effect:
  assumes "record_segment row c = (r, c')"
  shows "session_id c' = session_id c \<and> switches_of sid (db c') = switches_of sid (db c)
    \<and> rebuffers_of sid (db c') = rebuffers_of sid (db c) \<and> (if collector_ok c then collector_ok c' else True)
    \<and> (if r = Inr () \<and> session_id c = Some sid then segments_of sid (db c') = segments_of sid (db c) @ [row] else True)"
proof -
  have "collector_step c c'" using collector_step.intros(2)[of c row] assms by simp
  then show ?thesis using assms collector_ok_step
    by (auto simp: record_segment_def Let_def segments_of_def switches_of_def rebuffers_of_def split: option.splits)
qed

lemma record_rebuffer_effect:
  assumes "record_rebuffer off dur k c = (r, c')"
  shows "session_id c' = session_id c \<and> segments_of sid (db c') = segments_of sid (db c)
    \<and> switches_of sid (db c') = switches_of sid (db c) \<and> (if collector_ok c then collector_ok c' else True)
    \<and> (if r = Inr () \<and> session_id c = Some sid
       then rebuffers_of sid (db c') = rebuffers_of sid (db c) @ [(off, dur, k)] else True)"
proof -
  have "collector_step c c'" using collector_step.intros(4)[of c off dur k] assms by simp
  then show ?thesis using assms collector_ok_step
    by (auto simp: record_rebuffer_def Let_def segments_of_def switches_of_def rebuffers_of_def split: option.splits)
qed

lemma wp_note_switch:
  assumes "shape sid prof nm m ps sw qs rows idx s" and i: "0 \<le> i" "i < 4" and E: "\<And>s'. tables_at sid ps sw rows s' \<Longrightarrow> E s'"
  shows "wp (note_switch k i br) (\<lambda>x s'. x = (i \<noteq> idx)
      \<and> shape sid prof nm m ps (sw @ (if i \<noteq> idx then [(k, rung_bitrate idx, br)] else [])) qs rows i s')
    E s"
proof -
  obtain r c' where c: "record_switch k (rung_bitrate idx) br (ss_collector s) = (r, c')" by force
  have "bitrate_of idx DEFAULT_LADDER = Inr (rung_bitrate idx)" using assms(1) by (intro rung_ops) (simp_all add: shape_def)
  then show ?thesis using assms record_switch_effect[OF c, of sid] c
    by (cases r) (auto simp: wp_def note_switch_def then_do_def return_of_def collect_def shape_def tables_at_def
        dest: record_failed(2))
qed

lemma wp_put_segment:
  assumes "shape sid prof nm m ps sw qs rows idx s" and "\<And>s'. tables_at sid ps sw rows s' \<Longrightarrow> E s'"
  shows "wp (put_segment k rep br res) (\<lambda>_ s'. \<exists>p. bs_segment p = k \<and> bs_rep p = rep \<and> bs_bitrate p = br
      \<and> bs_size p = sd_size res \<and> shape sid prof nm m (ps @ [p]) sw qs rows idx s')
    E s"
  using assms
  by (cases "sd_duration res")
    (auto simp: wp_def put_segment_def then_do_def read_time_def wall_time_def wait_for_room_def shape_def tables_at_def
      split: option.split)

lemma wp_note_quality:
  assumes "shape sid prof nm m ps sw qs rows idx s" and "0 \<le> i" "i < 4"
  shows "wp (note_quality i) (\<lambda>_. shape sid prof nm m ps sw (qs @ [fl (of_int (rung_bitrate i) / 5000000)]) rows idx) E s"
  using assms rung_ops(3)[OF assms(2,3)]
  by (simp add: wp_def note_quality_def then_do_def return_of_def shape_def)

lemma wp_record_segment:
  assumes "shape sid prof nm m ps sw qs rows idx s" and "\<And>s'. tables_at sid ps sw rows s' \<Longrightarrow> E s'"
  shows "wp (collect (record_segment row)) (\<lambda>_. shape sid prof nm m ps sw qs (rows @ [row_view row]) idx)
    E s"
proof -
  obtain r c' where c: "record_segment row (ss_collector s) = (r, c')" by force
  then show ?thesis using assms record_segment_effect[OF c, of sid]
    by (cases r) (auto simp: wp_def collect_def return_of_def shape_def tables_at_def dest: record_failed(1))
qed

section \<open>The loop\<close>

text \<open>The segments put are the first ones, in order.\<close>

definition first_segments :: "int \<Rightarrow> buffered_segment list \<Rightarrow> bool" where
  "first_segments n ps \<longleftrightarrow> 0 \<le> n \<and> map bs_segment ps = map (\<lambda>i. i + 1) (iota n)"

lemma iota_Suc: "0 \<le> n \<Longrightarrow> iota (n + 1) = iota n @ [n]"
  by (simp add: iota_def nat_add_distrib)

lemma first_segments_next: "first_segments n ps \<Longrightarrow> bs_segment p = n + 1 \<Longrightarrow> first_segments (n + 1) (ps @ [p])"
  by (simp add: first_segments_def iota_Suc)

definition session_inv_at :: "int \<Rightarrow> pystr \<Rightarrow> pystr \<Rightarrow> int \<Rightarrow> session \<Rightarrow> bool" where
  "session_inv_at sid prof nm n s \<longleftrightarrow>
     (\<exists>ps idx. first_segments n ps \<and> list_all on_ladder ps \<and> rung_bitrate idx = last_bitrate 500000 ps
      \<and> shape sid prof nm n ps (switch_list 500000 ps) (map quality_number ps) (metric_rows prof nm 500000 ps) idx s)"

text \<open>
  A loop that has ended early: the segments put are the first ones; the row of the last one may be missing, and
  there may be one more switch, to the level of a segment that was not put.
\<close>

definition stopped_at :: "int \<Rightarrow> pystr \<Rightarrow> pystr \<Rightarrow> int \<Rightarrow> session \<Rightarrow> bool" where
  "stopped_at sid prof nm n s \<longleftrightarrow> (\<exists>k ps ps' extra.
     k \<le> n \<and> first_segments k ps \<and> list_all on_ladder ps \<and> ps' \<in> {ps, butlast ps} \<and> length extra \<le> 1
     \<and> list_all (\<lambda>x. fst x = k + 1) extra
     \<and> tables_at sid ps (switch_list 500000 ps @ extra) (metric_rows prof nm 500000 ps') s)"

lemma stopped_atI:
  "first_segments k ps \<Longrightarrow> list_all on_ladder ps \<Longrightarrow> k \<le> n \<Longrightarrow> ps' = ps \<or> ps' = butlast ps \<Longrightarrow>
   tables_at sid ps (switch_list 500000 ps @ extra) (metric_rows prof nm 500000 ps') s \<Longrightarrow>
   length extra \<le> 1 \<Longrightarrow> list_all (\<lambda>x. fst x = k + 1) extra \<Longrightarrow> stopped_at sid prof nm n s"
  unfolding stopped_at_def by blast

lemma stopped_at_mono: "stopped_at sid prof nm n s \<Longrightarrow> n \<le> m \<Longrightarrow> stopped_at sid prof nm m s"
  unfolding stopped_at_def by (meson order_trans)

text \<open>What one turn adds, when it comes to its end and when it stops on the way: after the choice of level \<open>i\<close> the switch
  may be recorded, then the segment \<open>p\<close> is put, then the row is written.\<close>

definition chosen :: "int \<Rightarrow> pystr \<Rightarrow> int \<Rightarrow> bool" where
  "chosen i rep br \<longleftrightarrow> 0 \<le> i \<and> i < 4 \<and> DEFAULT_LADDER ! nat i = (rep, br)"

definition turn_segment :: "int \<Rightarrow> pystr \<Rightarrow> int \<Rightarrow> buffered_segment \<Rightarrow> bool" where
  "turn_segment k rep br p \<longleftrightarrow> bs_segment p = k \<and> bs_rep p = rep \<and> bs_bitrate p = br"

lemma next_rung:
  assumes "chosen i rep br" and "0 \<le> idx" "idx < 4" and "rung_bitrate idx = last_bitrate 500000 ps"
  shows "(i \<noteq> idx \<longleftrightarrow> br \<noteq> last_bitrate 500000 ps)" and "br = rung_bitrate i"
    and "turn_segment k rep br p \<Longrightarrow> list_all on_ladder ps \<Longrightarrow> list_all on_ladder (ps @ [p])"
proof -
  have i: "0 \<le> i" "i < 4" "DEFAULT_LADDER ! nat i = (rep, br)" using assms(1) by (simp_all add: chosen_def)
  show br: "br = rung_bitrate i" using i(3) by (metis rung_bitrate_def snd_conv)
  show "(i \<noteq> idx \<longleftrightarrow> br \<noteq> last_bitrate 500000 ps)" using rung_inject[OF i(1,2) assms(2,3)] br assms(4) by metis
  have "(rep, br) \<in> set DEFAULT_LADDER" using i nth_mem[of "nat i" DEFAULT_LADDER] by simp
  then show "list_all on_ladder (ps @ [p])" if "turn_segment k rep br p" "list_all on_ladder ps"
    using that by (simp add: on_ladder_def turn_segment_def)
qed

lemma stopped_before_put:
  assumes "first_segments n ps" and "list_all on_ladder ps"
    and "tables_at sid ps (switch_list 500000 ps @ (if c then [(n + 1, x)] else [])) (metric_rows prof nm 500000 ps) s"
  shows "stopped_at sid prof nm (n + 1) s"
  by (rule stopped_atI[OF assms(1,2) _ _ assms(3)]) (cases c; simp)+

lemma stopped_after_put:
  assumes "first_segments n ps" and "list_all on_ladder ps" and "chosen i rep br" "turn_segment (n + 1) rep br p"
    and "0 \<le> idx" "idx < 4" "rung_bitrate idx = last_bitrate 500000 ps"
    and "tables_at sid (ps @ [p]) (switch_list 500000 ps @ (if i \<noteq> idx then [(n + 1, rung_bitrate idx, br)] else []))
      (metric_rows prof nm 500000 ps) s"
  shows "stopped_at sid prof nm (n + 1) s"
proof -
  note r = next_rung[OF assms(3,5-7)]
  have p: "bs_segment p = n + 1" "bs_bitrate p = br" using assms(4) by (simp_all add: turn_segment_def)
  have "tables_at sid (ps @ [p]) (switch_list 500000 (ps @ [p])) (metric_rows prof nm 500000 ps) s"
    using assms(8) by (simp only: r(1) switch_list_append assms(7) p)
  then show ?thesis using r(3)[OF assms(4,2)]
    by (intro stopped_atI[OF first_segments_next[OF assms(1) p(1)], where extra = "[]" and ps' = ps]) simp_all
qed

lemma turn_complete:
  assumes "first_segments n ps" and "list_all on_ladder ps" and "chosen i rep br" "turn_segment (n + 1) rep br p"
    and "0 \<le> idx" "idx < 4" "rung_bitrate idx = last_bitrate 500000 ps" and sz: "bs_size p = sz"
    and sh: "shape sid prof nm (n + 1) (ps @ [p]) (switch_list 500000 ps @ (if i \<noteq> idx then [(n + 1, rung_bitrate idx, br)] else []))
      (map quality_number ps @ [fl (of_int (rung_bitrate i) / 5000000)])
      (metric_rows prof nm 500000 ps @ [(n + 1, rep, br, sz, i \<noteq> idx, prof, nm)]) i s"
  shows "session_inv_at sid prof nm (n + 1) s"
proof -
  note r = next_rung[OF assms(3,5-7)]
  have p: "bs_segment p = n + 1" "bs_rep p = rep" "bs_bitrate p = br" using assms(4) by (simp_all add: turn_segment_def)
  have "first_segments (n + 1) (ps @ [p])" by (rule first_segments_next[OF assms(1) p(1)])
  moreover have "rung_bitrate i = last_bitrate 500000 (ps @ [p])" using r(2) p(3) by (simp add: last_bitrate_def)
  moreover have "shape sid prof nm (n + 1) (ps @ [p]) (switch_list 500000 (ps @ [p])) (map quality_number (ps @ [p]))
      (metric_rows prof nm 500000 (ps @ [p])) i s"
    using sh by (simp only: r(1) switch_list_append metric_rows_append assms(7) p sz quality_number_def r(2)[symmetric]
        map_append list.map)
  ultimately show ?thesis using r(3)[OF assms(4,2)] unfolding session_inv_at_def by blast
qed

lemma one_segment_inv:
  assumes "session_inv_at sid prof nm n s"
  shows "wp (one_segment prof n) (\<lambda>_. session_inv_at sid prof nm (n + 1)) (stopped_at sid prof nm (n + 1)) s"
proof -
  obtain ps idx where ps: "first_segments n ps" "list_all on_ladder ps" "rung_bitrate idx = last_bitrate 500000 ps"
    and sh: "shape sid prof nm n ps (switch_list 500000 ps) (map quality_number ps) (metric_rows prof nm 500000 ps) idx s"
    using assms by (auto simp: session_inv_at_def)
  have idx: "0 \<le> idx" "idx < 4" using sh by (simp_all add: shape_def)
  note early = stopped_before_put[OF ps(1,2)] and begun = stopped_before_put[OF ps(1,2), where c = False, simplified]
  show ?thesis unfolding one_segment_def
    apply (rule wp_bind[OF wp_ask_scheduler[OF sh]], elim conjE, hypsubst)
    apply (rule wp_bind, erule wp_decide, simp only: split_paired_all prod.case, elim conjE)
    apply (rule wp_bind, erule wp_read(1))
    apply (rule wp_bind, erule wp_download, erule begun)
    apply (rule wp_bind, erule wp_read(1))
    apply (rule wp_bind, erule wp_read(3))
    apply (rule wp_bind, erule wp_note_switch, assumption, assumption, erule begun)
    apply (elim conjE, hypsubst)
    apply (rule wp_bind, erule wp_put_segment, erule early)
    apply (elim exE conjE)
    apply (rule wp_bind, erule wp_read(1))
    apply (rule wp_bind, erule wp_note_quality, assumption, assumption)
    apply (rule wp_bind, erule wp_read(2))
    subgoal for k s1 i rep br s2 before s3 res s4 _ s5 v s6 _ s7 _ s8 p after s9 _ s10 now s11
      apply (rule wp_state, rule wp_mono, erule wp_record_segment)
       apply (rule stopped_after_put[OF ps(1,2) _ _ idx ps(3), of i rep br p]; (assumption | simp add: chosen_def turn_segment_def))
      apply (rule turn_complete[OF ps(1,2) _ _ idx ps(3), of i rep br p "sd_size res"];
        (assumption | simp add: row_view_def shape_def chosen_def turn_segment_def))
      done
    done
qed

lemma inv_stopped: "session_inv_at sid prof nm n s \<Longrightarrow> stopped_at sid prof nm n s"
proof -
  assume "session_inv_at sid prof nm n s"
  then obtain ps idx where ps: "first_segments n ps" "list_all on_ladder ps"
    and "shape sid prof nm n ps (switch_list 500000 ps) (map quality_number ps) (metric_rows prof nm 500000 ps) idx s"
    by (auto simp: session_inv_at_def)
  from shape_tables[OF this(3)] show ?thesis by (intro stopped_atI[OF ps, where extra = "[]"]) simp_all
qed

lemma all_segments_inv:
  "session_inv_at sid prof nm n s \<Longrightarrow> wp (all_segments prof (map (\<lambda>i. n + int i) [0..<k]))
     (\<lambda>_. session_inv_at sid prof nm (n + int k)) (stopped_at sid prof nm (n + int k)) s"
proof (induction k arbitrary: n s)
  case 0
  then show ?case by (simp add: wp_def)
next
  case (Suc k)
  have l: "map (\<lambda>i. n + int i) [0..<Suc k] = n # map (\<lambda>i. (n + 1) + int i) [0..<k]"
    by (simp add: map_upt_Suc add.assoc del: upt_Suc)
  have "wp (then_do (one_segment prof n) (\<lambda>_. all_segments prof (map (\<lambda>i. (n + 1) + int i) [0..<k])))
      (\<lambda>_. session_inv_at sid prof nm ((n + 1) + int k)) (stopped_at sid prof nm ((n + 1) + int k)) s"
  proof (rule wp_bind)
    show "wp (one_segment prof n) (\<lambda>_. session_inv_at sid prof nm (n + 1)) (stopped_at sid prof nm ((n + 1) + int k)) s"
      using one_segment_inv[OF Suc.prems] by (rule wp_weaken) (auto elim: stopped_at_mono)
  qed (rule Suc.IH)
  then have "wp (all_segments prof (map (\<lambda>i. n + int i) [0..<Suc k]))
      (\<lambda>_. session_inv_at sid prof nm ((n + 1) + int k)) (stopped_at sid prof nm ((n + 1) + int k)) s"
    unfolding l by (simp add: wp_def)
  moreover have "(n + 1) + int k = n + int (Suc k)" by simp
  ultimately show ?case by (simp only:)
qed

lemma session_loop:
  assumes "session_inv_at sid prof nm 0 s"
  shows "wp (all_segments prof (iota n)) (\<lambda>_. session_inv_at sid prof nm (max 0 n)) (stopped_at sid prof nm (max 0 n)) s"
proof -
  have "map (\<lambda>i. 0 + int i) [0..<nat n] = iota n" "0 + int (nat n) = max 0 n" by (simp_all add: iota_def)
  then show ?thesis using all_segments_inv[OF assms, of "nat n"] by (simp only:)
qed

lemma start_session_effect:
  assumes "start_session client abr profile al be ga n nts now (collector_init file) = (Inr sid, c)"
    and "db_ok (db (collector_init file))"
  shows "session_id c = Some sid \<and> collector_ok c \<and> segments_of sid (db c) = [] \<and> switches_of sid (db c) = []
    \<and> rebuffers_of sid (db c) = []"
proof -
  let ?c = "collector_init file"
  have "collector_ok ?c" using assms(2) by (simp add: collector_ok_def collector_init_def)
  moreover have "collector_step ?c c"
    using collector_step.intros(1)[of ?c client abr profile al be ga n nts now] assms(1) by simp
  ultimately have "collector_ok c" by (rule collector_ok_step)
  then show ?thesis using assms(1) new_session_empty[OF assms(2)]
    by (auto simp: start_session_def Let_def segments_of_def switches_of_def rebuffers_of_def split: option.splits)
qed

text \<open>What the surroundings must be: levels that are those of a buffer, and a well-formed database file.\<close>

definition surroundings_ok :: "surroundings \<Rightarrow> bool" where
  "surroundings_ok env \<longleftrightarrow> (\<forall>n. level_ok (level_readings env n)) \<and> db_ok (db (collector_init (db_file env)))"

lemma session_begin_inv:
  assumes "session_begin rc env = Ret (s, sid, t0)" and "surroundings_ok env"
  shows "\<exists>nm. session_inv_at sid (profile_name rc) nm 0 s"
proof -
  from assms(1) obtain a sh cn ew t w c where a: "make_abr (rc_abr rc) (rc_hysteresis rc) (cfg_of rc) = Inr a"
    and c: "start_session (rc_client rc) (abr_name a) (profile_name rc) (qoe_alpha (cfg_of rc))
      (qoe_beta (cfg_of rc)) (qoe_gamma (cfg_of rc)) (rc_segments rc) [] t (collector_init (db_file env)) = (Inr sid, c)"
    and s: "s = \<lparr>ss_abr = a, ss_downloader = \<lparr>dl_client = connect cn \<lparr>sock = None, buf = []\<rparr>, dl_shaper = sh\<rparr>,
       ss_ewma = ew, ss_scheduler = deadline_init DEFAULT_SEGMENT_DURATION 1 (fl (1 / 10)),
       ss_collector = c, ss_index = 0, ss_qualities = [], ss_switches = 0, ss_world = w,
       ss_levels = level_readings env, ss_reads = 0, ss_puts = []\<rparr>"
    by (auto simp: session_begin_def Let_def case_prod_beta prod_eq_iff split: sum.splits outcome.splits prod.splits)
  have "shape sid (profile_name rc) (abr_name a) 0 [] [] [] [] 0 s"
    using assms(2) make_abr_ok[OF a] start_session_effect[OF c] deadline_init_ok[of 1]
    by (simp add: shape_def s surroundings_ok_def DEFAULT_SEGMENT_DURATION_def)
  then show ?thesis unfolding session_inv_at_def
    by (intro exI[of _ "abr_name a"] exI[of _ "[]"] exI[of _ 0])
      (simp add: first_segments_def iota_def rung_bitrate_def last_bitrate_def DEFAULT_LADDER_def)
qed

section \<open>After the loop\<close>

lemma record_events_effect:
  "record_events evs s = (r, s') \<Longrightarrow> session_id (ss_collector s) = Some sid \<Longrightarrow> collector_ok (ss_collector s) \<Longrightarrow>
   \<exists>c'. s' = s\<lparr>ss_collector := c'\<rparr> \<and> session_id c' = Some sid \<and> collector_ok c'
     \<and> segments_of sid (db c') = segments_of sid (db (ss_collector s))
     \<and> switches_of sid (db c') = switches_of sid (db (ss_collector s))
     \<and> (if r = Ret () then rebuffers_of sid (db c') = rebuffers_of sid (db (ss_collector s)) @ evs else True)"
proof (induction evs s rule: record_events.induct)
  case (1 s)
  then show ?case by (intro exI[of _ "ss_collector s"]) auto
next
  case (2 off dur k evs s)
  obtain x c' where x: "record_rebuffer off dur k (ss_collector s) = (x, c')" by force
  have e: "session_id c' = Some sid" "collector_ok c'" "segments_of sid (db c') = segments_of sid (db (ss_collector s))"
    "switches_of sid (db c') = switches_of sid (db (ss_collector s))"
    "if x = Inr () then rebuffers_of sid (db c') = rebuffers_of sid (db (ss_collector s)) @ [(off, dur, k)] else True"
    using record_rebuffer_effect[OF x, of sid] "2.prems"(2,3) by auto
  show ?case
  proof (cases x)
    case (Inl err)
    then have "s' = s\<lparr>ss_collector := c'\<rparr>" "r \<noteq> Ret ()"
      using "2.prems"(1) x by (auto simp: then_do_def collect_def return_of_def)
    then show ?thesis using e by auto
  next
    case (Inr y)
    let ?s = "s\<lparr>ss_collector := c'\<rparr>"
    have "record_events evs ?s = (r, s')" using "2.prems"(1) x Inr by (simp add: then_do_def collect_def return_of_def)
    from "2.IH"[OF this] e Inr show ?thesis by auto
  qed
qed

text \<open>The events recorded are those before the first whose number is too large for SQLite.\<close>

abbreviation storable :: "real \<times> real \<times> int \<Rightarrow> bool" where
  "storable \<equiv> \<lambda>(off, dur, k). sql_int k"

lemma record_events_exact:
  "record_events evs s = (r, s') \<Longrightarrow> session_id (ss_collector s) = Some sid \<Longrightarrow> is_open (ss_collector s) \<Longrightarrow>
   rebuffers_of sid (db (ss_collector s')) = rebuffers_of sid (db (ss_collector s)) @ takeWhile storable evs"
proof (induction evs s rule: record_events.induct)
  case (2 off dur k evs s)
  show ?case
  proof (cases "sql_int k")
    case False
    then have "s' = s\<lparr>ss_collector := ss_collector s\<rparr>"
      using "2.prems"(1,3) by (simp add: then_do_def collect_def return_of_def record_rebuffer_def guarded_def)
    then show ?thesis using False by simp
  next
    case True
    obtain c' where c: "record_rebuffer off dur k (ss_collector s) = (Inr (), c')" "is_open c'"
      using "2.prems"(3) True by (simp add: record_rebuffer_def guarded_def Let_def)
    have e: "session_id c' = Some sid" "rebuffers_of sid (db c') = rebuffers_of sid (db (ss_collector s)) @ [(off, dur, k)]"
      using record_rebuffer_effect[OF c(1), of sid] "2.prems"(2) by auto
    have "record_events evs (s\<lparr>ss_collector := c'\<rparr>) = (r, s')" using "2.prems"(1) c(1) by (simp add: then_do_def collect_def return_of_def)
    from "2.IH"[OF this] e c(2) True show ?thesis by simp
  qed
qed simp

lemma record_qoe_effect:
  assumes "record_qoe q c = (Inr (), c')" and "session_id c = Some sid" and "collector_ok c"
  shows "collector_ok c' \<and> segments_of sid (db c') = segments_of sid (db c) \<and> switches_of sid (db c') = switches_of sid (db c)
    \<and> rebuffers_of sid (db c') = rebuffers_of sid (db c) \<and> (\<exists>x. s_id x = sid \<and> (x, Some q) \<in> set (load_sessions (db c')))"
proof -
  have ok: "collector_ok c'" using collector_ok_step[OF assms(3) collector_step.intros(5)[of c q]] assms(1) by simp
  have f: "sessions (db c') = sessions (db c)" "qoe_results (db c') = replace_row sid q (qoe_results (db c))"
    using assms(1,2) by (auto simp: record_qoe_def Let_def split: option.splits)
  obtain x where "x \<in> set (sessions (db c))" "s_id x = sid" using assms(2,3) by (auto simp: collector_ok_def)
  then have "s_id x = sid \<and> (x, Some q) \<in> set (load_sessions (db c'))"
    using ok by (auto simp: load_sessions_eq collector_ok_def f map_of_replace_row)
  then show ?thesis using ok assms(1)
    by (auto simp: record_qoe_def Let_def segments_of_def switches_of_def rebuffers_of_def split: option.splits)
qed

lemma session_puts_in_order:
  assumes "session_begin rc env = Ret (s, sid, t0)" and "surroundings_ok env"
    and "all_segments (profile_name rc) (iota (rc_segments rc)) s = (out, s')"
  shows "\<exists>k. k \<le> max 0 (rc_segments rc) \<and> map bs_segment (ss_puts s') = map (\<lambda>i. i + 1) (iota k)
    \<and> (if out = Ret () then k = max 0 (rc_segments rc) else True)"
proof -
  obtain nm where i: "session_inv_at sid (profile_name rc) nm 0 s" using session_begin_inv[OF assms(1,2)] by blast
  have w: "wp (all_segments (profile_name rc) (iota (rc_segments rc)))
      (\<lambda>_. session_inv_at sid (profile_name rc) nm (max 0 (rc_segments rc))) (stopped_at sid (profile_name rc) nm (max 0 (rc_segments rc))) s"
    by (rule session_loop[OF i])
  show ?thesis
  proof (cases out)
    case (Ret u)
    have "session_inv_at sid (profile_name rc) nm (max 0 (rc_segments rc)) s'" using wp_Ret[OF w assms(3)[unfolded Ret]] .
    then show ?thesis by (auto simp: session_inv_at_def first_segments_def shape_def)
  next
    case (Exc e)
    have "stopped_at sid (profile_name rc) nm (max 0 (rc_segments rc)) s'" using wp_other[OF w] assms(3) Exc by blast
    then show ?thesis using Exc by (auto simp: stopped_at_def tables_at_def first_segments_def)
  next
    case Waits
    have "stopped_at sid (profile_name rc) nm (max 0 (rc_segments rc)) s'" using wp_other[OF w] assms(3) Waits by blast
    then show ?thesis using Waits by (auto simp: stopped_at_def tables_at_def first_segments_def)
  next
    case Outside
    have "stopped_at sid (profile_name rc) nm (max 0 (rc_segments rc)) s'" using wp_other[OF w] assms(3) Outside by blast
    then show ?thesis using Outside by (auto simp: stopped_at_def tables_at_def first_segments_def)
  qed
qed

text \<open>The result as it is stored, and as the summary has it.\<close>

definition result_row :: "session_summary \<Rightarrow> qoe_row" where
  "result_row sm = \<lparr>r_avg_quality = sm_avg_quality sm, r_avg_bitrate = sm_avg_bitrate sm,
     r_rebuffer_seconds = sm_rebuffer sm, r_n_switches = sm_switches sm, r_qoe = sm_qoe sm\<rparr>"

lemma summarize_effect:
  assumes "summarize rc rep sid t0 s = (Ret sm, s')"
  shows "let q = compute_qoe (ss_qualities s) (rebuffer_seconds rep) (ss_switches s) (Some (cfg_of rc))
    in (\<exists>c'. record_qoe (result_row sm) (ss_collector s) = (Inr (), c') \<and> db (ss_collector s') = db c')
     \<and> ss_puts s' = ss_puts s \<and> sm_session sm = sid \<and> sm_abr sm = abr_name (ss_abr s) \<and> sm_profile sm = profile_name rc
     \<and> sm_segments sm = int (length (ss_qualities s)) \<and> sm_switches sm = ss_switches s \<and> sm_qoe sm = qoe q
     \<and> sm_avg_quality sm = avg_quality q"
proof -
  let ?q = "compute_qoe (ss_qualities s) (rebuffer_seconds rep) (ss_switches s) (Some (cfg_of rc))"
  let ?row = "\<lparr>r_avg_quality = avg_quality ?q, r_avg_bitrate = average_bitrate (ss_qualities s),
      r_rebuffer_seconds = rebuffer_seconds rep, r_n_switches = ss_switches s, r_qoe = qoe ?q\<rparr>"
  obtain y c' where y: "record_qoe ?row (ss_collector s) = (y, c')" by force
  then show ?thesis
    using assms unfolding summarize_def Let_def then_do_Ret
    by (auto simp: collect_def read_monotonic_def Let_def case_prod_beta collector_close_def result_row_def)
qed

lemma run_session_Ret:
  assumes "run_session rc env = (Ret sm, Some s)"
  obtains s0 sid t0 s1 s2 where "session_begin rc env = Ret (s0, sid, t0)"
    and "all_segments (profile_name rc) (iota (rc_segments rc)) s0 = (Ret (), s1)"
    and "record_events (rebuffer_events (final_report env)) (close_client s1) = (Ret (), s2)"
    and "summarize rc (final_report env) sid t0 s2 = (Ret sm, s)"
proof -
  let ?rep = "final_report env"
  obtain s0 sid t0 where b: "session_begin rc env = Ret (s0, sid, t0)"
    using assms by (auto simp: run_session_def split: outcome.splits)
  have "then_do (finally_close (all_segments (profile_name rc) (iota (rc_segments rc)))) (\<lambda>_.
      then_do (record_events (rebuffer_events ?rep)) (\<lambda>_. summarize rc ?rep sid t0)) s0 = (Ret sm, s)"
    using assms b by (simp add: run_session_def Let_def case_prod_beta prod_eq_iff)
  with b show thesis using that unfolding then_do_Ret by auto
qed

lemma session_tables:
  assumes "run_session rc env = (Ret sm, Some s)" and "surroundings_ok env"
  shows "\<exists>nm. let d = db (ss_collector s); k = sm_session sm; ps = ss_puts s;
      q = compute_qoe (map quality_number ps) (rebuffer_seconds (final_report env)) (sm_switches sm) (Some (cfg_of rc))
    in map row_view (segments_of k d) = metric_rows (profile_name rc) nm 500000 ps
     \<and> switches_of k d = switch_list 500000 ps \<and> rebuffers_of k d = rebuffer_events (final_report env)
     \<and> map bs_segment ps = map (\<lambda>i. i + 1) (iota (rc_segments rc)) \<and> list_all on_ladder ps
     \<and> sm_abr sm = nm \<and> sm_segments sm = max 0 (rc_segments rc) \<and> sm_switches sm = int (length (switch_list 500000 ps))
     \<and> sm_qoe sm = qoe q \<and> sm_avg_quality sm = avg_quality q
     \<and> (\<exists>x. s_id x = k \<and> (x, Some \<lparr>r_avg_quality = sm_avg_quality sm, r_avg_bitrate = sm_avg_bitrate sm,
          r_rebuffer_seconds = sm_rebuffer sm, r_n_switches = sm_switches sm, r_qoe = sm_qoe sm\<rparr>) \<in> set (load_sessions d))"
proof -
  let ?prof = "profile_name rc" and ?n = "max 0 (rc_segments rc)" and ?rep = "final_report env"
  from run_session_Ret[OF assms(1)] obtain s0 sid t0 s1 s2 where b: "session_begin rc env = Ret (s0, sid, t0)"
    and r: "all_segments ?prof (iota (rc_segments rc)) s0 = (Ret (), s1)"
      "record_events (rebuffer_events ?rep) (close_client s1) = (Ret (), s2)" "summarize rc ?rep sid t0 s2 = (Ret sm, s)" by blast
  obtain nm where i: "session_inv_at sid ?prof nm 0 s0" using session_begin_inv[OF b assms(2)] by blast
  have "session_inv_at sid ?prof nm ?n s1" by (rule wp_Ret[OF session_loop[OF i] r(1)])
  then obtain ps idx where ps: "first_segments ?n ps" "list_all on_ladder ps"
    and "shape sid ?prof nm ?n ps (switch_list 500000 ps) (map quality_number ps) (metric_rows ?prof nm 500000 ps) idx s1"
    by (auto simp: session_inv_at_def)
  then have sh: "shape sid ?prof nm ?n ps (switch_list 500000 ps) (map quality_number ps) (metric_rows ?prof nm 500000 ps) idx (close_client s1)"
    by (simp add: shape_def close_client_def)
  then obtain c2 where c2: "s2 = (close_client s1)\<lparr>ss_collector := c2\<rparr>" "session_id c2 = Some sid" "collector_ok c2"
    "map row_view (segments_of sid (db c2)) = metric_rows ?prof nm 500000 ps"
    "switches_of sid (db c2) = switch_list 500000 ps" "rebuffers_of sid (db c2) = rebuffer_events ?rep"
    using record_events_effect[OF r(2), of sid] by (auto simp: shape_def)
  have len: "int (length ps) = ?n"
    using arg_cong[OF conjunct2[OF ps(1)[unfolded first_segments_def]], of length] by simp
  have io: "iota ?n = iota (rc_segments rc)" by (cases "0 \<le> rc_segments rc") (simp_all add: iota_def)
  have fs: "ss_qualities s2 = map quality_number ps" "ss_switches s2 = int (length (switch_list 500000 ps))"
    "abr_name (ss_abr s2) = nm" "ss_puts s2 = ps" "ss_collector s2 = c2"
    using sh by (simp_all add: c2(1) shape_def)
  from summarize_effect[OF r(3), unfolded Let_def fs] obtain c3 where c3: "record_qoe (result_row sm) c2 = (Inr (), c3)"
    "db (ss_collector s) = db c3" and sm: "ss_puts s = ps" "sm_session sm = sid" "sm_abr sm = nm" "sm_segments sm = int (length ps)"
    "sm_switches sm = int (length (switch_list 500000 ps))"
    "sm_qoe sm = qoe (compute_qoe (map quality_number ps) (rebuffer_seconds ?rep) (int (length (switch_list 500000 ps))) (Some (cfg_of rc)))"
    "sm_avg_quality sm = avg_quality (compute_qoe (map quality_number ps) (rebuffer_seconds ?rep) (int (length (switch_list 500000 ps))) (Some (cfg_of rc)))"
    by (auto simp del: map_map)
  note e = record_qoe_effect[OF c3(1) c2(2,3), unfolded result_row_def]
  show ?thesis unfolding Let_def c3(2) sm(1-5) using e c2(4-6) sm ps len
    by (intro exI[of _ nm]) (auto simp: first_segments_def io)
qed

section \<open>Properties\<close>

text \<open>C7: The tables and the summary agree with what was downloaded: after a session that returned, its rows
  in the segment table are the segments put, in order, each with its place on the ladder, its size, and
  whether it changed the level; the switch table has exactly these changes; the rebuffer table has
  exactly the events of the report; the summary counts the same; and the analysis finds the session
  with the same QoE, which is \<open>compute_qoe\<close> of the qualities of these segments.\<close>

theorem run_session_consistent:
  assumes "run_session rc env = (Ret sm, Some s)" and "surroundings_ok env"
  shows "\<exists>nm. let d = db (ss_collector s); k = sm_session sm; ps = ss_puts s;
      q = compute_qoe (map quality_number ps) (rebuffer_seconds (final_report env)) (sm_switches sm) (Some (cfg_of rc))
    in map row_view (segments_of k d) = metric_rows (profile_name rc) nm 500000 ps
     \<and> switches_of k d = switch_list 500000 ps \<and> rebuffers_of k d = rebuffer_events (final_report env)
     \<and> map bs_segment ps = map (\<lambda>i. i + 1) (iota (rc_segments rc)) \<and> list_all on_ladder ps
     \<and> sm_abr sm = nm \<and> sm_segments sm = max 0 (rc_segments rc) \<and> sm_switches sm = int (length (switch_list 500000 ps))
     \<and> sm_qoe sm = qoe q \<and> sm_avg_quality sm = avg_quality q
     \<and> (\<exists>x. s_id x = k \<and> (x, Some \<lparr>r_avg_quality = sm_avg_quality sm, r_avg_bitrate = sm_avg_bitrate sm,
          r_rebuffer_seconds = sm_rebuffer sm, r_n_switches = sm_switches sm, r_qoe = sm_qoe sm\<rparr>) \<in> set (load_sessions d))"
  by (rule session_tables[OF assms])

section \<open>A session of one segment\<close>

definition one_config :: run_config where
  "one_config = \<lparr>rc_abr = u ''rate'', rc_hysteresis = False, rc_profile = None, rc_segments = 1, rc_client = u ''c'', rc_qoe = None\<rparr>"

definition one_seg :: segment where
  "one_seg = \<lparr>seg_rep = u ''360p'', seg_id = 1, seg_bitrate = 500000, seg_duration = Finite 2, seg_data = [7, 13, 10, 255]\<rparr>"

definition one_conn :: conn where
  "one_conn = \<lparr>conn_inbox = [Inr (the_ok (segment_header one_seg) @ seg_data one_seg)], sent = [], sends_left = None, cut = 0,
     conn_closed = False\<rparr>"

definition one_surroundings :: surroundings where
  "one_surroundings = \<lparr>peer = Inr one_conn, level_readings = (\<lambda>_. 0), clocks = no_world, db_file = None,
     final_report = playback_report_init\<rparr>"

definition one_abr :: abr where
  "one_abr = RateBasedABR (rate_init DEFAULT_LADDER 2 (fl (85 / 100)))"

definition downloader_to :: "conn \<Rightarrow> downloader" where
  "downloader_to cn = \<lparr>dl_client = connect cn \<lparr>sock = None, buf = []\<rparr>, dl_shaper = None\<rparr>"

definition one_session :: "session \<Rightarrow> bool" where
  "one_session s \<longleftrightarrow> ss_levels s = (\<lambda>_. 0) \<and> ss_abr s = one_abr \<and> ss_index s = 0 \<and> is_open (ss_collector s) \<and> session_id (ss_collector s) = Some 1
   \<and> list_all (\<lambda>p. bs_duration p = 2) (ss_puts s)"

definition one_ready :: "conn \<Rightarrow> session \<Rightarrow> bool" where
  "one_ready cn s \<longleftrightarrow> one_session s \<and> ss_downloader s = downloader_to cn \<and> ew_value (ss_ewma s) = None \<and> ss_levels s = (\<lambda>_. 0)"

lemma one_surroundings_ok: "surroundings_ok one_surroundings"
  by (simp add: surroundings_ok_def one_surroundings_def level_ok_def collector_init_def db_ok_def empty_database_def)

lemma one_begin_to: "\<exists>s. session_begin one_config (one_surroundings\<lparr>peer := Inr cn\<rparr>) = Ret (s, 1, 0) \<and> one_ready cn s \<and> sched_ok 1 (ss_scheduler s)"
  using deadline_init_ok[of 1] fl_le_1[of "3 / 10"] fl_mono[of "1 / 16" "3 / 10"] fl_is_float[of "1 / 16"] is_float_scaled[of 1 4]
  by (simp add: session_begin_def one_config_def one_surroundings_def make_abr_def cfg_of_def lower_ascii_def
      shaper_of_def from_file_def buffer_manager_init_def config_defs ewma_init_def wall_time_def monotonic_def start_session_def
      collector_init_def guarded_def sql_int_def empty_database_def one_ready_def one_session_def one_abr_def
      downloader_to_def no_world_def rate_init_def Let_def)

lemma one_begin: "\<exists>s. session_begin one_config one_surroundings = Ret (s, 1, 0) \<and> one_ready one_conn s \<and> sched_ok 1 (ss_scheduler s)"
  using one_begin_to[of one_conn] by (simp add: one_surroundings_def)

lemma one_header: "\<exists>hdr. segment_header one_seg = Inr hdr \<and> conn_inbox one_conn = [Inr (hdr @ seg_data one_seg)]"
proof -
  have "seg_sendable one_seg" using g_exact_int[of 2] by (simp add: seg_sendable_def one_seg_def LADDER_BY_REP_dom)
  then obtain hdr where "segment_header one_seg = Inr hdr" using segment_header_total by blast
  then show ?thesis by (simp add: one_conn_def the_ok_def)
qed

lemma one_download:
  assumes "one_ready one_conn s"
  shows "wp (download_checked (u ''360p'') 1) (\<lambda>r s'. sd_duration r = Finite 2 \<and> sd_size r = 4 \<and> one_session s') E s"
proof -
  obtain hdr where h: "segment_header one_seg = Inr hdr" "conn_inbox one_conn = [Inr (hdr @ seg_data one_seg)]"
    using one_header by blast
  have req: "build_request (u ''360p'') 1 = Inr (the_ok (build_request (u ''360p'') 1))" by code_simp
  have "seg_sendable one_seg" using g_exact_int[of 2] by (simp add: seg_sendable_def one_seg_def LADDER_BY_REP_dom)
  then obtain c' where f: "fetch (u ''360p'') 1 (connect one_conn \<lparr>sock = None, buf = []\<rparr>) = (Inr (served_header one_seg, seg_data one_seg), c')"
    using req fetch_segment[OF _ _ _ _ h(1), of "connect one_conn \<lparr>sock = None, buf = []\<rparr>" one_conn "u ''360p''" 1
          "the_ok (build_request (u ''360p'') 1)" "[]"] h(2)
    by (auto simp: connect_def one_conn_def one_seg_def)
  then show ?thesis using assms
    by (simp add: wp_def download_checked_def one_ready_def one_session_def downloader_to_def download_def shape_before_def
        perf_counter_def shape_after_def served_header_def Let_def one_seg_def)
qed

text \<open>Without an estimate the rate controller takes the lowest level.\<close>

lemma one_choice:
  assumes "ss_abr s = one_abr" and "ew_value (ss_ewma s) = None"
  shows "decide k s = (Ret (0, u ''360p'', 500000), s\<lparr>ss_reads := ss_reads s + 1\<rparr>)"
proof -
  have "500000 * fl (85 / 100) \<le> 500000" using fl_le_1[of "85 / 100"] by simp
  then have "fl (500000 * fl (85 / 100)) \<le> 500000" by (rule fl_le_numeral) simp
  then have "highest_fitting (rate_init DEFAULT_LADDER 2 (fl (85 / 100))) 500000 (fl (85 / 100)) = 0"
    by (simp add: highest_fitting_def rate_init_def DEFAULT_LADDER_def Let_def)
  then show ?thesis using assms
    by (simp add: decide_def then_do_def read_level_def one_abr_def rate_select_def
        throughput_or_lowest_def state_of_def ewma_estimate_def DEFAULT_LADDER_def py_nth_def return_of_def rate_init_def)
qed

lemma one_decide:
  assumes "one_ready cn s"
  shows "wp (decide k) (\<lambda>(i, rep, br) s'. i = 0 \<and> rep = u ''360p'' \<and> br = 500000 \<and> one_ready cn s') E s"
  using assms one_choice[of s k] by (simp add: wp_def one_ready_def one_session_def del: u_simps)

text \<open>So the first segment that is put is of the lowest level, whatever the levels of the buffer and the network.\<close>

lemma one_start_state:
  assumes "session_begin one_config env = Ret (s, sid, t0)"
  shows "ss_abr s = one_abr \<and> ew_value (ss_ewma s) = None"
  using assms
  by (auto simp: session_begin_def one_config_def make_abr_def cfg_of_def lower_ascii_def shaper_of_def buffer_manager_init_def
      config_defs ewma_init_def Let_def one_abr_def rate_init_def case_prod_beta split: sum.splits if_splits prod.splits)

lemma one_lowest:
  assumes "session_begin one_config env = Ret (s, sid, t0)" and "surroundings_ok env"
    and "all_segments (profile_name one_config) (iota (rc_segments one_config)) s = (Ret (), s')"
  shows "\<exists>p. ss_puts s' = [p] \<and> bs_rep p = u ''360p''"
proof -
  let ?prof = "profile_name one_config"
  have l: "iota (rc_segments one_config) = [0]" by (simp add: one_config_def iota_def)
  obtain nm where "session_inv_at sid ?prof nm 0 s" using session_begin_inv[OF assms(1,2)] by blast
  then obtain ps sw qs rows idx where sh: "shape sid ?prof nm 0 ps sw qs rows idx s" and ps: "first_segments 0 ps" by (auto simp: session_inv_at_def)
  then have ps: "ps = []" by (simp add: first_segments_def iota_def)
  note st = one_start_state[OF assms(1)]
  have ask: "wp (ask_scheduler 0) (\<lambda>k s'. shape sid ?prof nm 1 ps sw qs rows idx s' \<and> ss_abr s' = one_abr \<and> ew_value (ss_ewma s') = None) E s" for E
    using wp_ask_scheduler[OF sh, where E = E] st
    by (auto simp: wp_def ask_scheduler_def then_do_def read_monotonic_def monotonic_def read_level_def case_prod_beta)
  have dec: "wp (decide k) (\<lambda>(i, rep, br) s'. 0 \<le> i \<and> i < 4 \<and> rep = u ''360p'' \<and> shape sid ?prof nm 1 ps sw qs rows idx s') E s"
    if "shape sid ?prof nm 1 ps sw qs rows idx s" "ss_abr s = one_abr" "ew_value (ss_ewma s) = None" for k s E
    using one_choice[OF that(2,3), of k] that(1) by (simp add: wp_def shape_def del: u_simps)
  have "wp (one_segment ?prof 0) (\<lambda>_ s'. \<exists>p. ss_puts s' = [p] \<and> bs_rep p = u ''360p'') (\<lambda>_. True) s"
    unfolding one_segment_def
    apply (rule wp_bind[OF ask], elim conjE)
    apply (rule wp_bind, erule dec, assumption, assumption, simp only: split_paired_all prod.case, elim conjE)
    apply (rule wp_bind, erule wp_read(1))
    apply (rule wp_bind, erule wp_download, rule TrueI)
    apply (rule wp_bind, erule wp_read(1))
    apply (rule wp_bind, erule wp_read(3))
    apply (rule wp_bind, erule wp_note_switch, assumption, assumption, rule TrueI)
    apply (elim conjE, hypsubst)
    apply (rule wp_bind, erule wp_put_segment, rule TrueI)
    apply (elim exE conjE)
    apply (rule wp_bind, erule wp_read(1))
    apply (rule wp_bind, erule wp_note_quality, assumption, assumption)
    apply (rule wp_bind, erule wp_read(2))
    apply (rule wp_state, rule wp_mono, erule wp_record_segment, rule TrueI)
    apply (auto simp: shape_def ps simp del: u_simps)
    done
  moreover have "one_segment ?prof 0 s = (Ret (), s')"
    using assms(3) unfolding l by (auto simp: then_do_def split: prod.splits outcome.splits)
  ultimately show ?thesis by (simp add: wp_def)
qed

lemma one_ask:
  assumes "one_ready cn s" and "sched_ok 1 (ss_scheduler s)"
  shows "wp (ask_scheduler 0) (\<lambda>k s'. k = 1 \<and> one_ready cn s') E s"
proof -
  let ?n = "next_segment 1 3 (mono_clock (ss_world s) (ticks (ss_world s))) 0 (ss_scheduler s)"
  have "fst ?n = 1" using next_segment_in_order[OF assms(2), of 0 3] by (simp add: level_ok_def)
  then show ?thesis using assms
    by (simp add: wp_def ask_scheduler_def then_do_def read_monotonic_def monotonic_def read_level_def one_ready_def
        one_session_def case_prod_beta)
qed

lemma one_segment_returns:
  assumes "one_ready one_conn s" and "sched_ok 1 (ss_scheduler s)"
  shows "wp (one_segment prof 0) (\<lambda>_. one_session) (\<lambda>_. False) s"
proof -
  let ?F = "\<lambda>_. False"
  have rd: "wp read_level (\<lambda>_. one_ready one_conn) ?F s" if "one_ready one_conn s" for s
    using that by (simp add: wp_def read_level_def one_ready_def one_session_def)
  have rd': "wp read_level (\<lambda>_. one_session) ?F s" "wp read_time (\<lambda>_. one_session) ?F s"
    "wp (update_ewma t) (\<lambda>_. one_session) ?F s" if "one_session s" for s t
    using that by (simp_all add: wp_def read_level_def read_time_def wall_time_def update_ewma_def one_session_def case_prod_beta)
  have sw: "wp (note_switch 1 0 500000) (\<lambda>_. one_session) ?F s" if "one_session s" for s
    using that by (simp add: wp_def note_switch_def one_session_def)
  have pt: "wp (put_segment 1 rep br r) (\<lambda>_. one_session) ?F s" if "one_session s" "sd_duration r = Finite 2" for s rep br r
    using that by (simp add: wp_def put_segment_def then_do_def read_time_def wall_time_def wait_for_room_def full_at_def
        first_room.simps[of "\<lambda>_. 0"] config_defs or_two_def one_session_def)
  have q: "wp (note_quality 0) (\<lambda>_. one_session) ?F s" if "one_session s" for s
    using that by (simp add: wp_def note_quality_def then_do_def return_of_def one_session_def one_abr_def rate_init_def
        quality_of_def bitrate_of_def DEFAULT_LADDER_def py_nth_def)
  have rs: "wp (collect (record_segment row)) (\<lambda>_. one_session) ?F s"
    if "one_session s" "m_segment row = 1" "m_bitrate row = 500000" "m_size row = 4" for s row
    using that by (simp add: wp_def collect_def record_segment_def guarded_def sql_int_def one_session_def return_of_def Let_def)
  show ?thesis unfolding one_segment_def
    apply (rule wp_bind[OF one_ask[OF assms]], elim conjE, hypsubst)
    apply (rule wp_bind, erule one_decide, simp only: split_paired_all prod.case, elim conjE, hypsubst)
    apply (rule wp_bind, erule rd)
    apply (rule wp_bind, erule one_download, elim conjE)
    apply (rule wp_bind, erule rd'(1))
    apply (rule wp_bind, erule rd'(3))
    apply (rule wp_bind, erule sw)
    apply (rule wp_bind, erule pt, assumption)
    apply (rule wp_bind, erule rd'(1))
    apply (rule wp_bind, erule q)
    apply (rule wp_bind, erule rd'(2))
    apply (rule wp_state, erule rs; simp)
    done
qed

lemma one_loop: "\<exists>s s'. session_begin one_config one_surroundings = Ret (s, 1, 0)
    \<and> all_segments (profile_name one_config) (iota (rc_segments one_config)) s = (Ret (), s') \<and> one_session s'"
proof -
  obtain s where s: "session_begin one_config one_surroundings = Ret (s, 1, 0)" "one_ready one_conn s" "sched_ok 1 (ss_scheduler s)"
    using one_begin by blast
  have "wp (one_segment (u ''none'') 0) (\<lambda>_. one_session) (\<lambda>_. False) s" by (rule one_segment_returns[OF s(2,3)])
  then obtain x s' where "one_segment (u ''none'') 0 s = (Ret x, s')" "one_session s'"
    by (auto simp: wp_def split: prod.splits outcome.splits)
  then show ?thesis using s(1) by (auto simp: one_config_def profile_name_def iota_def then_do_def)
qed

lemma one_run: "\<exists>sm s. run_session one_config one_surroundings = (Ret sm, Some s)"
proof -
  obtain s s' where s: "session_begin one_config one_surroundings = Ret (s, 1, 0)" "one_session s'"
    "all_segments (profile_name one_config) (iota (rc_segments one_config)) s = (Ret (), s')" using one_loop by blast
  obtain nm where "session_inv_at 1 (profile_name one_config) nm 0 s"
    using session_begin_inv[OF s(1) one_surroundings_ok] by blast
  from wp_Ret[OF session_loop[OF this] s(3)] obtain ps idx where
    "shape 1 (profile_name one_config) nm 1 ps (switch_list 500000 ps) (map quality_number ps)
       (metric_rows (profile_name one_config) nm 500000 ps) idx s'" "first_segments 1 ps"
    by (auto simp: session_inv_at_def one_config_def)
  then have "ss_switches s' = int (length (switch_list 500000 ps))" "length ps = 1"
    using arg_cong[of "map bs_segment ps" _ length] by (auto simp: shape_def first_segments_def iota_def)
  moreover have "length (switch_list b ps) \<le> length ps" for b by (induction ps arbitrary: b) (auto simp: le_SucI)
  ultimately have "sql_int (ss_switches s')" by (auto simp: sql_int_def intro: order.strict_trans1[of _ 1])
  then show ?thesis using s
    by (simp add: run_session_def finally_close_def then_do_def one_surroundings_def playback_report_init_def summarize_def
        Let_def collect_def record_qoe_def guarded_def close_client_def one_session_def return_of_def read_monotonic_def
        monotonic_def)
qed

text \<open>The same session with a server that closes the connection at once.\<close>

definition lost_surroundings :: surroundings where
  "lost_surroundings = one_surroundings\<lparr>peer := Inr (one_conn\<lparr>conn_inbox := []\<rparr>)\<rparr>"

lemma wp_returns: "wp m Q (\<lambda>_. False) s \<longleftrightarrow> (\<exists>x s'. m s = (Ret x, s') \<and> Q x s')"
  by (auto simp: wp_def split: prod.splits outcome.splits)

lemma lost_download:
  assumes "one_ready (one_conn\<lparr>conn_inbox := []\<rparr>) s"
  shows "\<exists>s'. download_checked (u ''360p'') 1 s = (Exc ConnectionError, s')"
proof -
  have "build_request (u ''360p'') 1 = Inr (the_ok (build_request (u ''360p'') 1))" by code_simp
  then obtain req where "build_request (u ''360p'') 1 = Inr req" by blast
  then have "fst (fetch (u ''360p'') 1 (connect (one_conn\<lparr>conn_inbox := []\<rparr>) \<lparr>sock = None, buf = []\<rparr>)) = Inl ConnectionError"
    by (simp add: fetch_def connect_def one_conn_def sendall_def read_header_def read_header_lines.simps[of "[]"] case_prod_beta
        del: u_simps)
  then show ?thesis using assms
    by (simp add: download_checked_def one_ready_def downloader_to_def download_def shape_before_def
        perf_counter_def Let_def case_prod_beta)
qed

lemma lost_run: "\<exists>s0 s. session_begin one_config lost_surroundings = Ret (s0, 1, 0)
    \<and> fst (all_segments (profile_name one_config) (iota (rc_segments one_config)) s0) = Exc ConnectionError
    \<and> run_session one_config lost_surroundings = (Exc ConnectionError, Some s)"
proof -
  obtain s where s: "session_begin one_config lost_surroundings = Ret (s, 1, 0)" "one_ready (one_conn\<lparr>conn_inbox := []\<rparr>) s"
    "sched_ok 1 (ss_scheduler s)"
    using one_begin_to[of "one_conn\<lparr>conn_inbox := []\<rparr>"] by (auto simp: lost_surroundings_def)
  obtain s1 where s1: "ask_scheduler 0 s = (Ret 1, s1)" "one_ready (one_conn\<lparr>conn_inbox := []\<rparr>) s1"
    using one_ask[OF s(2,3), where E = "\<lambda>_. False"] by (auto simp: wp_returns)
  obtain s2 where s2: "decide 1 s1 = (Ret (0, u ''360p'', 500000), s2)" "one_ready (one_conn\<lparr>conn_inbox := []\<rparr>) s2"
    using one_decide[OF s1(2), where E = "\<lambda>_. False"] by (auto simp: wp_returns simp del: u_simps)
  have "\<exists>x s3. read_level s2 = (Ret x, s3) \<and> one_ready (one_conn\<lparr>conn_inbox := []\<rparr>) s3"
    using s2(2) by (simp add: read_level_def one_ready_def one_session_def)
  then obtain x s3 where s3: "read_level s2 = (Ret x, s3)" "one_ready (one_conn\<lparr>conn_inbox := []\<rparr>) s3" by blast
  from lost_download[OF s3(2)] obtain s4 where "download_checked (u ''360p'') 1 s3 = (Exc ConnectionError, s4)" by blast
  then have "one_segment (u ''none'') 0 s = (Exc ConnectionError, s4)"
    using s1(1) s2(1) s3(1) by (simp add: one_segment_def then_do_def del: u_simps)
  then have "all_segments (profile_name one_config) (iota (rc_segments one_config)) s = (Exc ConnectionError, s4)"
    by (simp add: one_config_def profile_name_def iota_def then_do_def)
  then show ?thesis using s(1) by (simp add: run_session_def finally_close_def then_do_def Let_def)
qed

lemma run_session_consistent_witness:
  "\<exists>sm s. run_session one_config one_surroundings = (Ret sm, Some s) \<and> sm_segments sm = 1
    \<and> map bs_segment (ss_puts s) = [1] \<and> length (segments_of (sm_session sm) (db (ss_collector s))) = 1
    \<and> switches_of (sm_session sm) (db (ss_collector s)) = switch_list 500000 (ss_puts s)"
proof -
  obtain sm s where r: "run_session one_config one_surroundings = (Ret sm, Some s)" using one_run by blast
  from run_session_consistent[OF this one_surroundings_ok] obtain nm where
    f: "map row_view (segments_of (sm_session sm) (db (ss_collector s))) = metric_rows (profile_name one_config) nm 500000 (ss_puts s)"
      "switches_of (sm_session sm) (db (ss_collector s)) = switch_list 500000 (ss_puts s)" "sm_segments sm = 1"
      "map bs_segment (ss_puts s) = [1]"
    by (auto simp: Let_def one_config_def iota_def)
  have "length (metric_rows p nm b ps) = length ps" for p b ps by (induction ps arbitrary: b) auto
  then have "length (segments_of (sm_session sm) (db (ss_collector s))) = 1"
    using arg_cong[OF f(1), of length] arg_cong[OF f(4), of length] by simp
  with r f show ?thesis by (intro exI[of _ sm] exI[of _ s]) simp
qed

end
