(* ===== verification/Experiments.thy ===== *)
theory Experiments
  imports Session
begin

text \<open>
  What is built on sessions: \<open>scripts/run_comparison.py\<close> runs every algorithm on the same profile and
  database, \<open>analysis/analyze.py\<close> and \<open>analysis/plots.py\<close> turn the database into a table and into the
  series of the figures.  Here the table is its rows and a figure its series; how they are printed and drawn,
  and the command lines, are in \<open>Report\<close> and \<open>Programs\<close>.  The lemmas follow one session's rows through the file into the table.
\<close>

section \<open>The comparison\<close>

definition ALGORITHMS :: "(pystr \<times> bool) list" where
  "ALGORITHMS = [(u ''rate'', False), (u ''buffer'', False), (u ''bola'', False), (u ''bola'', True), (u ''mpc'', False)]"

definition comparison_config :: "pystr \<times> json result \<Rightarrow> int \<Rightarrow> qoe_config \<Rightarrow> pystr \<times> bool \<Rightarrow> run_config" where
  "comparison_config profile n cfg = (\<lambda>(nm, hyst).
     \<lparr>rc_abr = nm, rc_hysteresis = hyst, rc_profile = Some profile, rc_segments = n,
      rc_client = u ''c-'' @ nm @ (if hyst then u ''-h'' else []), rc_qoe = Some cfg\<rparr>)"

text \<open>One session after the other on the same file; the first exception ends the run.\<close>

fun compare :: "(pystr \<times> bool \<Rightarrow> run_config) \<Rightarrow> (pystr \<times> bool) list \<Rightarrow> surroundings list \<Rightarrow> database option \<Rightarrow>
    session_summary list outcome \<times> database option" where
  "compare cf (a # as) (env # envs) file =
     (case run_session (cf a) (env\<lparr>db_file := file\<rparr>) of
        (Ret sm, Some s) \<Rightarrow>
          (case compare cf as envs (Some (db (ss_collector s))) of
             (Ret sms, file') \<Rightarrow> (Ret (sm # sms), file')
           | (r, file') \<Rightarrow> (r, file'))
      | (Exc e, Some s) \<Rightarrow> (Exc e, Some (db (ss_collector s)))
      | (Exc e, None) \<Rightarrow> (Exc e, file)
      | (Waits, Some s) \<Rightarrow> (Waits, Some (db (ss_collector s)))
      | (_, _) \<Rightarrow> (Outside, file))"
| "compare cf _ _ file = (Ret [], file)"

text \<open>No entry of the list makes the factory fail.\<close>

lemma ALGORITHMS_known:
  assumes "(nm, hyst) \<in> set ALGORITHMS"
  shows "\<exists>a. make_abr nm hyst cfg = Inr a"
proof -
  have "lower_ascii nm = nm \<and> nm \<in> {u ''rate'', u ''buffer'', u ''bola'', u ''mpc''}"
    using assms by (auto simp: ALGORITHMS_def lower_ascii_def)
  then show ?thesis by (auto simp: make_abr_def Let_def config_defs default_buffer default_bola)
qed

section \<open>The table of the analysis\<close>

text \<open>\<open>s['qoe'] or 0\<close>: NULL, like zero, is shown as zero.\<close>

definition or_zero :: "('a \<Rightarrow> 'b :: zero) \<Rightarrow> 'a option \<Rightarrow> 'b" where
  "or_zero f q = (case q of None \<Rightarrow> 0 | Some x \<Rightarrow> f x)"

record analysis_row =
  t_id :: int
  t_abr :: pystr
  t_profile :: pystr
  t_kbps :: real
  t_quality :: real
  t_rebuffer :: real
  t_switches :: int
  t_qoe :: real

definition analysis_row_of :: "session_row \<times> qoe_row option \<Rightarrow> analysis_row" where
  "analysis_row_of = (\<lambda>(s, q).
     \<lparr>t_id = s_id s, t_abr = s_abr s, t_profile = s_profile s, t_kbps = fl (or_zero r_avg_bitrate q / 1000),
      t_quality = or_zero r_avg_quality q, t_rebuffer = or_zero r_rebuffer_seconds q,
      t_switches = or_zero r_n_switches q, t_qoe = or_zero r_qoe q\<rparr>)"

definition analyze :: "database option \<Rightarrow> analysis_row list result" where
  "analyze file =
     (case file of
        None \<Rightarrow> Inl SystemExit
      | Some d \<Rightarrow>
          (let rows = load_sessions d
           in if rows = [] then Inl SystemExit else Inr (map analysis_row_of rows)))"

section \<open>The figures\<close>

text \<open>\<open>by_session.setdefault(row["session_id"], []).append(row)\<close>, over all rows.\<close>

fun add_row :: "int \<Rightarrow> 'a \<Rightarrow> (int \<times> 'a list) list \<Rightarrow> (int \<times> 'a list) list" where
  "add_row k r [] = [(k, [r])]"
| "add_row k r ((k', rs) # g) = (if k' = k then (k', rs @ [r]) # g else (k', rs) # add_row k r g)"

definition by_session :: "(int \<times> int \<times> segment_data) list \<Rightarrow> (int \<times> segment_data list) list" where
  "by_session rows = foldl (\<lambda>g r. add_row (fst (snd r)) (snd (snd r)) g) [] rows"

record series =
  x_segments :: "int list"
  y_kbps :: "real list"
  y_instant :: "real list"
  y_ewma :: "real list"
  y_buffer :: "real list"

definition plot_session :: "segment_data list \<Rightarrow> series" where
  "plot_session rows =
     \<lparr>x_segments = map m_segment rows, y_kbps = map (\<lambda>r. fl (of_int (m_bitrate r) / 1000)) rows,
      y_instant = map (\<lambda>r. fl (instant_throughput r / 1000000)) rows,
      y_ewma = map (\<lambda>r. fl (ewma_throughput r / 1000000)) rows, y_buffer = map buffer_after rows\<rparr>"

definition plot_qoe :: "(session_row \<times> qoe_row option) list \<Rightarrow> ((int \<times> pystr \<times> pystr) \<times> real) list" where
  "plot_qoe ss = map (\<lambda>(s, q). ((s_id s, s_abr s, s_profile s), or_zero r_qoe q)) ss"

text \<open>One figure for every session that has rows, and the bars of the comparison.\<close>

definition session_figures ::
  "(session_row \<times> qoe_row option) list \<Rightarrow> (int \<times> int \<times> segment_data) list \<Rightarrow> (session_row \<times> series) list" where
  "session_figures ss segs =
     (let groups = by_session segs
      in concat (map (\<lambda>(s, q). case map_of groups (s_id s) of
                                 None \<Rightarrow> []
                               | Some rows \<Rightarrow> if rows = [] then [] else [(s, plot_session rows)]) ss))"

text \<open>\<open>_load\<close>: the sessions with their results, and the rows of all segments.\<close>

definition plots_load :: "database \<Rightarrow> (session_row \<times> qoe_row option) list \<times> (int \<times> int \<times> segment_data) list" where
  "plots_load d = (load_sessions d, segment_frame d)"

definition plots :: "database \<Rightarrow> ((session_row \<times> series) list \<times> ((int \<times> pystr \<times> pystr) \<times> real) list) result" where
  "plots d =
     (let (ss, segs) = plots_load d
      in if ss = [] then Inl SystemExit else Inr (session_figures ss segs, plot_qoe ss))"

section \<open>What one session adds to the file\<close>

text \<open>The tables that the loop leaves alone: sessions and results, with the number of the session and the
  connection to the file.\<close>

definition head_of :: "session \<Rightarrow> session_row list \<times> int \<times> (int \<times> qoe_row) list \<times> int option \<times> bool" where
  "head_of s = (let d = db (ss_collector s)
     in (sessions d, session_seq d, qoe_results d, session_id (ss_collector s), is_open (ss_collector s)))"

definition keeps_head :: "(session, 'a) act \<Rightarrow> bool" where
  "keeps_head m \<longleftrightarrow> (\<forall>s. head_of (snd (m s)) = head_of s)"

named_theorems keeps

lemma keeps_then_do [keeps]: "keeps_head m \<Longrightarrow> (\<And>x. keeps_head (f x)) \<Longrightarrow> keeps_head (then_do m f)"
  by (auto simp: keeps_head_def then_do_def split: prod.splits outcome.splits) (metis snd_conv)+

lemma snd_return_of [simp]: "snd (return_of r s) = s"
  by (simp add: return_of_def split: sum.split)

lemma keeps_prod [keeps]: "(\<And>a b. keeps_head (f a b)) \<Longrightarrow> keeps_head (case p of (a, b) \<Rightarrow> f a b)"
  by (cases p) simp

lemma keeps_collect [keeps]:
  "keeps_head (collect (record_segment row))" "keeps_head (collect (record_switch k a b))"
  "keeps_head (collect (record_rebuffer off dur k))" "keeps_head (\<lambda>s. collect (record_segment (g s)) s)"
  by (auto simp: keeps_head_def collect_def record_segment_def record_switch_def record_rebuffer_def
      head_of_def Let_def split: option.splits sum.splits)

lemma keeps_plain [keeps]:
  "keeps_head read_level" "keeps_head read_time" "keeps_head read_monotonic" "keeps_head (update_ewma t)"
  "keeps_head (download_checked rep k)" "keeps_head (note_quality i)" "keeps_head (put_segment k rep br res)"
  by (auto simp: keeps_head_def read_level_def read_time_def read_monotonic_def update_ewma_def download_checked_def
      note_quality_def put_segment_def wait_for_room_def then_do_def return_of_def head_of_def Let_def case_prod_beta
      split: sum.splits xfloat.splits option.splits)

lemma keeps_ask [keeps]: "keeps_head (ask_scheduler i)" "keeps_head (decide k)" "keeps_head (note_switch k index br)"
proof -
  show "keeps_head (ask_scheduler i)" unfolding ask_scheduler_def
    by (intro keeps) (simp add: keeps_head_def head_of_def case_prod_beta)
  show "keeps_head (decide k)" unfolding decide_def
    by (intro keeps) (auto simp: keeps_head_def head_of_def then_do_def return_of_def split: sum.splits)
  have guard: "keeps_head (\<lambda>s. if index \<noteq> ss_index s then m s else (Ret False, s))" if "keeps_head m" for m
    using that by (simp add: keeps_head_def)
  show "keeps_head (note_switch k index br)" unfolding note_switch_def
    by (rule guard, intro keeps) (simp_all add: keeps_head_def head_of_def)
qed

lemma keeps_segments: "keeps_head (one_segment prof i)" "keeps_head (all_segments prof is)" "keeps_head (record_events evs)"
proof -
  show one: "keeps_head (one_segment prof i)" for i unfolding one_segment_def
    by (intro keeps)
  show "keeps_head (all_segments prof is)"
  proof (induction "is")
    case (Cons i "is")
    then have "keeps_head (then_do (one_segment prof i) (\<lambda>_. all_segments prof is))" by (intro keeps one)
    then show ?case by (simp add: keeps_head_def)
  qed (simp add: keeps_head_def)
  show "keeps_head (record_events evs)"
  proof (induction evs)
    case (Cons ev evs)
    obtain off dur k where ev: "ev = (off, dur, k)" by (cases ev)
    have "keeps_head (then_do (collect (record_rebuffer off dur k)) (\<lambda>_. record_events evs))" by (intro keeps Cons)
    then show ?case by (simp add: keeps_head_def ev)
  qed (simp add: keeps_head_def)
qed

lemma sort_key_last: "(\<forall>y\<in>set xs. f y \<le> f x) \<Longrightarrow> sort_key f (xs @ [x]) = sort_key f xs @ [x]"
proof (induction xs)
  case (Cons a xs)
  have "f a \<le> f x \<Longrightarrow> insort_key f a (ys @ [x]) = insort_key f a ys @ [x]" for ys by (induction ys) auto
  with Cons show ?case by simp
qed simp

lemma start_session_head:
  "start_session client abr profile al be ga n nts now c = (Inr sid, c') \<Longrightarrow>
   \<exists>x. sessions (db c') = sessions (db c) @ [x] \<and> session_seq (db c') = sid \<and> sid = session_seq (db c) + 1
     \<and> qoe_results (db c') = qoe_results (db c) \<and> session_id c' = Some sid \<and> s_id x = sid \<and> s_abr x = abr \<and> s_profile x = profile
     \<and> is_open c'"
  by (auto simp: start_session_def guarded_def Let_def split: option.splits if_splits)

lemma session_begin_head:
  assumes "session_begin rc env = Ret (s, sid, t0)"
  shows "\<exists>x a. let d0 = db (collector_init (db_file env)) in
    head_of s = (sessions d0 @ [x], sid, qoe_results d0, Some sid, True) \<and> sid = session_seq d0 + 1
    \<and> s_id x = sid \<and> s_abr x = abr_name a \<and> s_profile x = profile_name rc
    \<and> make_abr (rc_abr rc) (rc_hysteresis rc) (cfg_of rc) = Inr a \<and> ss_abr s = a"
proof -
  from assms obtain a t c where a: "make_abr (rc_abr rc) (rc_hysteresis rc) (cfg_of rc) = Inr a"
    and c: "start_session (rc_client rc) (abr_name a) (profile_name rc) (qoe_alpha (cfg_of rc))
      (qoe_beta (cfg_of rc)) (qoe_gamma (cfg_of rc)) (rc_segments rc) [] t (collector_init (db_file env)) = (Inr sid, c)"
    and s: "ss_abr s = a" "ss_collector s = c"
    by (auto simp: session_begin_def Let_def case_prod_beta prod_eq_iff split: sum.splits outcome.splits prod.splits)
  from start_session_head[OF c] a s show ?thesis by (auto simp: head_of_def Let_def)
qed

text \<open>A new session is the last one, with its result if there is one.\<close>

lemma load_sessions_next:
  assumes "db_ok d0" and "db_ok d" and "sessions d = sessions d0 @ [x]" and "s_id x = session_seq d0 + 1"
    and "qoe_results d = (case q of None \<Rightarrow> qoe_results d0 | Some r \<Rightarrow> replace_row (s_id x) r (qoe_results d0))"
    and "q = None \<longrightarrow> map_of (qoe_results d0) (s_id x) = None"
  shows "load_sessions d = load_sessions d0 @ [(x, q)]"
proof -
  have less: "\<forall>y\<in>set (sessions d0). s_id y < s_id x" using assms(1,4) by (fastforce simp: db_ok_def numbered_def)
  then have "sort_key s_id (sessions d) = sort_key s_id (sessions d0) @ [x]"
    unfolding assms(3) by (intro sort_key_last) force
  then show ?thesis using less assms(5,6)
    unfolding load_sessions_eq[OF assms(1)] load_sessions_eq[OF assms(2)] by (cases q) (auto simp: map_of_replace_row)
qed

lemma run_session_adds:
  assumes "run_session rc env = (Ret sm, Some s)" and "surroundings_ok env"
  shows "\<exists>x a. let d0 = db (collector_init (db_file env)); d = db (ss_collector s) in
    load_sessions d = load_sessions d0 @ [(x, Some (result_row sm))] \<and> db_ok d
    \<and> session_seq d = session_seq d0 + 1 \<and> sm_session sm = session_seq d0 + 1 \<and> s_id x = sm_session sm
    \<and> s_abr x = sm_abr sm \<and> s_profile x = profile_name rc \<and> sm_profile sm = profile_name rc
    \<and> make_abr (rc_abr rc) (rc_hysteresis rc) (cfg_of rc) = Inr a \<and> sm_abr sm = abr_name a"
proof -
  let ?prof = "profile_name rc" and ?rep = "final_report env" and ?d0 = "db (collector_init (db_file env))"
  from run_session_Ret[OF assms(1)] obtain s0 sid t0 s1 s2 where b: "session_begin rc env = Ret (s0, sid, t0)"
    and r: "all_segments ?prof (iota (rc_segments rc)) s0 = (Ret (), s1)"
      "record_events (rebuffer_events ?rep) (close_client s1) = (Ret (), s2)" "summarize rc ?rep sid t0 s2 = (Ret sm, s)" by blast
  from session_begin_head[OF b] obtain x a where x: "head_of s0 = (sessions ?d0 @ [x], sid, qoe_results ?d0, Some sid, True)"
    "s_id x = sid" "s_abr x = abr_name a" "s_profile x = ?prof" and sid: "sid = session_seq ?d0 + 1"
    and a: "make_abr (rc_abr rc) (rc_hysteresis rc) (cfg_of rc) = Inr a" "ss_abr s0 = a"
    by (auto simp: Let_def)
  obtain nm where i: "session_inv_at sid ?prof nm 0 s0" using session_begin_inv[OF b assms(2)] by blast
  then have nm: "nm = abr_name a" using a(2) by (auto simp: session_inv_at_def shape_def)
  have "session_inv_at sid ?prof nm (max 0 (rc_segments rc)) s1" by (rule wp_Ret[OF session_loop[OF i] r(1)])
  then have s1: "session_id (ss_collector (close_client s1)) = Some sid" "collector_ok (ss_collector (close_client s1))"
    "abr_name (ss_abr (close_client s1)) = nm"
    by (auto simp: session_inv_at_def shape_def close_client_def)
  from record_events_effect[OF r(2) s1(1,2)] obtain c2 where c2: "s2 = (close_client s1)\<lparr>ss_collector := c2\<rparr>" "collector_ok c2"
    by blast
  have "head_of s2 = head_of (close_client s1)" "head_of s1 = head_of s0"
    using keeps_segments(2,3) r(1,2) unfolding keeps_head_def by (metis snd_conv)+
  moreover have "head_of (close_client s1) = head_of s1" by (simp add: head_of_def close_client_def)
  ultimately have h2: "head_of s2 = (sessions ?d0 @ [x], sid, qoe_results ?d0, Some sid, True)" using x(1) by simp
  from summarize_effect[OF r(3), unfolded Let_def] obtain c' where c': "record_qoe (result_row sm) (ss_collector s2) = (Inr (), c')"
    "db (ss_collector s) = db c'" and sm: "sm_session sm = sid" "sm_abr sm = abr_name (ss_abr s2)" "sm_profile sm = ?prof"
    by blast
  have ok: "db_ok (db c')" using collector_ok_step[OF c2(2) collector_step.intros(5)[of c2 "result_row sm"]] c'(1) c2(1)
    by (simp add: collector_ok_def)
  have d: "sessions (db c') = sessions ?d0 @ [x]" "session_seq (db c') = sid"
    "qoe_results (db c') = replace_row sid (result_row sm) (qoe_results ?d0)"
    using c'(1) h2 by (auto simp: record_qoe_def Let_def head_of_def split: option.splits)
  have ok0: "db_ok ?d0" using assms(2) by (simp add: surroundings_ok_def)
  have "load_sessions (db c') = load_sessions ?d0 @ [(x, Some (result_row sm))]"
    by (rule load_sessions_next[OF ok0 ok]) (simp_all add: d x(2) sid)
  then show ?thesis using sm s1(3) c' d(2) ok x sid a nm c2(1) by (intro exI[of _ x] exI[of _ a]) (simp add: Let_def)
qed

text \<open>A session that fails: where it stopped, and what follows the loop; the events are recorded after a loop that has
  come to its end.\<close>

definition after_loop :: "(real \<times> real \<times> int) list \<Rightarrow> int \<Rightarrow> session \<Rightarrow> session \<Rightarrow> bool" where
  "after_loop evs sid s1 s \<longleftrightarrow> ss_puts s = ss_puts s1 \<and> head_of s = head_of s1 \<and> sock (dl_client (ss_downloader s)) = None
   \<and> collector_ok (ss_collector s) \<and> segments_of sid (db (ss_collector s)) = segments_of sid (db (ss_collector s1))
   \<and> switches_of sid (db (ss_collector s)) = switches_of sid (db (ss_collector s1))
   \<and> rebuffers_of sid (db (ss_collector s)) = evs"

lemma close_client_loop:
  assumes "stopped_at sid prof nm n s1"
  shows "after_loop [] sid s1 (close_client s1)"
  using assms by (auto simp: after_loop_def stopped_at_def tables_at_def close_client_def close_def head_of_def Let_def)

lemma record_events_loop:
  assumes "stopped_at sid prof nm n s1" and "is_open (ss_collector s1)" and "record_events evs (close_client s1) = (r, s)"
  shows "after_loop (takeWhile storable evs) sid s1 s"
proof -
  have c: "session_id (ss_collector (close_client s1)) = Some sid" "collector_ok (ss_collector (close_client s1))"
    "rebuffers_of sid (db (ss_collector (close_client s1))) = []" "is_open (ss_collector (close_client s1))"
    using assms(1,2) by (auto simp: stopped_at_def tables_at_def close_client_def)
  have "head_of s = head_of (close_client s1)" using keeps_segments(3) assms(3) unfolding keeps_head_def by (metis snd_conv)
  moreover have "head_of (close_client s1) = head_of s1" by (simp add: head_of_def close_client_def)
  ultimately show ?thesis using record_events_effect[OF assms(3) c(1,2)] record_events_exact[OF assms(3) c(1,4)] c(3)
    by (auto simp: after_loop_def close_client_def close_def)
qed

lemma summarize_fails:
  assumes "summarize rc rep sid t0 s = (Exc e, s')"
  shows "s' = s"
proof -
  let ?q = "compute_qoe (ss_qualities s) (rebuffer_seconds rep) (ss_switches s) (Some (cfg_of rc))"
  let ?row = "\<lparr>r_avg_quality = avg_quality ?q, r_avg_bitrate = average_bitrate (ss_qualities s),
      r_rebuffer_seconds = rebuffer_seconds rep, r_n_switches = ss_switches s, r_qoe = qoe ?q\<rparr>"
  obtain y c' where y: "record_qoe ?row (ss_collector s) = (y, c')" by force
  then show ?thesis using assms record_failed(4)[of ?row "ss_collector s"]
    by (cases y) (auto simp: summarize_def Let_def then_do_def collect_def return_of_def read_monotonic_def monotonic_def)
qed

text \<open>The events that are in the file after a session that failed.\<close>

definition recorded_events :: "run_config \<Rightarrow> playback_report \<Rightarrow> session \<Rightarrow> (real \<times> real \<times> int) list" where
  "recorded_events rc rep s0 =
     (if fst (all_segments (profile_name rc) (iota (rc_segments rc)) s0) = Ret () then takeWhile storable (rebuffer_events rep)
      else [])"

lemma run_session_stops:
  assumes "run_session rc env = (Exc e, Some s)" and "surroundings_ok env"
  shows "\<exists>s0 sid t0 nm s1. session_begin rc env = Ret (s0, sid, t0) \<and> head_of s1 = head_of s0
    \<and> stopped_at sid (profile_name rc) nm (max 0 (rc_segments rc)) s1
    \<and> after_loop (recorded_events rc (final_report env) s0) sid s1 s"
proof -
  let ?prof = "profile_name rc" and ?rep = "final_report env"
  obtain s0 sid t0 where b: "session_begin rc env = Ret (s0, sid, t0)"
    using assms(1) by (auto simp: run_session_def split: outcome.splits)
  obtain nm where i: "session_inv_at sid ?prof nm 0 s0" using session_begin_inv[OF b assms(2)] by blast
  obtain o1 s1 where l: "all_segments ?prof (iota (rc_segments rc)) s0 = (o1, s1)" by force
  have h: "head_of s1 = head_of s0" using keeps_segments(2) l unfolding keeps_head_def by (metis snd_conv)
  have op: "is_open (ss_collector s1)" using session_begin_head[OF b] h by (auto simp: head_of_def Let_def)
  have st: "stopped_at sid ?prof nm (max 0 (rc_segments rc)) s1"
    using wp_Ret[OF session_loop[OF i]] wp_other[OF session_loop[OF i]] l by (cases o1) (auto intro: inv_stopped)
  note run = assms(1)[unfolded run_session_def b outcome.case prod.case Let_def then_do_def finally_close_def l]
  have "after_loop (recorded_events rc ?rep s0) sid s1 s"
  proof (cases o1)
    case (Ret y)
    obtain o2 s2 where e: "record_events (rebuffer_events ?rep) (close_client s1) = (o2, s2)" by force
    have r: "after_loop (recorded_events rc ?rep s0) sid s1 s2"
      using record_events_loop[OF st op e] l Ret by (simp add: recorded_events_def)
    show ?thesis
    proof (cases o2)
      case (Ret z)
      then have "summarize rc ?rep sid t0 s2 = (Exc e, s)" using run \<open>o1 = Ret y\<close> e by (simp add: case_prod_beta prod_eq_iff)
      from summarize_fails[OF this] r show ?thesis by simp
    qed (use run Ret e r in simp_all)
  qed (use run close_client_loop[OF st] l in \<open>auto simp: recorded_events_def\<close>)
  with b h st show ?thesis by blast
qed

text \<open>The dictionary of the rows by session is the rows of each session, in order.\<close>

lemma map_of_add_row: "map_of (add_row k r g) = (map_of g)(k \<mapsto> (case map_of g k of None \<Rightarrow> [] | Some rs \<Rightarrow> rs) @ [r])"
  by (induction k r g rule: add_row.induct) auto

lemma by_session_append: "by_session (rows @ [r]) = add_row (fst (snd r)) (snd (snd r)) (by_session rows)"
  by (simp add: by_session_def)

lemma map_of_by_session:
  "map_of (by_session rows) k =
     (let rs = map (\<lambda>r. snd (snd r)) (filter (\<lambda>r. fst (snd r) = k) rows) in if rs = [] then None else Some rs)"
proof (induction rows rule: rev_induct)
  case Nil
  then show ?case by (simp add: by_session_def)
next
  case (snoc r rows)
  then show ?case
    by (cases "k = fst (snd r)") (auto simp: by_session_append map_of_add_row Let_def split: if_splits)
qed

lemma session_figures_eq:
  "session_figures ss segs = concat (map (\<lambda>(s, q).
     let rs = map (\<lambda>r. snd (snd r)) (filter (\<lambda>r. fst (snd r) = s_id s) segs)
     in if rs = [] then [] else [(s, plot_session rs)]) ss)"
  unfolding session_figures_def Let_def map_of_by_session
  by (intro arg_cong[of _ _ concat] map_cong refl) (auto split: prod.split)

section \<open>From the sessions to the table\<close>

text \<open>A summary as a row of the table.\<close>

definition summary_row :: "session_summary \<Rightarrow> analysis_row" where
  "summary_row sm =
     \<lparr>t_id = sm_session sm, t_abr = sm_abr sm, t_profile = sm_profile sm, t_kbps = fl (sm_avg_bitrate sm / 1000),
      t_quality = sm_avg_quality sm, t_rebuffer = sm_rebuffer sm, t_switches = sm_switches sm, t_qoe = sm_qoe sm\<rparr>"

definition bar_of :: "analysis_row \<Rightarrow> (int \<times> pystr \<times> pystr) \<times> real" where
  "bar_of r = ((t_id r, t_abr r, t_profile r), t_qoe r)"

text \<open>The session of an entry of the list, as its summary describes it.\<close>

definition session_of_entry :: "(pystr \<times> bool \<Rightarrow> run_config) \<Rightarrow> pystr \<times> bool \<Rightarrow> session_summary \<Rightarrow> bool" where
  "session_of_entry cf x sm \<longleftrightarrow> sm_profile sm = profile_name (cf x)
     \<and> (\<exists>a. make_abr (rc_abr (cf x)) (rc_hysteresis (cf x)) (cfg_of (cf x)) = Inr a \<and> sm_abr sm = abr_name a)"

lemma summary_row_of: "s_id x = sm_session sm \<Longrightarrow> s_abr x = sm_abr sm \<Longrightarrow> s_profile x = sm_profile sm \<Longrightarrow>
    analysis_row_of (x, Some (result_row sm)) = summary_row sm"
  by (simp add: analysis_row_of_def summary_row_def result_row_def or_zero_def)

lemma bars_of_rows: "plot_qoe ss = map bar_of (map analysis_row_of ss)"
  by (auto simp: plot_qoe_def bar_of_def analysis_row_of_def)

lemma compare_adds:
  "compare cf xs envs f = (Ret sms, f') \<Longrightarrow> length xs \<le> length envs \<Longrightarrow>
   list_all (\<lambda>env. \<forall>n. level_ok (level_readings env n)) envs \<Longrightarrow> db_ok (db (collector_init f)) \<Longrightarrow>
   map analysis_row_of (load_sessions (db (collector_init f')))
     = map analysis_row_of (load_sessions (db (collector_init f))) @ map summary_row sms
   \<and> map sm_session sms = map (\<lambda>i. session_seq (db (collector_init f)) + 1 + int i) [0..<length sms]
   \<and> list_all2 (session_of_entry cf) xs sms \<and> (xs = [] \<or> (\<exists>d. f' = Some d))"
proof (induction cf xs envs f arbitrary: sms f' rule: compare.induct)
  case (1 cf a xs env envs f)
  let ?env = "env\<lparr>db_file := f\<rparr>" and ?d0 = "db (collector_init f)"
  from "1.prems"(1) obtain sm s sms' where r: "run_session (cf a) ?env = (Ret sm, Some s)" "sms = sm # sms'"
    and c: "compare cf xs envs (Some (db (ss_collector s))) = (Ret sms', f')"
    by (auto split: prod.splits outcome.splits option.splits)
  have "surroundings_ok ?env" using "1.prems"(3,4) by (simp add: surroundings_ok_def)
  from run_session_adds[OF r(1) this] obtain x ab where x:
    "load_sessions (db (ss_collector s)) = load_sessions ?d0 @ [(x, Some (result_row sm))]" "db_ok (db (ss_collector s))"
    "session_seq (db (ss_collector s)) = session_seq ?d0 + 1" "sm_session sm = session_seq ?d0 + 1" "s_id x = sm_session sm"
    "s_abr x = sm_abr sm" "s_profile x = sm_profile sm" "sm_profile sm = profile_name (cf a)"
    "make_abr (rc_abr (cf a)) (rc_hysteresis (cf a)) (cfg_of (cf a)) = Inr ab" "sm_abr sm = abr_name ab"
    by (auto simp: Let_def)
  have "db (collector_init (Some (db (ss_collector s)))) = db (ss_collector s)" by (simp add: collector_init_def)
  with "1.IH"[OF r(1)[symmetric] refl refl c] "1.prems"(2,3) x(2,3) have IH:
    "map analysis_row_of (load_sessions (db (collector_init f')))
       = map analysis_row_of (load_sessions (db (ss_collector s))) @ map summary_row sms'"
    "map sm_session sms' = map (\<lambda>i. session_seq ?d0 + 1 + 1 + int i) [0..<length sms']"
    "list_all2 (session_of_entry cf) xs sms'" "xs = [] \<or> (\<exists>d. f' = Some d)"
    by auto
  have "\<exists>d. f' = Some d" using IH(4) c by (cases xs) auto
  moreover have "session_of_entry cf a sm" using x(8-10) by (auto simp: session_of_entry_def)
  ultimately show ?case using IH x(1,4) summary_row_of[OF x(5-7)]
    by (simp add: r(2) map_upt_Suc add.assoc del: upt_Suc)
qed (auto simp: le_Suc_eq)

text \<open>C11: What the comparison reports is what the analysis shows: after a comparison that returns, the table
  of \<open>analyze.py\<close> on the same file is the table of the sessions that were there before, unchanged,
  followed by one row for every entry of the list, in its order, with consecutive session numbers, the
  name the factory gave the controller, and exactly the numbers of the summaries that the script
  prints; and the bars of \<open>plots.py\<close> are the QoE values of this table.\<close>

theorem comparison_in_the_table:
  assumes "compare cf as envs file = (Ret sms, file')" and "as \<noteq> []" and "length as \<le> length envs"
    and "list_all (\<lambda>env. \<forall>n. level_ok (level_readings env n)) envs" and "db_ok (db (collector_init file))"
  shows "\<exists>d rows figures. file' = Some d \<and> analyze file' = Inr rows
    \<and> rows = map analysis_row_of (load_sessions (db (collector_init file))) @ map summary_row sms
    \<and> plots d = Inr (figures, map bar_of rows)
    \<and> map sm_session sms = map (\<lambda>i. session_seq (db (collector_init file)) + 1 + int i) [0..<length as]
    \<and> list_all2 (session_of_entry cf) as sms"
proof -
  from compare_adds[OF assms(1,3-5)] assms(2) obtain d where d: "file' = Some d"
    "map analysis_row_of (load_sessions (db (collector_init file')))
       = map analysis_row_of (load_sessions (db (collector_init file))) @ map summary_row sms"
    "map sm_session sms = map (\<lambda>i. session_seq (db (collector_init file)) + 1 + int i) [0..<length sms]"
    "list_all2 (session_of_entry cf) as sms" by blast
  have l: "length sms = length as" using d(4) by (simp add: list_all2_lengthD)
  then have "load_sessions d \<noteq> []" using d(1,2) assms(2) by (auto simp: collector_init_def)
  then show ?thesis using d l
    by (auto simp: analyze_def plots_def plots_load_def bars_of_rows collector_init_def Let_def summary_row_def comp_def simp del: map_map)
qed

lemma comparison_in_the_table_witness:
  "\<exists>sm d. compare (\<lambda>_. one_config) [(u ''rate'', False)] [one_surroundings] None = (Ret [sm], Some d)
    \<and> analyze (Some d) = Inr [summary_row sm] \<and> sm_session sm = 1"
proof -
  obtain sm s where r: "run_session one_config one_surroundings = (Ret sm, Some s)" using one_run by blast
  have e: "one_surroundings\<lparr>db_file := None\<rparr> = one_surroundings" by (simp add: one_surroundings_def)
  have c: "compare (\<lambda>_. one_config) [(u ''rate'', False)] [one_surroundings] None = (Ret [sm], Some (db (ss_collector s)))"
    using r by (simp add: e)
  have "list_all (\<lambda>env. \<forall>n. level_ok (level_readings env n)) [one_surroundings]" "db_ok (db (collector_init None))"
    using one_surroundings_ok by (simp_all add: surroundings_ok_def one_surroundings_def)
  from comparison_in_the_table[OF c _ _ this] have
    "analyze (Some (db (ss_collector s))) = Inr [summary_row sm] \<and> sm_session sm = 1"
    by (auto simp: collector_init_def empty_database_def load_sessions_def left_join_def summary_row_def)
  with c show ?thesis by blast
qed



end
