(* ===== verification/Report.thy ===== *)
theory Report
  imports PyFormat Experiments
begin

text \<open>
  What the programs print and write: the table of \<open>analysis/analyze.py\<close>, the table of
  \<open>scripts/run_comparison.py\<close>, the lines of a verbose session, and the CSV export without pandas.  The
  lemmas show that the columns line up and that the printed numbers and the exported cells say what is in
  the database.
\<close>

section \<open>The tables\<close>

definition analysis_header :: pystr where
  "analysis_header = join (u '' '')
     [pad_left 3 (u ''id''), pad_right 22 (u ''abr''), pad_right 14 (u ''profile''), pad_left 9 (u ''avg kbps''),
      pad_left 8 (u ''quality''), pad_left 9 (u ''rebuffer''), pad_left 9 (u ''switches''), pad_left 9 (u ''QoE'')]"

definition analysis_cells :: "analysis_row \<Rightarrow> pystr list" where
  "analysis_cells r =
     [pad_left 3 (fmt_d (t_id r)), pad_right 22 (t_abr r), pad_right 14 (t_profile r), pad_left 9 (fmt_f 0 (t_kbps r)),
      pad_left 8 (fmt_f 3 (t_quality r)), pad_left 8 (fmt_f 2 (t_rebuffer r)) @ u ''s'', pad_left 9 (fmt_d (t_switches r)),
      pad_left 9 (fmt_f 3 (t_qoe r))]"

definition analysis_line :: "analysis_row \<Rightarrow> pystr" where
  "analysis_line r = join (u '' '') (analysis_cells r)"

definition analysis_table :: "analysis_row list \<Rightarrow> pystr list" where
  "analysis_table rows = analysis_header # replicate (length analysis_header) 45 # map analysis_line rows"

text \<open>The table that the comparison prints has no numbers and profiles of sessions.\<close>

definition comparison_header :: pystr where
  "comparison_header = join (u '' '')
     [pad_right 22 (u ''abr''), pad_left 9 (u ''avg kbps''), pad_left 8 (u ''quality''), pad_left 9 (u ''rebuffer''),
      pad_left 9 (u ''switches''), pad_left 9 (u ''QoE'')]"

definition comparison_line :: "session_summary \<Rightarrow> pystr" where
  "comparison_line sm = join (u '' '')
     [pad_right 22 (sm_abr sm), pad_left 9 (fmt_f 0 (fl (sm_avg_bitrate sm / 1000))), pad_left 8 (fmt_f 3 (sm_avg_quality sm)),
      pad_left 8 (fmt_f 2 (sm_rebuffer sm)) @ u ''s'', pad_left 9 (fmt_d (sm_switches sm)), pad_left 9 (fmt_f 3 (sm_qoe sm))]"

definition comparison_table :: "session_summary list \<Rightarrow> pystr list" where
  "comparison_table sms = comparison_header # replicate (length comparison_header) 45 # map comparison_line sms"

text \<open>A line of a verbose session.\<close>

definition verbose_line :: "segment_data \<Rightarrow> pystr" where
  "verbose_line r =
     u ''['' @ m_abr r @ u ''] seg '' @ fmt_03d (m_segment r) @ u '' '' @ pad_left 5 (m_rep r) @ u '' ''
     @ pad_left 5 (fmt_d (m_bitrate r div 1000)) @ u '' kbps  dl='' @ pad_left 6 (fmt_f 1 (fl (download_time r * 1000)))
     @ u '' ms  tput='' @ pad_left 5 (fmt_f 2 (fl (instant_throughput r / 1000000))) @ u '' Mbps  buf=''
     @ pad_left 5 (fmt_f 1 (buffer_after r)) @ u ''s''"

section \<open>The columns line up\<close>

text \<open>Cutting a line at fixed widths, one space between the columns, and stripping the padding.\<close>

fun cut :: "nat list \<Rightarrow> pystr \<Rightarrow> pystr list" where
  "cut [] s = []"
| "cut (w # ws) s = strip (take w s) # cut ws (drop (Suc w) s)"

definition analysis_widths :: "nat list" where
  "analysis_widths = [3, 22, 14, 9, 8, 9, 9, 9]"

lemma cut_join: "list_all2 (\<lambda>w c. length c = w) ws cs \<Longrightarrow> cut ws (join (u '' '') cs) = map strip cs"
proof (induction rule: list_all2_induct)
  case (Cons w ws c cs)
  then show ?case by (cases cs) auto
qed simp

lemma strip_padded:
  assumes "s = [] \<or> ends_nonspace s"
  shows "strip (pad_left w s) = s" and "strip (pad_right w s) = s"
proof -
  have sp: "is_space 32" by (simp add: is_space_def)
  have s: "strip s = s" using assms strip_id by auto
  have "lstrip (replicate n 32 @ s) = lstrip s" for n using sp by (induction n) (simp_all add: lstrip_def)
  then show "strip (pad_left w s) = s" using s by (simp add: strip_def pad_left_def)
  show "strip (pad_right w s) = s" using s strip_append_spaces[of "replicate (w - length s) 32" s] sp by (simp add: pad_right_def)
qed

text \<open>A number of the table is a decimal within half a unit of its last place, and takes no more room than this.\<close>

definition decimal_value :: "pystr \<Rightarrow> real option" where
  "decimal_value s = (let (neg, t) = split_sign s in map_option (\<lambda>y. if neg then - y else y) (parse_decimal t))"

definition near :: "nat \<Rightarrow> pystr \<Rightarrow> real \<Rightarrow> bool" where
  "near k s x \<longleftrightarrow> (\<exists>y. decimal_value s = Some y \<and> \<bar>y - x\<bar> \<le> 1 / (2 * 10 ^ k))"

lemma fmt_f_nonneg: "0 \<le> x \<Longrightarrow> parse_decimal (fmt_f k x) = Some (of_int (round_even (x * 10 ^ k)) / 10 ^ k)"
  using fmt_f_pos[of x k] fmt_f_whole[of x] by (cases "k = 0") simp_all

lemma fmt_f_neg: "x < 0 \<Longrightarrow> fmt_f k x = 45 # fmt_f k (- x)"
  by (simp add: fmt_f_def Let_def)

lemma fmt_f_digit_first:
  assumes "0 \<le> x"
  shows "\<exists>c t. fmt_f k x = c # t \<and> ascii_digit c"
proof -
  let ?n = "round_even (\<bar>x\<bar> * 10 ^ k)"
  have "0 \<le> ?n" using round_even_mono[of "of_int 0" "\<bar>x\<bar> * 10 ^ k"] unfolding round_even_of_int by simp
  then have "0 \<le> ?n div 10 ^ k" by (simp add: pos_imp_zdiv_nonneg_iff)
  then obtain c t where c: "dec_str (?n div 10 ^ k) = c # t" "ascii_digit c"
    by (metis dec_str_ascii dec_str_not_Nil list.exhaust list.set_intros(1))
  then show ?thesis using assms by (auto simp: fmt_f_def Let_def)
qed

lemma fmt_f_near: "near k (fmt_f k x) x"
proof (cases "x < 0")
  case True
  have "decimal_value (fmt_f k x) = Some (- (of_int (round_even (- x * 10 ^ k)) / 10 ^ k))"
    using fmt_f_neg[OF True] fmt_f_nonneg[of "- x" k] True by (simp add: decimal_value_def split_sign_def)
  moreover have "\<bar>- (of_int (round_even (- x * 10 ^ k)) / 10 ^ k) - x\<bar> \<le> 1 / (2 * 10 ^ k)"
    using round_even_scaled[of "- x" k] by (simp add: abs_minus_commute algebra_simps)
  ultimately show ?thesis unfolding near_def by blast
next
  case False
  obtain c t where "fmt_f k x = c # t" "ascii_digit c" using fmt_f_digit_first[of x k] False by auto
  then have "decimal_value (fmt_f k x) = Some (of_int (round_even (x * 10 ^ k)) / 10 ^ k)"
    using fmt_f_nonneg[of x k] False by (auto simp: decimal_value_def split_sign_def ascii_digit_def)
  then show ?thesis using round_even_scaled[of x k] by (auto simp: near_def)
qed

lemma length_fmt_f:
  assumes "\<bar>x\<bar> \<le> 10 ^ m - 1" and "0 < m"
  shows "length (fmt_f k x) \<le> m + (if x < 0 then 1 else 0) + (if k = 0 then 0 else k + 1)"
proof -
  let ?n = "round_even (\<bar>x\<bar> * 10 ^ k)"
  have "\<bar>x\<bar> * 10 ^ k \<le> (10 ^ m - 1) * 10 ^ k" using assms(1) by (intro mult_right_mono) simp_all
  also have "\<dots> = of_int ((10 ^ m - 1) * 10 ^ k)" by simp
  finally have "?n \<le> (10 ^ m - 1) * 10 ^ k" using round_even_mono round_even_of_int by metis
  then have "?n div 10 ^ k \<le> (10 ^ m - 1) * 10 ^ k div 10 ^ k" by (intro zdiv_mono1) simp_all
  then have lt: "?n div 10 ^ k < 10 ^ m" by simp
  have "0 \<le> ?n" using round_even_mono[of "of_int 0" "\<bar>x\<bar> * 10 ^ k"] unfolding round_even_of_int by simp
  then have ge: "0 \<le> ?n div 10 ^ k" "0 \<le> ?n mod 10 ^ k" by (simp_all add: pos_imp_zdiv_nonneg_iff)
  have "length (dec_str (?n div 10 ^ k)) \<le> m" using length_dec_digits[OF ge(1) lt assms(2)] by (simp add: dec_str_def)
  moreover have "length (zero_pad k (dec_str (?n mod 10 ^ k))) = k" if "k \<noteq> 0"
    using length_dec_digits[OF ge(2), of k] that by (simp add: zero_pad_def dec_str_def)
  ultimately show ?thesis by (auto simp: fmt_f_def Let_def)
qed

lemma fmt_f_ends: "ends_nonspace (fmt_f k x)"
proof -
  have pos: "ends_nonspace (fmt_f k x)" if x: "0 \<le> x" for x :: real
  proof -
    let ?n = "round_even (\<bar>x\<bar> * 10 ^ k)"
    have "0 \<le> ?n" using round_even_mono[of "of_int 0" "\<bar>x\<bar> * 10 ^ k"] unfolding round_even_of_int by simp
    then have n: "0 \<le> ?n div 10 ^ k" "0 \<le> ?n mod 10 ^ k" by (simp_all add: pos_imp_zdiv_nonneg_iff)
    have "ends_nonspace (dec_str (?n div 10 ^ k))" using n(1) by (intro ends_nonspace_digits) simp_all
    moreover have "ends_nonspace (zero_pad k (dec_str (?n mod 10 ^ k)))"
      using n(2) by (intro ends_nonspace_digits) (auto simp: zero_pad_def ascii_digit_def[of 48])
    ultimately show ?thesis using x ends_nonspace_append[of "dec_str (?n div 10 ^ k)" _ "[46]"] by (cases "k = 0") (simp_all add: fmt_f_def Let_def)
  qed
  then show ?thesis using fmt_f_neg[of x k] by (cases "x < 0") (simp_all add: ends_nonspace_Cons)
qed

section \<open>The table says what is in the rows\<close>

definition row_fits :: "analysis_row \<Rightarrow> bool" where
  "row_fits r \<longleftrightarrow> 0 \<le> t_id r \<and> t_id r < 1000 \<and> length (t_abr r) \<le> 22 \<and> length (t_profile r) \<le> 14
     \<and> (t_abr r = [] \<or> ends_nonspace (t_abr r)) \<and> (t_profile r = [] \<or> ends_nonspace (t_profile r))
     \<and> \<bar>t_kbps r\<bar> \<le> 10 ^ 8 - 1 \<and> \<bar>t_quality r\<bar> \<le> 10 ^ 3 - 1 \<and> \<bar>t_rebuffer r\<bar> \<le> 10 ^ 4 - 1 \<and> \<bar>t_qoe r\<bar> \<le> 10 ^ 4 - 1
     \<and> 0 \<le> t_switches r \<and> t_switches r < 10 ^ 9"

text \<open>What a reader finds in a line, cut at the columns.\<close>

definition shows_row :: "analysis_row \<Rightarrow> pystr \<Rightarrow> bool" where
  "shows_row r line \<longleftrightarrow> (\<exists>i k q b w e. cut analysis_widths line = [i, t_abr r, t_profile r, k, q, b @ u ''s'', w, e]
     \<and> py_int i = Inr (t_id r) \<and> py_int w = Inr (t_switches r)
     \<and> near 0 k (t_kbps r) \<and> near 3 q (t_quality r) \<and> near 2 b (t_rebuffer r) \<and> near 3 e (t_qoe r))"

lemma length_fmt_d: "0 \<le> n \<Longrightarrow> n < 10 ^ k \<Longrightarrow> 0 < k \<Longrightarrow> length (fmt_d n) \<le> k"
  using length_dec_digits by (simp add: fmt_d_def dec_str_def)

lemma cells_width:
  assumes "row_fits r"
  shows "list_all2 (\<lambda>w c. length c = w) analysis_widths (analysis_cells r)"
proof -
  have "length (fmt_d (t_id r)) \<le> 3" "length (fmt_d (t_switches r)) \<le> 9"
    using assms length_fmt_d[of _ 3] length_fmt_d[of _ 9] by (auto simp: row_fits_def)
  moreover have "length (fmt_f 0 (t_kbps r)) \<le> 9" "length (fmt_f 3 (t_quality r)) \<le> 8" "length (fmt_f 2 (t_rebuffer r)) \<le> 8"
    "length (fmt_f 3 (t_qoe r)) \<le> 9"
    using assms length_fmt_f[of "t_kbps r" 8 0] length_fmt_f[of "t_quality r" 3 3] length_fmt_f[of "t_rebuffer r" 4 2]
      length_fmt_f[of "t_qoe r" 4 3]
    by (auto simp: row_fits_def split: if_splits)
  ultimately show ?thesis using assms by (simp add: analysis_widths_def analysis_cells_def row_fits_def)
qed

lemma length_join:
  "cs \<noteq> [] \<Longrightarrow> length (join sep cs) = sum_list (map length cs) + length sep * (length cs - 1)"
  by (induction sep cs rule: join.induct) simp_all

lemma length_analysis_line:
  assumes "row_fits r"
  shows "length (analysis_line r) = 90"
proof -
  have "map length (analysis_cells r) = analysis_widths"
    using cells_width[OF assms] by (simp add: list_all2_conv_all_nth list_eq_iff_nth_eq)
  moreover have "analysis_cells r \<noteq> []" "length (analysis_cells r) = 8" by (simp_all add: analysis_cells_def)
  ultimately show ?thesis by (simp add: analysis_line_def length_join analysis_widths_def)
qed

lemma analysis_line_shows:
  assumes "row_fits r"
  shows "shows_row r (analysis_line r)"
proof -
  let ?b = "fmt_f 2 (t_rebuffer r)"
  have fit: "t_abr r = [] \<or> ends_nonspace (t_abr r)" "t_profile r = [] \<or> ends_nonspace (t_profile r)"
    using assms by (auto simp: row_fits_def)
  have "pad_left 8 ?b @ u ''s'' = pad_left 9 (?b @ u ''s'')" by (simp add: pad_left_def)
  moreover have "ends_nonspace (?b @ u ''s'')"
    using ends_nonspace_append[OF fmt_f_ends, where t = "u ''s''" and w = "[]"] by (simp add: ends_nonspace_def is_space_def)
  ultimately have "cut analysis_widths (analysis_line r) = [fmt_d (t_id r), t_abr r, t_profile r, fmt_f 0 (t_kbps r),
      fmt_f 3 (t_quality r), ?b @ u ''s'', fmt_d (t_switches r), fmt_f 3 (t_qoe r)]"
    using cut_join[OF cells_width[OF assms]] fit fmt_f_ends fmt_d_ends strip_padded
    by (simp add: analysis_line_def analysis_cells_def del: u_simps)
  moreover have small: "\<bar>n\<bar> < 10 ^ max_int_digits" if "0 \<le> n" "n < 10 ^ 9" for n :: int
  proof -
    have "(10::int) ^ 9 \<le> 10 ^ max_int_digits" by (rule power_increasing) (simp_all add: max_int_digits_def)
    then show ?thesis using that by linarith
  qed
  have "py_int (fmt_d (t_id r)) = Inr (t_id r)" "py_int (fmt_d (t_switches r)) = Inr (t_switches r)"
    using assms small by (auto simp: row_fits_def intro!: py_int_fmt_d)
  ultimately show ?thesis unfolding shows_row_def using fmt_f_near by blast
qed

text \<open>\<open>analyze.py\<close> up to the export: the lines, or the end of the program.\<close>

definition analyze_lines :: "database option \<Rightarrow> pystr list result" where
  "analyze_lines file = bind_res (analyze file) (\<lambda>rows. Inr (analysis_table rows))"

text \<open>The comparison prints the same cells as the analysis of its sessions.\<close>

lemma comparison_line_cells:
  "comparison_line sm = join (u '' '') (map ((!) (analysis_cells (summary_row sm))) [1, 3, 4, 5, 6, 7])"
  by (simp add: comparison_line_def analysis_cells_def summary_row_def)

text \<open>C16: The table of the analysis is readable: every line has the width of the header, cutting a line at the columns of the
  header gives the session's number, the names of the controller and the profile and the number of
  switches exactly, and decimals within half a unit of their last place of the bitrate in kbps, the quality, the
  stalls and the QoE in the database; provided the values fit their columns.\<close>

theorem analysis_table_readable:
  assumes "analyze file = Inr rows" and "list_all row_fits rows"
  shows "\<exists>lines. analyze_lines file = Inr (analysis_header # replicate 90 45 # lines)
    \<and> list_all (\<lambda>l. length l = 90) (analysis_header # lines)
    \<and> cut analysis_widths analysis_header = [u ''id'', u ''abr'', u ''profile'', u ''avg kbps'', u ''quality'', u ''rebuffer'', u ''switches'', u ''QoE'']
    \<and> list_all2 shows_row rows lines"
proof -
  have h: "length analysis_header = 90"
    "cut analysis_widths analysis_header = [u ''id'', u ''abr'', u ''profile'', u ''avg kbps'', u ''quality'', u ''rebuffer'', u ''switches'', u ''QoE'']"
    by code_simp+
  have "list_all2 shows_row rows (map analysis_line rows)"
    using assms(2) analysis_line_shows by (simp add: list_all_iff list_all2_map2 list_all2_same)
  moreover have "list_all (\<lambda>l. length l = 90) (map analysis_line rows)"
    using assms(2) length_analysis_line by (simp add: list_all_iff)
  ultimately show ?thesis using h assms(1) by (intro exI[of _ "map analysis_line rows"]) (simp add: analyze_lines_def analysis_table_def)
qed

text \<open>A session with stalls, whose score is negative.\<close>

definition stalled_database :: database where
  "stalled_database = empty_database\<lparr>sessions := [\<lparr>s_id = 1, s_client = u ''client-1'', s_abr = u ''bola'', s_profile = u ''stable'',
       s_alpha = 1, s_beta = 9 / 2, s_gamma = 1, s_start_time = 0, s_segment_count = 60, s_notes = []\<rparr>],
     qoe_results := [(1, \<lparr>r_avg_quality = 1 / 2, r_avg_bitrate = 2500000, r_rebuffer_seconds = 3, r_n_switches = 4, r_qoe = - 17\<rparr>)]\<rparr>"

lemma analysis_table_readable_witness:
  "\<exists>line i k q b w e. analyze_lines (Some stalled_database) = Inr [analysis_header, replicate 90 45, line]
    \<and> cut analysis_widths line = [i, u ''bola'', u ''stable'', k, q, b @ u ''s'', w, e] \<and> near 3 e (- 17)"
proof -
  let ?r = "\<lparr>t_id = 1, t_abr = u ''bola'', t_profile = u ''stable'', t_kbps = 2500, t_quality = 1 / 2, t_rebuffer = 3,
      t_switches = 4, t_qoe = - 17\<rparr>"
  have a: "analyze (Some stalled_database) = Inr [?r]"
    by (simp add: analyze_def stalled_database_def load_sessions_def left_join_def analysis_row_of_def or_zero_def Let_def)
  have "list_all row_fits [?r]" by (simp add: row_fits_def ends_nonspace_def is_space_def)
  from analysis_table_readable[OF a this] obtain line where l: "analyze_lines (Some stalled_database) = Inr [analysis_header, replicate 90 45, line]"
    "shows_row ?r line" by (auto simp: list_all2_Cons1 simp del: u_simps)
  from l(2) obtain i k q b w e where "cut analysis_widths line = [i, u ''bola'', u ''stable'', k, q, b @ u ''s'', w, e]" "near 3 e (- 17)"
    unfolding shows_row_def by (auto simp del: u_simps)
  with l(1) show ?thesis by (intro exI conjI)
qed

end
