(* ===== verification/CsvExport.thy ===== *)
theory CsvExport
  imports PyFormat Experiments
begin

text \<open>
  The CSV export of \<open>analysis/analyze.py\<close> where pandas is not installed: \<open>csv.DictWriter\<close> in its default
  dialect over the rows of \<open>segment_metrics\<close>.  The lemmas read the text back, cell by cell and value by value.
\<close>

section \<open>Writing\<close>

text \<open>A cell is quoted when it has a comma, a quote or an end of line in it; quotes are doubled.\<close>

definition csv_special :: "int \<Rightarrow> bool" where
  "csv_special c \<longleftrightarrow> c \<in> {44, 34, 13, 10}"

definition double_quotes :: "pystr \<Rightarrow> pystr" where
  "double_quotes s = concat (map (\<lambda>c. if c = 34 then [34, 34] else [c]) s)"

definition csv_cell :: "pystr \<Rightarrow> pystr" where
  "csv_cell s = (if list_ex csv_special s then 34 # double_quotes s @ [34] else s)"

definition csv_line :: "pystr list \<Rightarrow> pystr" where
  "csv_line cells = join [44] (map csv_cell cells) @ [13, 10]"

definition csv_text :: "pystr list list \<Rightarrow> pystr" where
  "csv_text rows = concat (map csv_line rows)"

text \<open>The columns of the table, and a row as the values that \<open>sqlite3\<close> returns, in the text of \<open>csv\<close>.\<close>

definition segment_columns :: "pystr list" where
  "segment_columns =
     [u ''id'', u ''session_id'', u ''timestamp'', u ''segment_id'', u ''representation'', u ''bitrate'', u ''size'',
      u ''download_time'', u ''instant_throughput'', u ''ewma_throughput'', u ''buffer_before'', u ''buffer_after'',
      u ''quality_switch'', u ''rebuffer_event'', u ''rebuffer_duration'', u ''network_profile'', u ''abr'']"

definition flag_cell :: "bool \<Rightarrow> pystr" where
  "flag_cell b = fmt_d (if b then 1 else 0)"

definition segment_cells :: "int \<times> int \<times> segment_data \<Rightarrow> pystr list" where
  "segment_cells = (\<lambda>(i, sid, r).
     [fmt_d i, fmt_d sid, repr_float (timestamp r), fmt_d (m_segment r), m_rep r, fmt_d (m_bitrate r), fmt_d (m_size r),
      repr_float (download_time r), repr_float (instant_throughput r), repr_float (ewma_throughput r),
      repr_float (buffer_before r), repr_float (buffer_after r), flag_cell (quality_switch r), flag_cell (rebuffer_event r),
      repr_float (rebuffer_duration r), network_profile r, m_abr r])"

text \<open>
  \<open>df.to_csv\<close> is pandas' own when it is there (a parameter, by the rows); a list of rows has no such method, and
  its first row names the columns.
\<close>

definition export_csv :: "((int \<times> int \<times> segment_data) list \<Rightarrow> pystr) option \<Rightarrow> database \<Rightarrow> pystr result" where
  "export_csv pandas d =
     (let df = segment_frame d in
      case pandas of
        Some to_csv \<Rightarrow> Inr (to_csv df)
      | None \<Rightarrow> bind_res (py_nth df 0) (\<lambda>_. Inr (csv_text (segment_columns # map segment_cells df))))"

section \<open>Reading\<close>

text \<open>A reader of this dialect: where it is in a line, the cell and the cells so far.\<close>

datatype csv_place = CellStart | InCell | InQuotes | AfterQuote

fun csv_read :: "csv_place \<Rightarrow> pystr \<Rightarrow> pystr list \<Rightarrow> pystr \<Rightarrow> pystr list list" where
  "csv_read p cell row [] = (if p = CellStart \<and> row = [] then [] else [row @ [cell]])"
| "csv_read p cell row (c # cs) =
     (if p = InQuotes then
        (if c = 34 then csv_read AfterQuote cell row cs else csv_read InQuotes (cell @ [c]) row cs)
      else if c = 44 then csv_read CellStart [] (row @ [cell]) cs
      else if c = 10 then (row @ [cell]) # csv_read CellStart [] [] cs
      else if c = 13 then csv_read p cell row cs
      else if c = 34 \<and> p = CellStart then csv_read InQuotes cell row cs
      else if c = 34 \<and> p = AfterQuote then csv_read InQuotes (cell @ [34]) row cs
      else csv_read InCell (cell @ [c]) row cs)"

definition csv_rows :: "pystr \<Rightarrow> pystr list list" where
  "csv_rows s = csv_read CellStart [] [] s"

lemma csv_read_plain:
  "\<not> list_ex csv_special s \<Longrightarrow> p \<in> {CellStart, InCell} \<Longrightarrow>
     csv_read p cell row (s @ t) = (if s = [] then csv_read p cell row t else csv_read InCell (cell @ s) row t)"
proof (induction s arbitrary: p cell)
  case (Cons c s)
  have "csv_read p cell row ((c # s) @ t) = csv_read InCell (cell @ [c]) row (s @ t)"
    using Cons.prems by (auto simp: csv_special_def)
  then show ?case using Cons.IH[of InCell "cell @ [c]"] Cons.prems by simp
qed simp

lemma csv_read_quoted: "csv_read InQuotes cell row (double_quotes s @ 34 # t) = csv_read AfterQuote (cell @ s) row t"
  by (induction s arbitrary: cell) (auto simp: double_quotes_def)

text \<open>A cell, up to what ends it.\<close>

lemma csv_read_cell:
  assumes "c = 44 \<or> c = 13"
  shows "\<exists>p. p \<noteq> InQuotes \<and> csv_read CellStart [] row (csv_cell s @ c # t) = csv_read p s row (c # t)"
proof (cases "list_ex csv_special s")
  case True
  have "csv_read CellStart [] row (csv_cell s @ c # t) = csv_read InQuotes [] row (double_quotes s @ 34 # c # t)"
    using True by (simp add: csv_cell_def)
  then show ?thesis unfolding csv_read_quoted append_Nil by blast
next
  case False
  then show ?thesis using csv_read_plain[OF False, of CellStart "[]" row "c # t"]
    by (cases "s = []") (auto simp: csv_cell_def simp del: csv_read.simps(2))
qed

lemma csv_read_line:
  "cells \<noteq> [] \<Longrightarrow> csv_read CellStart [] row (csv_line cells @ t) = (row @ cells) # csv_read CellStart [] [] t"
proof (induction cells arbitrary: row rule: list_nonempty_induct)
  case (single s)
  obtain p where "p \<noteq> InQuotes" "csv_read CellStart [] row (csv_cell s @ 13 # 10 # t) = csv_read p s row (13 # 10 # t)"
    using csv_read_cell by blast
  then show ?case by (simp add: csv_line_def)
next
  case (cons s cells)
  let ?t = "csv_line cells @ t"
  obtain p where p: "p \<noteq> InQuotes" "csv_read CellStart [] row (csv_cell s @ 44 # ?t) = csv_read p s row (44 # ?t)"
    using csv_read_cell by blast
  have "csv_line (s # cells) @ t = csv_cell s @ 44 # ?t" using cons.hyps by (cases cells) (simp_all add: csv_line_def)
  then show ?case using p cons.IH by simp
qed

lemma csv_rows_text: "list_all (\<lambda>r. r \<noteq> []) rows \<Longrightarrow> csv_rows (csv_text rows) = rows"
  by (induction rows) (simp_all add: csv_rows_def csv_text_def csv_read_line)

section \<open>The exported values\<close>

text \<open>What SQLite gives back: floats, and integers of 64 bits.\<close>

definition stored_float :: "real \<Rightarrow> bool" where
  "stored_float x \<longleftrightarrow> is_float x \<and> \<bar>x\<bar> < 2 ^ 1024"

definition stored_row :: "int \<times> int \<times> segment_data \<Rightarrow> bool" where
  "stored_row = (\<lambda>(i, sid, r). list_all sql_int [i, sid, m_segment r, m_bitrate r, m_size r]
     \<and> list_all stored_float [timestamp r, download_time r, instant_throughput r, ewma_throughput r, buffer_before r,
          buffer_after r, rebuffer_duration r])"

text \<open>The cells that a reader converts with \<open>int\<close> and \<open>float\<close> to the values of a row.\<close>

definition int_cell :: "pystr \<Rightarrow> int \<Rightarrow> bool" where
  "int_cell s n \<longleftrightarrow> py_int s = Inr n"

definition float_cell :: "pystr \<Rightarrow> real \<Rightarrow> bool" where
  "float_cell s x \<longleftrightarrow> py_float s = Inr (Finite x)"

definition cells_say :: "pystr list \<Rightarrow> int \<times> int \<times> segment_data \<Rightarrow> bool" where
  "cells_say cs = (\<lambda>(i, sid, r). length cs = 17 \<and> int_cell (cs ! 0) i \<and> int_cell (cs ! 1) sid \<and> float_cell (cs ! 2) (timestamp r)
     \<and> int_cell (cs ! 3) (m_segment r) \<and> cs ! 4 = m_rep r \<and> int_cell (cs ! 5) (m_bitrate r) \<and> int_cell (cs ! 6) (m_size r)
     \<and> float_cell (cs ! 7) (download_time r) \<and> float_cell (cs ! 8) (instant_throughput r)
     \<and> float_cell (cs ! 9) (ewma_throughput r) \<and> float_cell (cs ! 10) (buffer_before r)
     \<and> float_cell (cs ! 11) (buffer_after r) \<and> int_cell (cs ! 12) (of_bool (quality_switch r))
     \<and> int_cell (cs ! 13) (of_bool (rebuffer_event r)) \<and> float_cell (cs ! 14) (rebuffer_duration r)
     \<and> cs ! 15 = network_profile r \<and> cs ! 16 = m_abr r)"

lemma int_cell_fmt: "sql_int n \<Longrightarrow> int_cell (fmt_d n) n"
proof -
  assume n: "sql_int n"
  have "\<bar>n\<bar> < 10 ^ 19" using n by (simp add: sql_int_def abs_less_iff)
  also have "(10::int) ^ 19 \<le> 10 ^ max_int_digits" by (rule power_increasing) (simp_all add: max_int_digits_def)
  finally have "\<bar>n\<bar> < 10 ^ max_int_digits" .
  then show ?thesis unfolding int_cell_def by (rule py_int_fmt_d)
qed

lemma float_cell_repr: "stored_float x \<Longrightarrow> float_cell (repr_float x) x"
  by (simp add: stored_float_def float_cell_def py_float_repr)

lemma flag_cell_reads: "int_cell (flag_cell b) (of_bool b)"
  unfolding flag_cell_def by (cases b) (simp_all add: int_cell_fmt sql_int_def)

lemma cells_say_row: "stored_row row \<Longrightarrow> cells_say (segment_cells row) row"
  by (cases row) (simp add: stored_row_def cells_say_def segment_cells_def int_cell_fmt float_cell_repr flag_cell_reads)

text \<open>C15: The CSV export reads back: without pandas the file has the column names and then one line for every row of
  \<open>segment_metrics\<close> in the order of the query, and reading the text and converting the cells gives
  every value back exactly, floats, text with commas, quotes or line ends, and flags included; with no row at
  all the export raises IndexError.\<close>

theorem csv_export_reads_back:
  assumes "list_all stored_row (segment_frame d)"
  shows "if segment_frame d = [] then export_csv None d = Inl IndexError
    else \<exists>text cells. export_csv None d = Inr text \<and> csv_rows text = segment_columns # cells \<and> list_all2 cells_say cells (segment_frame d)"
proof (cases "segment_frame d")
  case Nil
  then show ?thesis by (simp add: export_csv_def)
next
  case (Cons r rs)
  let ?rows = "segment_frame d"
  have "list_all (\<lambda>r. r \<noteq> []) (segment_columns # map segment_cells ?rows)"
    by (auto simp: segment_columns_def segment_cells_def list_all_iff)
  then have "csv_rows (csv_text (segment_columns # map segment_cells ?rows)) = segment_columns # map segment_cells ?rows"
    by (rule csv_rows_text)
  moreover have "list_all2 cells_say (map segment_cells ?rows) ?rows"
    using assms by (auto simp: list_all_iff list_all2_map1 list_all2_same cells_say_row)
  moreover have "export_csv None d = Inr (csv_text (segment_columns # map segment_cells ?rows))"
    using Cons by (simp add: export_csv_def py_nth_def Let_def)
  ultimately show ?thesis using Cons by (metis list.distinct(1))
qed

text \<open>One row, with a profile that has to be quoted.\<close>

definition exported_row :: segment_data where
  "exported_row = \<lparr>timestamp = 0, m_segment = 1, m_rep = u ''240p'', m_bitrate = 400000, m_size = 100000, download_time = 0,
     instant_throughput = 0, ewma_throughput = 0, buffer_before = 0, buffer_after = 2, quality_switch = False,
     rebuffer_event = False, rebuffer_duration = 0, network_profile = u ''slow, then \"fast\"'', m_abr = u ''rate_based''\<rparr>"

lemma csv_export_reads_back_witness:
  "\<exists>text cells. export_csv None (empty_database\<lparr>segment_metrics := [(1, 1, exported_row)]\<rparr>) = Inr text
     \<and> csv_rows text = [segment_columns, cells] \<and> cells ! 15 = u ''slow, then \"fast\"''"
proof -
  let ?d = "empty_database\<lparr>segment_metrics := [(1, 1, exported_row)]\<rparr>"
  have f: "segment_frame ?d = [(1, 1, exported_row)]" by (simp add: segment_frame_def)
  have "list_all stored_row (segment_frame ?d)" unfolding f
    by (simp add: stored_row_def exported_row_def sql_int_def stored_float_def)
  from csv_export_reads_back[OF this] show ?thesis
    unfolding f by (auto simp: list_all2_Cons2 cells_say_def exported_row_def)
qed

end
