(* ===== verification/JsonText.thy ===== *)
theory JsonText
  imports PyFormat SegmentStore
begin

text \<open>
  \<open>json.dumps(value, indent=2)\<close>, which the client prints and \<open>scripts/run_comparison.py\<close> writes to a file: the text, and a
  reader of JSON that gets the same value back from it.
\<close>

section \<open>Writing\<close>

text \<open>Strings in ASCII: everything else is escaped by its UTF-16 code units.\<close>

definition hex_digit :: "int \<Rightarrow> int" where
  "hex_digit d = (if d < 10 then 48 + d else 87 + d)"

definition unit_escape :: "int \<Rightarrow> pystr" where
  "unit_escape n = 92 # 117 # map hex_digit [n div 4096, n div 256 mod 16, n div 16 mod 16, n mod 16]"

definition units :: "int \<Rightarrow> int list" where
  "units c = (if c < 65536 then [c] else [55296 + (c - 65536) div 1024, 56320 + (c - 65536) mod 1024])"

text \<open>The escapes of one letter.\<close>

definition short_escapes :: "(int \<times> int) list" where
  "short_escapes = [(34, 34), (92, 92), (8, 98), (12, 102), (10, 110), (13, 114), (9, 116)]"

definition json_char :: "int \<Rightarrow> pystr" where
  "json_char c =
     (case map_of short_escapes c of
        Some e \<Rightarrow> [92, e]
      | None \<Rightarrow> if 32 \<le> c \<and> c \<le> 126 then [c] else concat (map unit_escape (units c)))"

definition json_string :: "pystr \<Rightarrow> pystr" where
  "json_string s = 34 # concat (map json_char s) @ [34]"

fun json_number :: "xfloat \<Rightarrow> pystr" where
  "json_number (Finite x) = repr_float x"
| "json_number PosInf = u ''Infinity''"
| "json_number NegInf = u ''-Infinity''"
| "json_number NotANum = u ''NaN''"

text \<open>A new line at a depth of the indentation, and a list of items one per line.\<close>

definition new_line :: "nat \<Rightarrow> pystr" where
  "new_line d = 10 # replicate (2 * d) 32"

definition item_lines :: "nat \<Rightarrow> pystr list \<Rightarrow> pystr" where
  "item_lines d xs = new_line (Suc d) @ join (44 # new_line (Suc d)) xs @ new_line d"

fun json_dumps :: "nat \<Rightarrow> json \<Rightarrow> pystr" where
  "json_dumps d JNull = u ''null''"
| "json_dumps d (JBool b) = (if b then u ''true'' else u ''false'')"
| "json_dumps d (JInt n) = fmt_d n"
| "json_dumps d (JFloat x) = json_number x"
| "json_dumps d (JStr s) = json_string s"
| "json_dumps d (JList vs) = (if vs = [] then u ''[]'' else 91 # item_lines d (map (json_dumps (Suc d)) vs) @ [93])"
| "json_dumps d (JObj kvs) =
     (if kvs = [] then u ''{}''
      else 123 # item_lines d (map (\<lambda>kv. json_string (fst kv) @ u '': '' @ json_dumps (Suc d) (snd kv)) kvs) @ [125])"

section \<open>Reading\<close>

definition skip :: "pystr \<Rightarrow> pystr" where
  "skip s = dropWhile (\<lambda>c. c \<in> {32, 9, 10, 13}) s"

text \<open>The next character that is not white space, if it is this one.\<close>

definition expect :: "int \<Rightarrow> pystr \<Rightarrow> pystr option" where
  "expect c s = (case skip s of [] \<Rightarrow> None | d # t \<Rightarrow> if d = c then Some t else None)"

definition hex_val :: "int \<Rightarrow> int option" where
  "hex_val c =
     (if 48 \<le> c \<and> c \<le> 57 then Some (c - 48) else if 97 \<le> c \<and> c \<le> 102 then Some (c - 87)
      else if 65 \<le> c \<and> c \<le> 70 then Some (c - 55) else None)"

definition put_first :: "'a \<Rightarrow> ('a list \<times> 'b) option \<Rightarrow> ('a list \<times> 'b) option" where
  "put_first x r = map_option (\<lambda>(xs, t). (x # xs, t)) r"

text \<open>A string after its opening quote, as code units.\<close>

fun read_units :: "pystr \<Rightarrow> (int list \<times> pystr) option" where
  "read_units [] = None"
| "read_units (c # t) =
     (if c = 34 then Some ([], t)
      else if c \<noteq> 92 then put_first c (read_units t)
      else (case t of
              [] \<Rightarrow> None
            | e # r \<Rightarrow>
                if e \<noteq> 117 then
                  (case map_of (map (\<lambda>(a, b). (b, a)) short_escapes) e of
                     None \<Rightarrow> None
                   | Some x \<Rightarrow> put_first x (read_units r))
                else
                  (case r of
                     h1 # h2 # h3 # h4 # q \<Rightarrow>
                       (case (hex_val h1, hex_val h2, hex_val h3, hex_val h4) of
                          (Some a, Some b, Some c, Some d) \<Rightarrow> put_first (a * 4096 + b * 256 + c * 16 + d) (read_units q)
                        | _ \<Rightarrow> None)
                   | _ \<Rightarrow> None)))"

fun pair_units :: "int list \<Rightarrow> pystr" where
  "pair_units (a # b # s) =
     (if 55296 \<le> a \<and> a < 56320 \<and> 56320 \<le> b \<and> b < 57344
      then (65536 + (a - 55296) * 1024 + (b - 56320)) # pair_units s
      else a # pair_units (b # s))"
| "pair_units s = s"

definition read_string :: "pystr \<Rightarrow> (pystr \<times> pystr) option" where
  "read_string s = map_option (\<lambda>(us, t). (pair_units us, t)) (read_units s)"

definition number_char :: "int \<Rightarrow> bool" where
  "number_char c \<longleftrightarrow> num_char c \<or> c = 69"

definition read_number :: "pystr \<Rightarrow> (json \<times> pystr) option" where
  "read_number s =
     (let t = takeWhile number_char s; r = dropWhile number_char s in
      if t \<noteq> [] \<and> set t \<inter> {46, 69, 101} = {}
      then (case py_int t of Inl e \<Rightarrow> None | Inr n \<Rightarrow> Some (JInt n, r))
      else (case py_float t of Inl e \<Rightarrow> None | Inr x \<Rightarrow> Some (JFloat x, r)))"

definition read_word :: "(pystr \<times> json) list \<Rightarrow> pystr \<Rightarrow> (json \<times> pystr) option" where
  "read_word ws s =
     (case find (\<lambda>(w, v). take (length w) s = w) ws of
        Some (w, v) \<Rightarrow> Some (v, drop (length w) s)
      | None \<Rightarrow> read_number s)"

definition json_words :: "(pystr \<times> json) list" where
  "json_words =
     [(u ''null'', JNull), (u ''true'', JBool True), (u ''false'', JBool False), (u ''NaN'', JFloat NotANum),
      (u ''Infinity'', JFloat PosInf), (u ''-Infinity'', JFloat NegInf)]"

text \<open>With a bound on the depth and the number of items, which the size of the value satisfies.\<close>

fun read_json :: "nat \<Rightarrow> pystr \<Rightarrow> (json \<times> pystr) option"
  and read_items :: "nat \<Rightarrow> pystr \<Rightarrow> (json list \<times> pystr) option"
  and read_members :: "nat \<Rightarrow> pystr \<Rightarrow> ((pystr \<times> json) list \<times> pystr) option" where
  "read_json 0 s = None"
| "read_json (Suc n) s =
     (case skip s of
        [] \<Rightarrow> None
      | c # t \<Rightarrow>
          if c = 34 then map_option (\<lambda>(x, r). (JStr x, r)) (read_string t)
          else if c = 91 then
            (case expect 93 t of
               Some r \<Rightarrow> Some (JList [], r)
             | None \<Rightarrow> map_option (\<lambda>(vs, r). (JList vs, r)) (read_items n t))
          else if c = 123 then
            (case expect 125 t of
               Some r \<Rightarrow> Some (JObj [], r)
             | None \<Rightarrow> map_option (\<lambda>(kvs, r). (JObj kvs, r)) (read_members n t))
          else read_word json_words (c # t))"
| "read_items 0 s = None"
| "read_items (Suc n) s =
     (case read_json n s of
        None \<Rightarrow> None
      | Some (v, r) \<Rightarrow>
          (case expect 44 r of
             Some r' \<Rightarrow> put_first v (read_items n r')
           | None \<Rightarrow> map_option (\<lambda>r'. ([v], r')) (expect 93 r)))"
| "read_members 0 s = None"
| "read_members (Suc n) s =
     (case Option.bind (expect 34 s) read_string of
        None \<Rightarrow> None
      | Some (k, t) \<Rightarrow>
          (case Option.bind (expect 58 t) (read_json n) of
             None \<Rightarrow> None
           | Some (v, r) \<Rightarrow>
               (case expect 44 r of
                  Some r' \<Rightarrow> put_first (k, v) (read_members n r')
                | None \<Rightarrow> map_option (\<lambda>r'. ([(k, v)], r')) (expect 125 r))))"

definition json_loads :: "nat \<Rightarrow> pystr \<Rightarrow> json option" where
  "json_loads n s = (case read_json n s of Some (v, r) \<Rightarrow> if skip r = [] then Some v else None | None \<Rightarrow> None)"

section \<open>Strings read back\<close>

definition put_all :: "'a list \<Rightarrow> ('a list \<times> 'b) option \<Rightarrow> ('a list \<times> 'b) option" where
  "put_all xs r = map_option (\<lambda>(ys, t). (xs @ ys, t)) r"

lemma put_all_simps [simp]: "put_all [] r = r" "put_all (x # xs) r = put_first x (put_all xs r)" "put_all xs (Some (ys, t)) = Some (xs @ ys, t)"
  by (cases r; simp add: put_all_def put_first_def split_beta)+

lemma put_all_append: "put_all (xs @ ys) r = put_all xs (put_all ys r)"
  by (induction xs) simp_all

lemma hex_val_digit [simp]: "0 \<le> d \<Longrightarrow> d < 16 \<Longrightarrow> hex_val (hex_digit d) = Some d"
  by (auto simp: hex_val_def hex_digit_def)

lemma hex_parts: "(n::int) div 4096 * 4096 + n div 256 mod 16 * 256 + n div 16 mod 16 * 16 + n mod 16 = n"
proof -
  have "n div 256 = n div 16 div 16" "n div 4096 = n div 256 div 16"
    using zdiv_zmult2_eq[of 16 n 16] zdiv_zmult2_eq[of 16 n 256] by simp_all
  moreover have "n div 16 * 16 + n mod 16 = n" "n div 16 div 16 * 16 + n div 16 mod 16 = n div 16"
    "n div 256 div 16 * 16 + n div 256 mod 16 = n div 256" by (rule div_mult_mod_eq)+
  ultimately show ?thesis by linarith
qed

lemma read_units_hex:
  "hex_val h1 = Some a \<Longrightarrow> hex_val h2 = Some b \<Longrightarrow> hex_val h3 = Some c \<Longrightarrow> hex_val h4 = Some d \<Longrightarrow>
   read_units (92 # 117 # h1 # h2 # h3 # h4 # q) = put_first (a * 4096 + b * 256 + c * 16 + d) (read_units q)"
  by simp

lemma read_unit_escape:
  assumes "0 \<le> n" and "n < 65536"
  shows "read_units (unit_escape n @ t) = put_first n (read_units t)"
proof -
  have "n div 4096 < 16" "0 \<le> n div 4096" using assms by (simp_all add: pos_imp_zdiv_nonneg_iff)
  then have "hex_val (hex_digit (n div 4096)) = Some (n div 4096)" by (rule hex_val_digit[rotated])
  moreover have "hex_val (hex_digit (k mod 16)) = Some (k mod 16)" for k by (rule hex_val_digit) simp_all
  ultimately have "read_units (92 # 117 # hex_digit (n div 4096) # hex_digit (n div 256 mod 16) # hex_digit (n div 16 mod 16)
      # hex_digit (n mod 16) # t) = put_first n (read_units t)"
    by (subst read_units_hex) (assumption | simp only: hex_parts)+
  then show ?thesis by (simp only: unit_escape_def list.map append_Cons append_Nil)
qed

lemma units_range: "scalar c \<Longrightarrow> list_all (\<lambda>n. 0 \<le> n \<and> n < 65536) (units c)"
  by (auto simp: units_def scalar_def)

lemma read_unit_escapes: "list_all (\<lambda>n. 0 \<le> n \<and> n < 65536) us \<Longrightarrow> read_units (concat (map unit_escape us) @ t) = put_all us (read_units t)"
  by (induction us) (simp_all add: read_unit_escape del: read_units.simps)

lemma read_json_char:
  assumes "scalar c"
  shows "read_units (json_char c @ t) = put_all (units c) (read_units t)"
proof (cases "map_of short_escapes c")
  case (Some e)
  then have "c < 65536" by (auto simp: short_escapes_def split: if_splits)
  then show ?thesis using Some by (auto simp: json_char_def units_def short_escapes_def split: if_splits)
next
  case None
  then have "c \<noteq> 34" "c \<noteq> 92" by (auto simp: short_escapes_def)
  then show ?thesis using None read_unit_escapes[OF units_range[OF assms]] by (auto simp: json_char_def units_def)
qed

lemma read_json_chars:
  "list_all scalar s \<Longrightarrow> read_units (concat (map json_char s) @ 34 # t) = Some (concat (map units s), t)"
  by (induction s) (simp_all add: read_json_char)

lemma pair_units_hd: "c < 55296 \<or> 56320 \<le> c \<Longrightarrow> pair_units (c # us) = c # pair_units us"
  by (cases us) auto

lemma pair_units_units: "list_all scalar s \<Longrightarrow> pair_units (concat (map units s)) = s"
proof (induction s)
  case (Cons c s)
  then have c: "scalar c" and IH: "pair_units (concat (map units s)) = s" by simp_all
  show ?case
  proof (cases "c < 65536")
    case True
    then have "c < 55296 \<or> 56320 \<le> c" using c by (auto simp: scalar_def)
    moreover have "units c = [c]" using True by (simp add: units_def)
    ultimately show ?thesis using IH by (simp add: pair_units_hd)
  next
    case False
    then have "0 \<le> (c - 65536) div 1024" "(c - 65536) div 1024 < 1024" using c by (auto simp: scalar_def)
    moreover have "units c = [55296 + (c - 65536) div 1024, 56320 + (c - 65536) mod 1024]" using False by (simp add: units_def)
    moreover have "0 \<le> (c - 65536) mod 1024" "(c - 65536) mod 1024 < 1024" by simp_all
    moreover have "(c - 65536) div 1024 * 1024 + (c - 65536) mod 1024 = c - 65536" by (rule div_mult_mod_eq)
    ultimately show ?thesis using IH by simp
  qed
qed simp

lemma read_json_string: "list_all scalar s \<Longrightarrow> read_string (concat (map json_char s) @ 34 # t) = Some (s, t)"
  by (simp add: read_string_def read_json_chars pair_units_units)

section \<open>Numbers read back\<close>

definition stops :: "pystr \<Rightarrow> bool" where
  "stops t \<longleftrightarrow> t = [] \<or> \<not> number_char (hd t)"

lemma number_split:
  assumes "\<forall>c\<in>set s. number_char c" and "stops t"
  shows "takeWhile number_char (s @ t) = s" and "dropWhile number_char (s @ t) = t"
  using assms by (cases t; simp add: stops_def)+

lemma fmt_d_number: "c \<in> set (fmt_d n) \<Longrightarrow> number_char c \<and> c \<notin> {46, 69, 101}"
  using fmt_d_chars[of c n] by (auto simp: number_char_def num_char_def ascii_digit_def)

lemma read_number_int:
  assumes "\<bar>n\<bar> < 10 ^ max_int_digits" and "stops t"
  shows "read_number (fmt_d n @ t) = Some (JInt n, t)"
proof -
  have "set (fmt_d n) \<inter> {46, 69, 101} = {}" "fmt_d n \<noteq> []" using fmt_d_number fmt_d_ends by (auto simp: ends_nonspace_def)
  then show ?thesis using number_split[OF _ assms(2), of "fmt_d n"] fmt_d_number py_int_fmt_d[OF assms(1)]
    by (simp add: read_number_def Let_def)
qed

lemma place_digits_marked: "digit_str ds \<Longrightarrow> set (place_digits ds p) \<inter> {46, 101} \<noteq> {}"
  by (auto simp: place_digits_def)

lemma repr_float_text:
  assumes "is_float x"
  shows "\<forall>c\<in>set (repr_float x). number_char c" and "set (repr_float x) \<inter> {46, 69, 101} \<noteq> {}"
    and "\<exists>c s. repr_float x = c # s \<and> (ascii_digit c \<or> c = 45 \<and> s \<noteq> [] \<and> ascii_digit (hd s))"
proof -
  have pos: "(\<forall>c\<in>set (repr_pos y). number_char c) \<and> set (repr_pos y) \<inter> {46, 69, 101} \<noteq> {} \<and> repr_pos y \<noteq> [] \<and> ascii_digit (hd (repr_pos y))"
    if y: "is_float y" "0 < y" for y
  proof -
    obtain ds p where "digit_str ds" "repr_pos y = place_digits ds p" using repr_pos_digits[OF y] by blast
    then show ?thesis using place_digits_chars[of ds p] place_digits_marked[of ds p] by (auto simp: number_char_def)
  qed
  have zero: "number_char 48" "number_char 46" "number_char 45" "ascii_digit 48" by (simp_all add: number_char_def num_char_def ascii_digit_def)
  show "\<forall>c\<in>set (repr_float x). number_char c" using zero pos[of x] pos[of "- x"] assms by (simp add: repr_float_def)
  show "set (repr_float x) \<inter> {46, 69, 101} \<noteq> {}" using pos[of x] pos[of "- x"] assms by (auto simp: repr_float_def)
  consider "x = 0" | "x < 0" | "0 < x" by linarith
  then show "\<exists>c s. repr_float x = c # s \<and> (ascii_digit c \<or> c = 45 \<and> s \<noteq> [] \<and> ascii_digit (hd s))"
  proof cases
    case 2
    then show ?thesis using pos[of "- x"] assms by (simp add: repr_float_def)
  next
    case 3
    then show ?thesis using pos[of x] assms by (cases "repr_pos x") (simp_all add: repr_float_def)
  qed (use zero in \<open>simp add: repr_float_def\<close>)
qed

lemma read_number_float:
  assumes "is_float x" "\<bar>x\<bar> < 2 ^ 1024" and "stops t"
  shows "read_number (repr_float x @ t) = Some (JFloat (Finite x), t)"
  using number_split[OF repr_float_text(1)[OF assms(1)] assms(3)] repr_float_text(2)[OF assms(1)] py_float_repr[OF assms(1,2)]
  unfolding read_number_def Let_def by auto

section \<open>Values read back\<close>

text \<open>Values that Python can build and print: numbers in range, text without lone surrogates.\<close>

fun printable :: "json \<Rightarrow> bool" where
  "printable (JInt n) \<longleftrightarrow> \<bar>n\<bar> < 10 ^ max_int_digits"
| "printable (JFloat (Finite x)) \<longleftrightarrow> is_float x \<and> \<bar>x\<bar> < 2 ^ 1024"
| "printable (JStr s) \<longleftrightarrow> list_all scalar s"
| "printable (JList vs) \<longleftrightarrow> list_all printable vs"
| "printable (JObj kvs) \<longleftrightarrow> list_all (\<lambda>kv. list_all scalar (fst kv) \<and> printable (snd kv)) kvs"
| "printable _ \<longleftrightarrow> True"

fun json_size :: "json \<Rightarrow> nat" where
  "json_size (JList vs) = Suc (sum_list (map (\<lambda>v. Suc (json_size v)) vs))"
| "json_size (JObj kvs) = Suc (sum_list (map (\<lambda>kv. Suc (json_size (snd kv))) kvs))"
| "json_size _ = 1"

lemma json_size_pos [simp]: "0 < json_size v"
  by (cases v) auto

lemma stops_simps [simp]: "stops []" "c \<notin> {43, 45, 46, 69, 101} \<Longrightarrow> \<not> (48 \<le> c \<and> c \<le> 57) \<Longrightarrow> stops (c # t)"
  by (auto simp: stops_def number_char_def num_char_def ascii_digit_def)

text \<open>What starts like a number is none of the words.\<close>

lemma read_word_number:
  assumes "s = c # r" and "ascii_digit c \<or> c = 45 \<and> r \<noteq> [] \<and> ascii_digit (hd r)"
  shows "read_word json_words s = read_number s"
proof -
  have "c \<noteq> 110" "c \<noteq> 116" "c \<noteq> 102" "c \<noteq> 78" "c \<noteq> 73" "c = 45 \<longrightarrow> hd r \<noteq> 73"
    using assms(2) by (auto simp: ascii_digit_def)
  then have "find (\<lambda>(w, v). take (length w) s = w) json_words = None"
    by (cases r) (auto simp: json_words_def assms(1))
  then show ?thesis by (simp add: read_word_def)
qed

lemma fmt_d_start: "\<exists>c s. fmt_d n = c # s \<and> (ascii_digit c \<or> c = 45 \<and> s \<noteq> [] \<and> ascii_digit (hd s))"
proof -
  have d: "0 \<le> k \<Longrightarrow> ascii_digit (hd (dec_str k))" for k
    by (metis dec_str_ascii dec_str_not_Nil hd_in_set)
  show ?thesis using d[of n] d[of "- n"] by (cases "dec_str n") (auto simp: fmt_d_def not_less)
qed

lemma skip_id: "c \<notin> {32, 9, 10, 13} \<Longrightarrow> skip (c # s) = c # s"
  by (simp add: skip_def)

lemma skip_new_line [simp]: "skip (new_line d @ s) = skip s"
proof -
  have "skip (replicate k 32 @ s) = skip s" for k by (induction k) (simp_all add: skip_def)
  then show ?thesis by (simp add: new_line_def) (simp add: skip_def)
qed

lemma read_json_new_line [simp]: "read_json n (new_line d @ s) = read_json n s"
  by (cases n) simp_all

lemma expect_new_line [simp]: "expect c (new_line d @ s) = expect c s"
  by (simp add: expect_def)

lemma expect_hd: "c \<notin> {32, 9, 10, 13} \<Longrightarrow> expect d (c # s) = (if c = d then Some s else None)"
  by (simp add: expect_def skip_id)

text \<open>How a value starts.\<close>

lemma json_dumps_start:
  assumes "printable v"
  shows "\<exists>c s. json_dumps d v = c # s \<and> c \<notin> {32, 9, 10, 13, 44, 93, 125}"
proof (cases v)
  case (JInt n)
  then show ?thesis using fmt_d_start[of n] by (auto simp: ascii_digit_def)
next
  case (JFloat x)
  then show ?thesis using assms repr_float_text(3) by (cases x) (fastforce simp: ascii_digit_def)+
qed (auto simp: json_string_def)

lemma join_Cons: "xs \<noteq> [] \<Longrightarrow> join sep (x # xs) = x @ sep @ join sep xs"
  by (cases xs) simp_all

text \<open>The items of a list and of an object, when each value reads back.\<close>

definition reads_back :: "json \<Rightarrow> bool" where
  "reads_back v \<longleftrightarrow> (\<forall>d n t. json_size v \<le> n \<longrightarrow> stops t \<longrightarrow> read_json n (json_dumps d v @ t) = Some (v, t))"

lemma reads_backD: "reads_back v \<Longrightarrow> json_size v \<le> n \<Longrightarrow> stops t \<Longrightarrow> read_json n (json_dumps d v @ t) = Some (v, t)"
  by (simp add: reads_back_def)

lemma stops_new_line [simp]: "stops (new_line d @ s)"
  by (simp add: new_line_def)

lemma read_items_back:
  "vs \<noteq> [] \<Longrightarrow> list_all reads_back vs \<Longrightarrow> sum_list (map (\<lambda>v. Suc (json_size v)) vs) \<le> n \<Longrightarrow>
   read_items n (new_line e @ join (44 # new_line e) (map (json_dumps e) vs) @ new_line d @ 93 # t) = Some (vs, t)"
proof (induction vs arbitrary: n rule: list_nonempty_induct)
  case (single v)
  then obtain m where m: "n = Suc m" "json_size v \<le> m" by (cases n) auto
  then have "read_json m (json_dumps e v @ new_line d @ 93 # t) = Some (v, new_line d @ 93 # t)"
    using single by (intro reads_backD) simp_all
  then show ?case by (simp add: m(1) expect_hd)
next
  case (cons v vs)
  then obtain m where m: "n = Suc m" "json_size v \<le> m" "sum_list (map (\<lambda>v. Suc (json_size v)) vs) \<le> m" by (cases n) auto
  let ?r = "new_line e @ join (44 # new_line e) (map (json_dumps e) vs) @ new_line d @ 93 # t"
  have "read_json m (json_dumps e v @ 44 # ?r) = Some (v, 44 # ?r)" using cons.prems m(2) by (intro reads_backD) simp_all
  moreover have "read_items m ?r = Some (vs, t)" using cons.IH cons.prems m(3) by simp
  ultimately show ?case using cons.hyps by (simp add: m(1) join_Cons expect_hd put_first_def)
qed

definition member_text :: "nat \<Rightarrow> pystr \<times> json \<Rightarrow> pystr" where
  "member_text e kv = json_string (fst kv) @ u '': '' @ json_dumps e (snd kv)"

lemma read_member:
  assumes "list_all scalar k" and "reads_back v" "json_size v \<le> m" "stops t"
  shows "Option.bind (expect 34 (member_text e (k, v) @ t)) read_string = Some (k, 58 # 32 # json_dumps e v @ t)"
    and "Option.bind (expect 58 (58 # 32 # json_dumps e v @ t)) (read_json m) = Some (v, t)"
proof -
  show "Option.bind (expect 34 (member_text e (k, v) @ t)) read_string = Some (k, 58 # 32 # json_dumps e v @ t)"
    using read_json_string[OF assms(1)] by (simp add: member_text_def json_string_def expect_hd)
  have "read_json m (32 # s) = read_json m s" for s by (cases m) (simp_all add: skip_def)
  then show "Option.bind (expect 58 (58 # 32 # json_dumps e v @ t)) (read_json m) = Some (v, t)"
    using reads_backD[OF assms(2-4)] by (simp add: expect_hd)
qed

lemma read_members_back:
  "kvs \<noteq> [] \<Longrightarrow> list_all (\<lambda>kv. list_all scalar (fst kv) \<and> reads_back (snd kv)) kvs \<Longrightarrow>
   sum_list (map (\<lambda>kv. Suc (json_size (snd kv))) kvs) \<le> n \<Longrightarrow>
   read_members n (new_line e @ join (44 # new_line e) (map (member_text e) kvs) @ new_line d @ 125 # t) = Some (kvs, t)"
proof (induction kvs arbitrary: n rule: list_nonempty_induct)
  case (single kv)
  obtain k v where kv: "kv = (k, v)" by (cases kv)
  obtain m where m: "n = Suc m" "json_size v \<le> m" using single by (cases n) (auto simp: kv)
  have "list_all scalar k" "reads_back v" "stops (new_line d @ 125 # t)" using single by (simp_all add: kv)
  note r = read_member[OF this(1,2) m(2) this(3), of e]
  show ?case using r by (simp add: m(1) kv expect_hd)
next
  case (cons kv kvs)
  obtain k v where kv: "kv = (k, v)" by (cases kv)
  obtain m where m: "n = Suc m" "json_size v \<le> m" "sum_list (map (\<lambda>kv. Suc (json_size (snd kv))) kvs) \<le> m"
    using cons.prems by (cases n) (auto simp: kv)
  let ?r = "new_line e @ join (44 # new_line e) (map (member_text e) kvs) @ new_line d @ 125 # t"
  have "list_all scalar k" "reads_back v" "stops (44 # ?r)" using cons.prems by (simp_all add: kv)
  note r = read_member[OF this(1,2) m(2) this(3), of e]
  moreover have "read_members m ?r = Some (kvs, t)" using cons.IH cons.prems m(3) by simp
  ultimately show ?case using cons.hyps by (simp add: m(1) kv join_Cons expect_hd put_first_def)
qed

text \<open>What integers and floats have in common: a text that starts like a number, and that the reader of numbers takes
  whole.\<close>

locale number_text =
  fixes show_number :: "'a \<Rightarrow> pystr" and as_json :: "'a \<Rightarrow> json" and in_range :: "'a \<Rightarrow> bool"
  assumes dumped: "json_dumps d (as_json x) = show_number x"
    and one: "json_size (as_json x) = 1"
    and starts: "in_range x \<Longrightarrow> \<exists>c s. show_number x = c # s \<and> (ascii_digit c \<or> c = 45 \<and> s \<noteq> [] \<and> ascii_digit (hd s))"
    and read_whole: "in_range x \<Longrightarrow> stops t \<Longrightarrow> read_number (show_number x @ t) = Some (as_json x, t)"
begin

lemma reads_whole_back: "in_range x \<Longrightarrow> reads_back (as_json x)"
  unfolding reads_back_def
proof (intro allI impI)
  fix d m t assume a: "in_range x" "json_size (as_json x) \<le> m" "stops t"
  obtain c r where c: "show_number x = c # r" "ascii_digit c \<or> c = 45 \<and> r \<noteq> [] \<and> ascii_digit (hd r)"
    using starts[OF a(1)] by blast
  have "read_word json_words (c # r @ t) = read_number (show_number x @ t)" unfolding c(1) append_Cons
    by (rule read_word_number[OF refl]) (use c(2) in auto)
  then have "read_word json_words (c # r @ t) = Some (as_json x, t)" using read_whole[OF a(1,3)] by simp
  then show "read_json m (json_dumps d (as_json x) @ t) = Some (as_json x, t)"
    using a(2) c by (cases m) (auto simp: dumped one skip_id ascii_digit_def)
qed

end

interpretation whole: number_text fmt_d JInt "\<lambda>n. \<bar>n\<bar> < 10 ^ max_int_digits"
  by unfold_locales (simp_all add: fmt_d_start read_number_int)

interpretation decimal_number: number_text repr_float "\<lambda>x. JFloat (Finite x)" "\<lambda>x. is_float x \<and> \<bar>x\<bar> < 2 ^ 1024"
proof unfold_locales
  fix x :: real and t
  assume x: "is_float x \<and> \<bar>x\<bar> < 2 ^ 1024"
  then show "\<exists>c s. repr_float x = c # s \<and> (ascii_digit c \<or> c = 45 \<and> s \<noteq> [] \<and> ascii_digit (hd s))"
    using repr_float_text(3) by blast
  show "stops t \<Longrightarrow> read_number (repr_float x @ t) = Some (JFloat (Finite x), t)" using read_number_float x by blast
qed simp_all

lemma json_words_back: "reads_back JNull" "reads_back (JBool b)" "reads_back (JFloat PosInf)" "reads_back (JFloat NegInf)" "reads_back (JFloat NotANum)"
  by (auto simp: reads_back_def Suc_le_eq gr0_conv_Suc skip_id read_word_def json_words_def)

lemma json_string_back: "list_all scalar s \<Longrightarrow> reads_back (JStr s)"
  using read_json_string[of s] by (auto simp: reads_back_def Suc_le_eq gr0_conv_Suc skip_id json_string_def)

lemma json_list_back:
  assumes "list_all reads_back vs" and "list_all printable vs"
  shows "reads_back (JList vs)"
  unfolding reads_back_def
proof (intro allI impI)
  fix d m t assume a: "json_size (JList vs) \<le> m" "stops t"
  then obtain n where n: "m = Suc n" "sum_list (map (\<lambda>v. Suc (json_size v)) vs) \<le> n" by (cases m) auto
  show "read_json m (json_dumps d (JList vs) @ t) = Some (JList vs, t)"
  proof (cases vs)
    case Nil
    then show ?thesis by (simp add: n(1) skip_id expect_hd)
  next
    case (Cons v vs')
    obtain c s where "json_dumps (Suc d) v = c # s" "c \<notin> {32, 9, 10, 13, 44, 93, 125}"
      using json_dumps_start[of v "Suc d"] assms(2) Cons by auto
    then have "expect 93 (item_lines d (map (json_dumps (Suc d)) vs) @ 93 # t) = None"
      using Cons by (cases vs') (simp_all add: item_lines_def expect_hd)
    then show ?thesis using read_items_back[OF _ assms(1) n(2), of "Suc d" d t] Cons
      by (simp add: n(1) skip_id) (simp add: item_lines_def)
  qed
qed

lemma json_object_back:
  assumes "list_all (\<lambda>kv. list_all scalar (fst kv) \<and> reads_back (snd kv)) kvs"
  shows "reads_back (JObj kvs)"
  unfolding reads_back_def
proof (intro allI impI)
  fix d m t assume a: "json_size (JObj kvs) \<le> m" "stops t"
  then obtain n where n: "m = Suc n" "sum_list (map (\<lambda>kv. Suc (json_size (snd kv))) kvs) \<le> n" by (cases m) auto
  have lines: "map (\<lambda>kv. json_string (fst kv) @ u '': '' @ json_dumps (Suc d) (snd kv)) kvs = map (member_text (Suc d)) kvs"
    by (simp add: member_text_def)
  show "read_json m (json_dumps d (JObj kvs) @ t) = Some (JObj kvs, t)"
  proof (cases kvs)
    case Nil
    then show ?thesis by (simp add: n(1) skip_id expect_hd)
  next
    case (Cons kv kvs')
    then have "expect 125 (item_lines d (map (member_text (Suc d)) kvs) @ 125 # t) = None"
      by (cases kvs') (simp_all add: item_lines_def expect_hd member_text_def json_string_def)
    then show ?thesis using read_members_back[OF _ assms n(2), of "Suc d" d t] Cons
      unfolding json_dumps.simps lines by (simp add: n(1) skip_id) (simp add: item_lines_def)
  qed
qed

lemma json_reads_back: "printable v \<Longrightarrow> reads_back v"
proof (induction v)
  case (JFloat x)
  then show ?case using decimal_number.reads_whole_back json_words_back(3-5) by (cases x) auto
next
  case (JList vs)
  then show ?case by (intro json_list_back) (auto simp: list_all_iff)
next
  case (JObj kvs)
  then show ?case by (intro json_object_back) (fastforce simp: list_all_iff)
qed (simp_all add: json_words_back json_string_back whole.reads_whole_back)

lemma json_loads_dumps: "printable v \<Longrightarrow> json_size v \<le> n \<Longrightarrow> json_loads n (json_dumps d v) = Some v"
  using reads_backD[OF json_reads_back, of v n "[]" d] by (simp add: json_loads_def skip_def)

text \<open>The text has only ASCII characters, so that no encoding of the locale can refuse it.\<close>

lemma unit_escape_ascii: "0 \<le> n \<Longrightarrow> n < 65536 \<Longrightarrow> is_ascii (unit_escape n)"
proof -
  have h: "is_ascii [hex_digit d]" if "0 \<le> d" "d < 16" for d using that by (auto simp: hex_digit_def)
  assume "0 \<le> n" "n < 65536"
  then have "n div 4096 < 16" "0 \<le> n div 4096" by (simp_all add: pos_imp_zdiv_nonneg_iff)
  then show ?thesis using h[of "n div 4096"] h[of "n div 256 mod 16"] h[of "n div 16 mod 16"] h[of "n mod 16"]
    by (simp add: unit_escape_def)
qed

lemma is_ascii_concat: "is_ascii (concat xs) \<longleftrightarrow> list_all is_ascii xs"
  by (induction xs) simp_all

lemma json_string_ascii: "list_all scalar s \<Longrightarrow> is_ascii (json_string s)"
proof -
  have "is_ascii (json_char c)" if c: "scalar c" for c
  proof (cases "map_of short_escapes c")
    case None
    have "list_all is_ascii (map unit_escape (units c))"
      using units_range[OF c] unit_escape_ascii by (auto simp: list_all_iff)
    then show ?thesis using None by (simp add: json_char_def is_ascii_concat)
  qed (auto simp: json_char_def short_escapes_def split: if_splits)
  then show "list_all scalar s \<Longrightarrow> is_ascii (json_string s)"
    by (simp add: json_string_def is_ascii_concat list_all_iff)
qed

lemma is_ascii_join: "is_ascii sep \<Longrightarrow> list_all is_ascii xs \<Longrightarrow> is_ascii (join sep xs)"
  by (induction sep xs rule: join.induct) simp_all

lemma item_lines_ascii: "list_all is_ascii xs \<Longrightarrow> is_ascii (item_lines d xs)"
proof -
  have "is_ascii (new_line k)" for k by (rule is_asciiI) (auto simp: new_line_def)
  then show "list_all is_ascii xs \<Longrightarrow> is_ascii (item_lines d xs)" by (simp add: item_lines_def is_ascii_join)
qed

lemma json_dumps_ascii: "printable v \<Longrightarrow> is_ascii (json_dumps d v)"
proof (induction d v rule: json_dumps.induct)
  case (3 d n)
  show ?case by (rule is_asciiI) (auto dest!: fmt_d_chars simp: ascii_digit_def)
next
  case (4 d x)
  have "is_ascii (repr_float y)" if "is_float y" for y
    using repr_float_text(1)[OF that] by (intro is_asciiI) (auto simp: number_char_def num_char_def ascii_digit_def)
  then show ?case using 4 by (cases x) simp_all
next
  case (6 d vs)
  then have "list_all is_ascii (map (json_dumps (Suc d)) vs)" by (cases "vs = []") (auto simp: list_all_iff)
  then show ?case using item_lines_ascii by simp
next
  case (7 d kvs)
  then have "list_all is_ascii (map (\<lambda>kv. json_string (fst kv) @ u '': '' @ json_dumps (Suc d) (snd kv)) kvs)"
    using json_string_ascii by (cases "kvs = []") (auto simp: list_all_iff)
  then show ?case using item_lines_ascii by simp
qed (simp_all add: json_string_ascii)

end
