(* ===== verification/Drawing.thy ===== *)
theory Drawing
  imports PyFormat Experiments
begin

text \<open>
  What \<open>analysis/plots.py\<close> draws: the calls that \<open>plot_session\<close> and \<open>plot_qoe\<close> make on the axes of matplotlib,
  as lists of commands in the order of the calls, with their keyword arguments.  Matplotlib itself is not
  modelled, except for the calls it refuses: a line with a different number of places and values, bars with a
  different number of places and heights, and tick labels that are not as many as the ticks.
\<close>

section \<open>The calls\<close>

datatype keyword_value = KText pystr | KNumber real

type_synonym kwargs = "(string \<times> keyword_value) list"

datatype axes_call =
    Plot "int list" "real list" kwargs
  | SetXLabel pystr
  | SetYLabel pystr
  | SetTitle pystr
  | Legend kwargs
  | Bar "int list" "real list"
  | SetXTicks "int list"
  | SetXTickLabels "pystr list" kwargs

definition keyword :: "string \<Rightarrow> string \<Rightarrow> string \<times> keyword_value" where
  "keyword k v = (k, KText (u v))"

definition legend_upper_left :: axes_call where
  "legend_upper_left = Legend [keyword ''loc'' ''upper left'', (''fontsize'', KNumber 8)]"

text \<open>\<open>plot_session\<close>, on the upper and on the lower axes.\<close>

definition draw_rates :: "series \<Rightarrow> axes_call list" where
  "draw_rates s =
     [Plot (x_segments s) (y_kbps s) [keyword ''marker'' ''.'', keyword ''label'' ''bitrate (kbps)''],
      Plot (x_segments s) (y_instant s)
        [keyword ''linestyle'' '':'', (''alpha'', KNumber (fl (6 / 10))), keyword ''label'' ''instant tput (Mbps)''],
      Plot (x_segments s) (y_ewma s) [keyword ''label'' ''EWMA tput (Mbps)''],
      SetXLabel (u ''segment''), SetYLabel (u ''kbps / Mbps''), legend_upper_left]"

definition draw_buffer :: "series \<Rightarrow> axes_call list" where
  "draw_buffer s =
     [Plot (x_segments s) (y_buffer s) [keyword ''color'' ''green'', keyword ''label'' ''buffer B(t) (s)''],
      SetXLabel (u ''segment''), SetYLabel (u ''seconds''), legend_upper_left]"

definition bar_label :: "int \<times> pystr \<times> pystr \<Rightarrow> pystr" where
  "bar_label = (\<lambda>(i, abr, profile). fmt_d i @ u '': '' @ abr @ 10 # u ''('' @ profile @ u '')'')"

text \<open>\<open>plot_qoe\<close>: the labels and the values of the sessions.\<close>

definition draw_qoe :: "((int \<times> pystr \<times> pystr) \<times> real) list \<Rightarrow> axes_call list" where
  "draw_qoe bars =
     (let labels = map (\<lambda>b. bar_label (fst b)) bars; values = map snd bars
      in [Bar (iota (int (length values))) values, SetXTicks (iota (int (length values))),
          SetXTickLabels labels [(''rotation'', KNumber 45), keyword ''ha'' ''right'', (''fontsize'', KNumber 7)],
          SetYLabel (u ''QoE''), SetTitle (u ''QoE by session'')])"

section \<open>The calls are accepted\<close>

text \<open>The ticks in force, and whether matplotlib takes a list of calls.\<close>

fun accepted :: "int list option \<Rightarrow> axes_call list \<Rightarrow> bool" where
  "accepted places [] = True"
| "accepted places (Plot xs ys kw # cs) = (length xs = length ys \<and> accepted places cs)"
| "accepted places (Bar xs ys # cs) = (length xs = length ys \<and> accepted places cs)"
| "accepted places (SetXTicks xs # cs) = accepted (Some xs) cs"
| "accepted places (SetXTickLabels ls kw # cs) =
     ((case places of None \<Rightarrow> True | Some xs \<Rightarrow> length xs = length ls) \<and> accepted places cs)"
| "accepted places (SetXLabel s # cs) = accepted places cs"
| "accepted places (SetYLabel s # cs) = accepted places cs"
| "accepted places (SetTitle s # cs) = accepted places cs"
| "accepted places (Legend kw # cs) = accepted places cs"

text \<open>The lines of a list of calls: their label, and their points.\<close>

definition label_of :: "kwargs \<Rightarrow> pystr option" where
  "label_of kw = (case map_of kw ''label'' of Some (KText s) \<Rightarrow> Some s | _ \<Rightarrow> None)"

fun lines_of :: "axes_call list \<Rightarrow> (pystr option \<times> (int \<times> real) list) list" where
  "lines_of [] = []"
| "lines_of (Plot xs ys kw # cs) = (label_of kw, zip xs ys) # lines_of cs"
| "lines_of (c # cs) = lines_of cs"

text \<open>The bars with their labels.\<close>

definition bars_of :: "axes_call list \<Rightarrow> (pystr \<times> real) list" where
  "bars_of cs =
     zip (concat (map (\<lambda>c. case c of SetXTickLabels ls kw \<Rightarrow> ls | _ \<Rightarrow> []) cs))
         (concat (map (\<lambda>c. case c of Bar xs ys \<Rightarrow> ys | _ \<Rightarrow> []) cs))"

lemma draw_session_accepted: "accepted None (draw_rates (plot_session rows))" "accepted None (draw_buffer (plot_session rows))"
  by (simp_all add: draw_rates_def draw_buffer_def plot_session_def legend_upper_left_def del: u_simps)

lemma draw_qoe_accepted: "accepted None (draw_qoe bars)"
  by (simp add: draw_qoe_def Let_def del: u_simps)

text \<open>What is drawn is what is in the rows.\<close>

lemma draw_session_lines:
  "lines_of (draw_rates (plot_session rows)) =
     [(Some (u ''bitrate (kbps)''), map (\<lambda>r. (m_segment r, fl (of_int (m_bitrate r) / 1000))) rows),
      (Some (u ''instant tput (Mbps)''), map (\<lambda>r. (m_segment r, fl (instant_throughput r / 1000000))) rows),
      (Some (u ''EWMA tput (Mbps)''), map (\<lambda>r. (m_segment r, fl (ewma_throughput r / 1000000))) rows)]"
  "lines_of (draw_buffer (plot_session rows)) = [(Some (u ''buffer B(t) (s)''), map (\<lambda>r. (m_segment r, buffer_after r)) rows)]"
  by (simp_all add: draw_rates_def draw_buffer_def plot_session_def legend_upper_left_def label_of_def keyword_def zip_map_map
      zip_same_conv_map del: u_simps)

lemma draw_qoe_bars: "bars_of (draw_qoe bars) = map (\<lambda>(l, v). (bar_label l, v)) bars"
  by (simp add: bars_of_def draw_qoe_def Let_def zip_map_map zip_same_conv_map case_prod_beta del: u_simps)

end
