(* ===== verification/Server.thy ===== *)
theory Server
  imports EndToEnd
begin

text \<open>
  \<open>server/server.py\<close> with the threads of \<open>server/connection_handler.py\<close>: the accept loop, \<open>start\<close> and
  \<open>stop\<close>, and any number of handlers that share the cache and the statistics.  A step is what one
  thread does between two points where another one can interfere: the lookup and the insertion into
  the cache, and the update of the statistics, are each under a lock; receiving and sending
  concern one connection only.
\<close>

section \<open>A handler in small steps\<close>

text \<open>Where the thread of a handler is in \<open>run\<close>.\<close>

datatype phase =
    HTurn
  | HLookup pystr int int
  | HStore pystr int int pybytes
  | HReply segment
  | HCount segment
  | HEnd turn

text \<open>The handler with its connection, and the responses it has sent so far.\<close>

record handler =
  h_phase :: phase
  h_conn :: conn
  h_done :: "response list"

definition after_turn :: "turn \<Rightarrow> phase" where
  "after_turn t = (case t of Continue \<Rightarrow> HTurn | _ \<Rightarrow> HEnd t)"

definition refuse :: "int \<Rightarrow> turn \<Rightarrow> handler \<Rightarrow> handler" where
  "refuse st after hl =
     (case send_header st 0 after (h_conn hl) of
        (t, c') \<Rightarrow> hl\<lparr>h_phase := after_turn t, h_conn := c',
                     h_done := h_done hl @ (case t of Raise e \<Rightarrow> [] | _ \<Rightarrow> [Refused st])\<rparr>)"

definition segment_at :: "segment_manager \<Rightarrow> pystr \<Rightarrow> int \<Rightarrow> int \<Rightarrow> pybytes \<Rightarrow> segment" where
  "segment_at sm rep i br data =
     \<lparr>seg_rep = rep, seg_id = i, seg_bitrate = br, seg_duration = segment_duration sm, seg_data = data\<rparr>"

text \<open>Receiving and parsing, up to the call of \<open>resolve\<close> and the checks at its start.\<close>

definition turn_step :: "segment_manager \<Rightarrow> handler \<Rightarrow> handler" where
  "turn_step sm hl =
     (let (r, ib) = read_request_line (conn_inbox (h_conn hl));
          hl1 = hl\<lparr>h_conn := (h_conn hl)\<lparr>conn_inbox := ib\<rparr>\<rparr>
      in case r of
           Inl e \<Rightarrow> hl1\<lparr>h_phase := HEnd (if e = RequestError \<or> e = NotFoundError then Break else Raise e)\<rparr>
         | Inr line \<Rightarrow>
             (case parse_segment_request line (segment_count sm) of
                Inl NotFoundError \<Rightarrow> refuse 404 Continue hl1
              | Inl RequestError \<Rightarrow> refuse 400 Break hl1
              | Inl e \<Rightarrow> hl1\<lparr>h_phase := HEnd (Raise e)\<rparr>
              | Inr (rep, i) \<Rightarrow>
                  (case representations sm rep of
                     None \<Rightarrow> refuse 404 Continue hl1
                   | Some br \<Rightarrow>
                       if i < 1 \<or> i > segment_count sm then refuse 404 Continue hl1
                       else hl1\<lparr>h_phase := HLookup rep i br\<rparr>)))"

text \<open>Sending the header and then the data.\<close>

definition reply_step :: "segment \<Rightarrow> handler \<Rightarrow> handler" where
  "reply_step seg hl =
     (case segment_header seg of
        Inl e \<Rightarrow> hl\<lparr>h_phase := HEnd (Raise e)\<rparr>
      | Inr hdr \<Rightarrow>
          (case sendall hdr (h_conn hl) of
             (Some e, c1) \<Rightarrow> hl\<lparr>h_phase := HEnd (Raise e), h_conn := c1\<rparr>
           | (None, c1) \<Rightarrow>
               (case sendall (seg_data seg) c1 of
                  (Some e, c2) \<Rightarrow> hl\<lparr>h_phase := HEnd (Raise e), h_conn := c2\<rparr>
                | (None, c2) \<Rightarrow> hl\<lparr>h_phase := HCount seg, h_conn := c2, h_done := h_done hl @ [Served seg]\<rparr>)))"

definition handler_step :: "host \<Rightarrow> segment_manager \<Rightarrow> shared \<Rightarrow> handler \<Rightarrow> shared \<times> handler" where
  "handler_step h sm sh hl =
     (case h_phase hl of
        HTurn \<Rightarrow> (sh, turn_step sm hl)
      | HLookup rep i br \<Rightarrow>
          (case sh_cache sh (rep, i) of
             Some data \<Rightarrow> (sh, hl\<lparr>h_phase := HReply (segment_at sm rep i br data)\<rparr>)
           | None \<Rightarrow>
               (case read_or_generate h rep i br of
                  Inl e \<Rightarrow> (sh, hl\<lparr>h_phase := HEnd (Raise e)\<rparr>)
                | Inr data \<Rightarrow> (sh, hl\<lparr>h_phase := HStore rep i br data\<rparr>)))
      | HStore rep i br data \<Rightarrow>
          (sh\<lparr>sh_cache := (sh_cache sh)((rep, i) \<mapsto> data)\<rparr>, hl\<lparr>h_phase := HReply (segment_at sm rep i br data)\<rparr>)
      | HReply seg \<Rightarrow> (sh, reply_step seg hl)
      | HCount seg \<Rightarrow> (sh\<lparr>sh_stats := count_segment seg (sh_stats sh)\<rparr>, hl\<lparr>h_phase := HTurn\<rparr>)
      | HEnd t \<Rightarrow> (sh, hl\<lparr>h_conn := (h_conn hl)\<lparr>conn_closed := True\<rparr>\<rparr>))"

text \<open>Some steps of one handler with no other thread in between.\<close>

fun handler_steps :: "nat \<Rightarrow> host \<Rightarrow> segment_manager \<Rightarrow> shared \<Rightarrow> handler \<Rightarrow> shared \<times> handler" where
  "handler_steps 0 h sm sh hl = (sh, hl)"
| "handler_steps (Suc n) h sm sh hl = (let (sh', hl') = handler_step h sm sh hl in handler_steps n h sm sh' hl')"

section \<open>The server\<close>

text \<open>Where an accept loop is: started, at the test of its loop, about to read \<open>self._sock\<close>, in \<open>accept\<close>
  on the socket it has read, with a new connection, or ended, by itself or by an exception.\<close>

datatype acceptor = ABegin | ATest | ALoad | AAccept nat | AGot conn | AEnd "exn option"

text \<open>Where the main thread is: outside, in the loop of \<open>serve_forever\<close>, or at a line of \<open>stop\<close>.\<close>

datatype main_thread = MIdle | MServe | MClose | MForget | MJoin

text \<open>
  The fields of \<open>VideoServer\<close>, and with them the sockets it has made (open or closed, by number) and all
  accept loops and handlers that were ever started.
\<close>

record video_server =
  v_host :: pystr
  v_port :: int
  v_backlog :: int
  v_sock :: "nat option"
  v_accepting :: bool
  v_thread :: bool

record server_sys =
  sys_server :: video_server
  sys_sockets :: "bool list"
  sys_shared :: shared
  sys_main :: main_thread
  sys_acceptors :: "acceptor list"
  sys_handlers :: "handler list"

definition server_init :: "pystr \<Rightarrow> int \<Rightarrow> int \<Rightarrow> server_sys" where
  "server_init host port backlog =
     \<lparr>sys_server = \<lparr>v_host = host, v_port = port, v_backlog = backlog, v_sock = None, v_accepting = False, v_thread = False\<rparr>,
      sys_sockets = [], sys_shared = \<lparr>sh_cache = Map.empty, sh_stats = Map.empty\<rparr>, sys_main = MIdle, sys_acceptors = [], sys_handlers = []\<rparr>"

text \<open>\<open>start\<close>, when the system has bound the socket to a port.\<close>

definition server_start :: "int \<Rightarrow> server_sys \<Rightarrow> server_sys" where
  "server_start port s =
     s\<lparr>sys_server := (sys_server s)\<lparr>v_sock := Some (length (sys_sockets s)), v_port := port, v_accepting := True,
         v_thread := True\<rparr>,
       sys_sockets := sys_sockets s @ [True],
       sys_acceptors := sys_acceptors s @ [ABegin]\<rparr>"

definition new_handler :: "conn \<Rightarrow> handler" where
  "new_handler c = \<lparr>h_phase = HTurn, h_conn = c\<lparr>sent := []\<rparr>, h_done = []\<rparr>"

text \<open>One step of an accept loop; \<open>accept\<close> brings a connection, times out, or fails.\<close>

datatype accepted = AConn conn | ATimeout | AFail

definition socket_open :: "bool list \<Rightarrow> nat \<Rightarrow> bool" where
  "socket_open socks k \<longleftrightarrow> k < length socks \<and> socks ! k"

definition accept_result :: "bool \<Rightarrow> accepted \<Rightarrow> acceptor" where
  "accept_result is_open r =
     (case r of
        AConn c \<Rightarrow> if is_open then AGot c else AEnd None
      | ATimeout \<Rightarrow> ATest
      | AFail \<Rightarrow> AEnd None)"

fun acceptor_step :: "accepted \<Rightarrow> video_server \<Rightarrow> bool list \<Rightarrow> acceptor \<Rightarrow> acceptor \<times> handler list" where
  "acceptor_step r v socks ABegin = (if v_sock v = None then AEnd (Some AssertionError) else ATest, [])"
| "acceptor_step r v socks ATest = (if v_accepting v then ALoad else AEnd None, [])"
| "acceptor_step r v socks ALoad =
     (case v_sock v of None \<Rightarrow> AEnd (Some AttributeError) | Some k \<Rightarrow> AAccept k, [])"
| "acceptor_step r v socks (AAccept k) = (accept_result (socket_open socks k) r, [])"
| "acceptor_step r v socks (AGot c) = (ATest, [new_handler c])"
| "acceptor_step r v socks (AEnd e) = (AEnd e, [])"

text \<open>One step of \<open>stop\<close>: the flag, closing the socket, forgetting it, joining the thread (which ends
  or does not within the timeout).\<close>

fun stop_step :: "main_thread \<Rightarrow> video_server \<Rightarrow> bool list \<Rightarrow> main_thread \<times> video_server \<times> bool list" where
  "stop_step MClose v socks =
     (case v_sock v of None \<Rightarrow> (MJoin, v, socks) | Some k \<Rightarrow> (MForget, v, socks[k := False]))"
| "stop_step MForget v socks = (MJoin, v\<lparr>v_sock := None\<rparr>, socks)"
| "stop_step MJoin v socks = (MIdle, v\<lparr>v_thread := False\<rparr>, socks)"
| "stop_step _ v socks = (MClose, v\<lparr>v_accepting := False\<rparr>, socks)"

definition server_stop :: "server_sys \<Rightarrow> server_sys" where
  "server_stop s = (case stop_step (sys_main s) (sys_server s) (sys_sockets s) of
     (m, v, socks) \<Rightarrow> s\<lparr>sys_main := m, sys_server := v, sys_sockets := socks\<rparr>)"

inductive server_step :: "host \<Rightarrow> segment_manager \<Rightarrow> server_sys \<Rightarrow> server_sys \<Rightarrow> bool" for h sm where
  start: "sys_main s = MIdle \<Longrightarrow> server_step h sm s (server_start port s)"
| serve: "sys_main s = MIdle \<Longrightarrow> server_step h sm s ((server_start port s)\<lparr>sys_main := MServe\<rparr>)"
| stop: "server_step h sm s (server_stop s)"
| accept: "i < length (sys_acceptors s) \<Longrightarrow>
    acceptor_step r (sys_server s) (sys_sockets s) (sys_acceptors s ! i) = (a, hs) \<Longrightarrow>
    server_step h sm s (s\<lparr>sys_acceptors := (sys_acceptors s)[i := a], sys_handlers := sys_handlers s @ hs\<rparr>)"
| handle: "i < length (sys_handlers s) \<Longrightarrow> handler_step h sm (sys_shared s) (sys_handlers s ! i) = (sh', hl') \<Longrightarrow>
    server_step h sm s (s\<lparr>sys_shared := sh', sys_handlers := (sys_handlers s)[i := hl']\<rparr>)"

section \<open>A handler agrees with the store\<close>

fun phase_ok :: "host \<Rightarrow> segment_manager \<Rightarrow> response list \<Rightarrow> phase \<Rightarrow> bool" where
  "phase_ok h sm rs (HLookup rep i br) \<longleftrightarrow> representations sm rep = Some br \<and> 1 \<le> i \<and> i \<le> segment_count sm"
| "phase_ok h sm rs (HStore rep i br data) \<longleftrightarrow> representations sm rep = Some br \<and> 1 \<le> i \<and> i \<le> segment_count sm
     \<and> read_or_generate h rep i br = Inr data"
| "phase_ok h sm rs (HReply seg) \<longleftrightarrow> resolve_fresh h sm (seg_rep seg, seg_id seg) = Inr (Some seg)"
| "phase_ok h sm rs (HCount seg) \<longleftrightarrow> rs \<noteq> [] \<and> last rs = Served seg"
| "phase_ok h sm rs _ \<longleftrightarrow> True"

text \<open>What is on the wire: complete responses, and after a send that failed one response that is broken off.\<close>

definition wire_ok :: "host \<Rightarrow> segment_manager \<Rightarrow> handler \<Rightarrow> bool" where
  "wire_ok h sm hl \<longleftrightarrow> (\<exists>part. sent (h_conn hl) = concat (map response_sends (h_done hl)) @ part
     \<and> (part = [] \<or> (h_phase hl = HEnd (Raise OSError) \<and> sends_left (h_conn hl) = Some 0
                      \<and> (\<exists>rsp. response_ok h sm rsp \<and> broken_off rsp part))))"

definition handler_ok :: "host \<Rightarrow> segment_manager \<Rightarrow> handler \<Rightarrow> bool" where
  "handler_ok h sm hl \<longleftrightarrow> wire_ok h sm hl \<and> list_all (response_ok h sm) (h_done hl) \<and> phase_ok h sm (h_done hl) (h_phase hl)"

text \<open>What a handler has added to the statistics: not yet the response it is about to count.\<close>

definition counted :: "handler \<Rightarrow> response list" where
  "counted hl = (case h_phase hl of HCount _ \<Rightarrow> butlast (h_done hl) | _ \<Rightarrow> h_done hl)"

fun segments_in :: "response list \<Rightarrow> int" where
  "segments_in [] = 0"
| "segments_in (Refused _ # rs) = segments_in rs"
| "segments_in (Served _ # rs) = 1 + segments_in rs"

fun bytes_in :: "response list \<Rightarrow> int" where
  "bytes_in [] = 0"
| "bytes_in (Refused _ # rs) = bytes_in rs"
| "bytes_in (Served seg # rs) = int (length (seg_data seg)) + bytes_in rs"

definition stat_of :: "stats \<Rightarrow> pystr \<Rightarrow> int" where
  "stat_of st k = (case st k of None \<Rightarrow> 0 | Some v \<Rightarrow> v)"

lemma wire_complete: "sent (h_conn hl) = concat (map response_sends (h_done hl)) \<Longrightarrow> wire_ok h sm hl"
  by (auto simp: wire_ok_def)

lemma wire_running: "wire_ok h sm hl \<Longrightarrow> \<forall>e. h_phase hl \<noteq> HEnd e \<Longrightarrow> sent (h_conn hl) = concat (map response_sends (h_done hl))"
  by (auto simp: wire_ok_def)

lemma wire_broken:
  assumes "sent (h_conn hl) = concat (map response_sends (h_done hl)) @ part" and "response_ok h sm rsp" "broken_off rsp part"
    and "h_phase hl = HEnd (Raise OSError)" and "sends_left (h_conn hl) = Some 0"
  shows "wire_ok h sm hl"
  using assms unfolding wire_ok_def by blast

lemma refuse_ok:
  assumes "handler_ok h sm hl" and "h_phase hl = HTurn" and "st = 404 \<or> st = 400" and "a = Continue \<or> a = Break"
  shows "handler_ok h sm (refuse st a hl)"
proof -
  have w: "sent (h_conn hl) = concat (map response_sends (h_done hl))" "list_all (response_ok h sm) (h_done hl)"
    using assms(1,2) wire_running[of h sm hl] by (simp_all add: handler_ok_def)
  show ?thesis
  proof (cases "build_response_header st 0 0 (Finite 0) [] 0")
    case (Inl e)
    then show ?thesis using w by (simp add: refuse_def send_header_def handler_ok_def after_turn_def wire_complete)
  next
    case (Inr bs)
    obtain o' c1 where s: "sendall bs (h_conn hl) = (o', c1)" by force
    show ?thesis
    proof (cases o')
      case None
      then have "refuse st a hl = hl\<lparr>h_phase := after_turn a, h_conn := c1, h_done := h_done hl @ [Refused st]\<rparr>"
        using Inr s assms(4) by (auto simp: refuse_def send_header_def)
      then show ?thesis using sendall_cases(1)[OF s[unfolded None]] w assms(3,4) Inr
        by (auto simp: handler_ok_def after_turn_def the_ok_def intro!: wire_complete)
    next
      case (Some e)
      let ?part = "[take (cut (h_conn hl)) (butlast bs)]"
      have r: "refuse st a hl = hl\<lparr>h_phase := HEnd (Raise e), h_conn := c1\<rparr>"
        using Inr s Some by (simp add: refuse_def send_header_def after_turn_def)
      note f = sendall_cases(2)[OF s[unfolded Some]]
      have "broken_off (Refused st) ?part" by (rule broken_off_first) (simp add: Inr the_ok_def)
      moreover have "response_ok h sm (Refused st)" using assms(3) by simp
      ultimately have "wire_ok h sm (refuse st a hl)" using f w(1) unfolding r by (intro wire_broken[of _ ?part]) simp_all
      then show ?thesis using w(2) by (simp add: handler_ok_def r)
    qed
  qed
qed

text \<open>The ways a turn can go.\<close>

definition received :: "handler \<Rightarrow> inbox \<Rightarrow> handler" where
  "received hl ib = hl\<lparr>h_conn := (h_conn hl)\<lparr>conn_inbox := ib\<rparr>\<rparr>"

lemma turn_step_cases:
  obtains (refused) ib st a where "turn_step sm hl = refuse st a (received hl ib)" "st = 404 \<and> a = Continue \<or> st = 400 \<and> a = Break"
  | (stopped) ib t where "turn_step sm hl = (received hl ib)\<lparr>h_phase := HEnd t\<rparr>"
  | (found) ib rep i br where "turn_step sm hl = (received hl ib)\<lparr>h_phase := HLookup rep i br\<rparr>"
      "representations sm rep = Some br" "1 \<le> i" "i \<le> segment_count sm"
proof -
  obtain r ib where r: "read_request_line (conn_inbox (h_conn hl)) = (r, ib)" by force
  show thesis
  proof (cases r)
    case (Inl e)
    then show thesis using r stopped[where ib = ib] by (simp add: turn_step_def received_def)
  next
    case (Inr line)
    show thesis
    proof (cases "parse_segment_request line (segment_count sm)")
      case e: (Inl e)
      then show thesis using r Inr refused[where st = 404 and a = Continue and ib = ib] refused[where st = 400 and a = Break and ib = ib] stopped[where ib = ib]
        by (cases e) (simp_all add: turn_step_def received_def)
    next
      case p: (Inr q)
      obtain rep i where "q = (rep, i)" by force
      then show thesis using r Inr p refused[where st = 404 and a = Continue and ib = ib]
            found[where ib = ib and rep = rep and i = i]
        by (cases "representations sm rep"; cases "i < 1 \<or> segment_count sm < i") (auto simp: turn_step_def received_def)
    qed
  qed
qed

lemma received_ok: "handler_ok h sm (received hl ib) \<longleftrightarrow> handler_ok h sm hl"
  by (simp add: handler_ok_def wire_ok_def received_def)

lemma received_fields [simp]: "h_phase (received hl ib) = h_phase hl" "h_done (received hl ib) = h_done hl"
  by (simp_all add: received_def)

lemma turn_step_ok:
  assumes "handler_ok h sm hl" and "h_phase hl = HTurn"
  shows "handler_ok h sm (turn_step sm hl)"
proof (cases rule: turn_step_cases[of sm hl])
  case (refused ib st a)
  then show ?thesis using refuse_ok[of h sm "received hl ib" st a] assms by (auto simp: received_ok)
next
  case (stopped ib t)
  then show ?thesis using assms received_ok[of h sm hl ib] by (auto simp: handler_ok_def wire_ok_def)
next
  case (found ib rep i br)
  then show ?thesis using assms received_ok[of h sm hl ib] by (auto simp: handler_ok_def wire_ok_def)
qed

lemma reply_step_ok:
  assumes "handler_ok h sm hl" and "h_phase hl = HReply seg"
  shows "handler_ok h sm (reply_step seg hl)"
proof -
  have w: "sent (h_conn hl) = concat (map response_sends (h_done hl))" "list_all (response_ok h sm) (h_done hl)"
    "resolve_fresh h sm (seg_rep seg, seg_id seg) = Inr (Some seg)"
    using assms wire_running[of h sm hl] by (simp_all add: handler_ok_def)
  show ?thesis
  proof (cases "segment_header seg")
    case (Inl e)
    then show ?thesis using w by (simp add: reply_step_def handler_ok_def wire_complete)
  next
    case (Inr hdr)
    have rsp: "response_ok h sm (Served seg)" "response_sends (Served seg) = [hdr, seg_data seg]"
      using w(3) Inr by (simp_all add: ok_def the_ok_def)
    obtain o1 c1 where s1: "sendall hdr (h_conn hl) = (o1, c1)" by force
    obtain o2 c2 where s2: "sendall (seg_data seg) c1 = (o2, c2)" by force
    consider (first) e where "o1 = Some e" | (second) e where "o1 = None" "o2 = Some e"
      | (both) "o1 = None" "o2 = None" by (cases o1; cases o2) auto
    then show ?thesis
    proof cases
      case first
      then have r: "reply_step seg hl = hl\<lparr>h_phase := HEnd (Raise e), h_conn := c1\<rparr>" using Inr s1 by (simp add: reply_step_def)
      note f = sendall_cases(2)[OF s1[unfolded first]]
      have "wire_ok h sm (reply_step seg hl)"
        using f w(1) unfolding r by (intro wire_broken[OF _ rsp(1) broken_off_first[OF rsp(2)]]) simp_all
      then show ?thesis using w(2) by (simp add: handler_ok_def r)
    next
      case second
      then have r: "reply_step seg hl = hl\<lparr>h_phase := HEnd (Raise e), h_conn := c2\<rparr>" using Inr s1 s2 by (simp add: reply_step_def)
      note f = sendall_cases(1)[OF s1[unfolded second(1)]] sendall_cases(2)[OF s2[unfolded second(2)]]
      have "wire_ok h sm (reply_step seg hl)"
        using f w(1) unfolding r by (intro wire_broken[OF _ rsp(1) broken_off_second[OF rsp(2)]]) simp_all
      then show ?thesis using w(2) by (simp add: handler_ok_def r)
    next
      case both
      then have r: "reply_step seg hl = hl\<lparr>h_phase := HCount seg, h_conn := c2, h_done := h_done hl @ [Served seg]\<rparr>"
        using Inr s1 s2 by (simp add: reply_step_def)
      note f = sendall_cases(1)[OF s1[unfolded both(1)]] sendall_cases(1)[OF s2[unfolded both(2)]]
      have "wire_ok h sm (reply_step seg hl)" unfolding r by (rule wire_complete) (use f w(1) rsp(2) in simp)
      then show ?thesis using w(2) rsp(1) by (simp add: handler_ok_def r del: response_ok.simps)
    qed
  qed
qed

lemma segment_at_fresh:
  "representations sm rep = Some br \<Longrightarrow> 1 \<le> i \<Longrightarrow> i \<le> segment_count sm \<Longrightarrow> read_or_generate h rep i br = Inr data \<Longrightarrow>
   resolve_fresh h sm (seg_rep (segment_at sm rep i br data), seg_id (segment_at sm rep i br data))
     = Inr (Some (segment_at sm rep i br data))"
  by (simp add: resolve_fresh_eq segment_at_def)

lemma cache_ok_store: "cache_ok h sm c \<Longrightarrow> representations sm rep = Some br \<Longrightarrow> 1 \<le> i \<Longrightarrow> i \<le> segment_count sm \<Longrightarrow>
    read_or_generate h rep i br = Inr data \<Longrightarrow> cache_ok h sm (c((rep, i) \<mapsto> data))"
  unfolding cache_ok_def by simp

lemma cache_ok_hit: "cache_ok h sm c \<Longrightarrow> c (rep, i) = Some data \<Longrightarrow> representations sm rep = Some br \<Longrightarrow>
    read_or_generate h rep i br = Inr data"
  unfolding cache_ok_def by fastforce

lemma handler_step_ok:
  assumes "handler_ok h sm hl" and "cache_ok h sm (sh_cache sh)" and "handler_step h sm sh hl = (sh', hl')"
  shows "handler_ok h sm hl' \<and> cache_ok h sm (sh_cache sh')"
proof (cases "h_phase hl")
  case HTurn
  then show ?thesis using assms turn_step_ok by (auto simp: handler_step_def)
next
  case (HLookup rep i br)
  then have p: "representations sm rep = Some br" "1 \<le> i" "i \<le> segment_count sm" "wire_ok h sm hl"
    "list_all (response_ok h sm) (h_done hl)" using assms(1) by (simp_all add: handler_ok_def)
  have w: "wire_ok h sm (hl\<lparr>h_phase := q\<rparr>)" for q using p(4) HLookup by (auto simp: wire_ok_def split: if_splits)
  show ?thesis
  proof (cases "sh_cache sh (rep, i)")
    case None
    then show ?thesis using assms(2,3) HLookup p w
      by (auto simp: handler_step_def handler_ok_def split: sum.splits)
  next
    case (Some data)
    then show ?thesis using assms(2,3) HLookup p w segment_at_fresh[OF p(1-3) cache_ok_hit[OF assms(2) Some p(1)]]
      by (auto simp: handler_step_def handler_ok_def)
  qed
next
  case (HStore rep i br data)
  then have p: "representations sm rep = Some br" "1 \<le> i" "i \<le> segment_count sm" "read_or_generate h rep i br = Inr data"
    using assms(1) by (simp_all add: handler_ok_def)
  show ?thesis using assms HStore cache_ok_store[OF assms(2) p] segment_at_fresh[OF p]
    by (auto simp: handler_step_def handler_ok_def wire_ok_def)
next
  case (HReply seg)
  then show ?thesis using assms reply_step_ok by (auto simp: handler_step_def)
next
  case (HCount seg)
  then show ?thesis using assms by (auto simp: handler_step_def handler_ok_def wire_ok_def)
next
  case (HEnd t)
  then show ?thesis using assms by (auto simp: handler_step_def handler_ok_def wire_ok_def)
qed

section \<open>The statistics\<close>

lemma stat_of_add: "stat_of (stat_add k n st) k' = stat_of st k' + (if k = k' then n else 0)"
  by (simp add: stat_of_def stat_add_def split: option.split)

lemma keys_differ: "u ''bytes_sent'' \<noteq> u ''segments_sent''"
  by simp

lemma stat_of_count:
  "stat_of (count_segment seg st) (u ''segments_sent'') = stat_of st (u ''segments_sent'') + 1"
  "stat_of (count_segment seg st) (u ''bytes_sent'') = stat_of st (u ''bytes_sent'') + int (length (seg_data seg))"
  using keys_differ by (simp_all only: count_segment_def stat_of_add if_True if_False simp_thms) simp_all

lemma segments_in_append: "segments_in (xs @ ys) = segments_in xs + segments_in ys"
  by (induction xs rule: segments_in.induct) auto

lemma bytes_in_append: "bytes_in (xs @ ys) = bytes_in xs + bytes_in ys"
  by (induction xs rule: bytes_in.induct) auto

text \<open>One step of a handler counts what it adds.\<close>

lemma counted_turn_step:
  assumes "h_phase hl = HTurn"
  shows "segments_in (counted (turn_step sm hl)) = segments_in (counted hl)
    \<and> bytes_in (counted (turn_step sm hl)) = bytes_in (counted hl)"
proof -
  have "segments_in (counted (refuse st a x)) = segments_in (h_done x) \<and> bytes_in (counted (refuse st a x)) = bytes_in (h_done x)"
    for st a x
    by (cases "send_header st 0 a (h_conn x)")
      (simp add: refuse_def counted_def after_turn_def segments_in_append bytes_in_append split: turn.split)
  then have rf: "segments_in (counted (refuse st a x)) = segments_in (h_done x)"
    "bytes_in (counted (refuse st a x)) = bytes_in (h_done x)" for st a x by simp_all
  show ?thesis using rf assms
    by (cases rule: turn_step_cases[of sm hl]) (simp_all add: rf, simp_all add: counted_def)
qed

lemma counted_step:
  assumes "handler_ok h sm hl" and "handler_step h sm sh hl = (sh', hl')"
  shows "stat_of (sh_stats sh') (u ''segments_sent'') - stat_of (sh_stats sh) (u ''segments_sent'')
      = segments_in (counted hl') - segments_in (counted hl)
    \<and> stat_of (sh_stats sh') (u ''bytes_sent'') - stat_of (sh_stats sh) (u ''bytes_sent'')
      = bytes_in (counted hl') - bytes_in (counted hl)"
proof (cases "h_phase hl")
  case HTurn
  then show ?thesis using assms(2) counted_turn_step[OF HTurn, of sm] by (auto simp: handler_step_def)
next
  case (HReply seg)
  then show ?thesis using assms(2)
    by (auto simp: handler_step_def reply_step_def counted_def split: sum.split option.split prod.split)
next
  case (HCount seg)
  then have l: "h_done hl \<noteq> []" "last (h_done hl) = Served seg" using assms(1) by (simp_all add: handler_ok_def)
  then have d: "h_done hl = butlast (h_done hl) @ [Served seg]" by (metis append_butlast_last_id)
  have "segments_in (h_done hl) = segments_in (butlast (h_done hl)) + 1"
    "bytes_in (h_done hl) = bytes_in (butlast (h_done hl)) + int (length (seg_data seg))"
    by (subst d, simp add: segments_in_append bytes_in_append)+
  then show ?thesis using assms(2) HCount by (auto simp: handler_step_def counted_def stat_of_count simp del: u_simps)
qed (use assms(2) in \<open>auto simp: handler_step_def counted_def split: option.splits sum.splits\<close>)

section \<open>All clients\<close>

definition total_over :: "(handler \<Rightarrow> int) \<Rightarrow> handler list \<Rightarrow> int" where
  "total_over f hs = sum_list (map f hs)"

lemma total_over_update: "i < length hs \<Longrightarrow> total_over f (hs[i := x]) = total_over f hs + (f x - f (hs ! i))"
proof (induction hs arbitrary: i)
  case (Cons a hs)
  then show ?case by (cases i) (auto simp: total_over_def)
qed simp

lemma total_over_append: "total_over f (xs @ ys) = total_over f xs + total_over f ys"
  by (simp add: total_over_def)

definition server_inv :: "host \<Rightarrow> segment_manager \<Rightarrow> server_sys \<Rightarrow> bool" where
  "server_inv h sm s \<longleftrightarrow> cache_ok h sm (sh_cache (sys_shared s)) \<and> list_all (handler_ok h sm) (sys_handlers s)
   \<and> stat_of (sh_stats (sys_shared s)) (u ''segments_sent'') = total_over (\<lambda>hl. segments_in (counted hl)) (sys_handlers s)
   \<and> stat_of (sh_stats (sys_shared s)) (u ''bytes_sent'') = total_over (\<lambda>hl. bytes_in (counted hl)) (sys_handlers s)"

definition server_begins :: "server_sys \<Rightarrow> bool" where
  "server_begins s \<longleftrightarrow> (\<exists>host port backlog. s = server_init host port backlog)"

lemma server_inv_init: "server_begins s \<Longrightarrow> server_inv h sm s"
  by (auto simp: server_begins_def server_init_def server_inv_def cache_ok_def stat_of_def total_over_def)

lemma acceptor_step_new:
  "acceptor_step r v socks a = (a', hs) \<Longrightarrow> list_all (handler_ok h sm) hs
     \<and> total_over (\<lambda>hl. segments_in (counted hl)) hs = 0 \<and> total_over (\<lambda>hl. bytes_in (counted hl)) hs = 0"
  by (cases a) (auto simp: new_handler_def handler_ok_def wire_ok_def counted_def total_over_def)

lemma server_inv_step:
  assumes inv: "server_inv h sm s" and step: "server_step h sm s t"
  shows "server_inv h sm t"
  using step
proof (cases rule: server_step.cases)
  case (accept i r a hs)
  then show ?thesis using inv acceptor_step_new[of r "sys_server s" "sys_sockets s" _ a hs h sm]
    by (simp add: server_inv_def total_over_append)
next
  case (handle i sh' hl')
  let ?hl = "sys_handlers s ! i"
  have ok: "handler_ok h sm ?hl" using inv handle(2) by (auto simp: server_inv_def list_all_length)
  have n: "handler_ok h sm hl'" "cache_ok h sm (sh_cache sh')"
    using handler_step_ok[OF ok _ handle(3)] inv by (auto simp: server_inv_def)
  have "list_all (handler_ok h sm) ((sys_handlers s)[i := hl'])"
    using inv n(1) handle(2) by (auto simp: server_inv_def list_all_length nth_list_update)
  then show ?thesis using inv n(2) counted_step[OF ok handle(3)] handle(1,2)
    by (simp add: server_inv_def total_over_update)
qed (use inv in \<open>simp_all add: server_inv_def server_start_def server_stop_def split: prod.split\<close>)

interpretation server: machine_invariant server_begins "server_step h sm" "server_inv h sm" for h sm
  by unfold_locales (auto intro: server_inv_init server_inv_step)

section \<open>The small steps are the handler\<close>

lemma handler_steps_add: "handler_steps (m + n) h sm sh hl = (let (sh', hl') = handler_steps m h sm sh hl in handler_steps n h sm sh' hl')"
  by (induction m arbitrary: sh hl) (simp_all add: case_prod_beta Let_def)

lemma handler_steps_one: "handler_steps (Suc 0) h sm sh hl = handler_step h sm sh hl"
  by (simp add: case_prod_beta)

lemma refuse_conn: "send_header st 0 a (h_conn x) = (t, c') \<Longrightarrow>
    h_conn (refuse st a x) = c' \<and> h_phase (refuse st a x) = after_turn t"
  by (simp add: refuse_def)

text \<open>From the reply on.\<close>

lemma reply_steps:
  assumes "h_phase hl = HReply seg" and "send_segment seg sh (h_conn hl) = (t, sh', c')"
  shows "\<exists>n hl'. handler_steps n h sm sh hl = (sh', hl') \<and> h_conn hl' = c' \<and> h_phase hl' = after_turn t"
proof (cases "h_phase (reply_step seg hl) = HCount seg")
  case True
  then have "handler_steps (Suc (Suc 0)) h sm sh hl = (sh', (reply_step seg hl)\<lparr>h_phase := HTurn\<rparr>) \<and> h_conn (reply_step seg hl) = c'
      \<and> t = Continue"
    using assms by (auto simp: handler_step_def reply_step_def send_segment_def split: sum.splits option.splits prod.splits)
  then show ?thesis by (intro exI[of _ "Suc (Suc 0)"]) (simp add: after_turn_def)
next
  case False
  then have "handler_steps (Suc 0) h sm sh hl = (sh', reply_step seg hl) \<and> h_conn (reply_step seg hl) = c'
      \<and> h_phase (reply_step seg hl) = after_turn t"
    using assms by (auto simp: handler_step_def reply_step_def send_segment_def after_turn_def split: sum.splits option.splits prod.splits)
  then show ?thesis by (intro exI[of _ "Suc 0"]) simp
qed

text \<open>From the lookup on.\<close>

definition lookup_turn :: "host \<Rightarrow> segment_manager \<Rightarrow> pystr \<Rightarrow> int \<Rightarrow> int \<Rightarrow> shared \<Rightarrow> conn \<Rightarrow> turn \<times> shared \<times> conn" where
  "lookup_turn h sm rep i br sh c =
     (case load_bytes h (sh_cache sh) rep i br of
        (Inl e, ca) \<Rightarrow> (Raise e, sh\<lparr>sh_cache := ca\<rparr>, c)
      | (Inr data, ca) \<Rightarrow> send_segment (segment_at sm rep i br data) (sh\<lparr>sh_cache := ca\<rparr>) c)"

lemma lookup_steps:
  assumes "h_phase hl = HLookup rep i br" and "lookup_turn h sm rep i br sh (h_conn hl) = (t, sh', c')"
  shows "\<exists>n hl'. handler_steps n h sm sh hl = (sh', hl') \<and> h_conn hl' = c' \<and> h_phase hl' = after_turn t"
proof -
  have go: "\<exists>n hl'. handler_steps n h sm sh hl = (sh', hl') \<and> h_conn hl' = c' \<and> h_phase hl' = after_turn t"
    if m: "handler_steps m h sm sh hl = (sh1, hl\<lparr>h_phase := HReply seg\<rparr>)" "send_segment seg sh1 (h_conn hl) = (t, sh', c')" for m sh1 seg
  proof -
    obtain n hl' where "handler_steps n h sm sh1 (hl\<lparr>h_phase := HReply seg\<rparr>) = (sh', hl')" "h_conn hl' = c'" "h_phase hl' = after_turn t"
      using reply_steps[of "hl\<lparr>h_phase := HReply seg\<rparr>" seg sh1 t sh' c' h sm] m(2) by auto
    then show ?thesis using m(1) by (intro exI[of _ "m + n"] exI[of _ hl']) (simp add: handler_steps_add)
  qed
  show ?thesis
  proof (cases "sh_cache sh (rep, i)")
    case (Some data)
    then show ?thesis using assms go[of "Suc 0" sh "segment_at sm rep i br data"]
      by (simp add: lookup_turn_def load_bytes_def handler_step_def)
  next
    case None
    show ?thesis
    proof (cases "read_or_generate h rep i br")
      case (Inl e)
      then show ?thesis using assms None
        by (intro exI[of _ "Suc 0"]) (auto simp: lookup_turn_def load_bytes_def handler_step_def after_turn_def)
    next
      case (Inr data)
      then show ?thesis
        using assms None go[of "Suc (Suc 0)" "sh\<lparr>sh_cache := (sh_cache sh)((rep, i) \<mapsto> data)\<rparr>" "segment_at sm rep i br data"]
        by (simp add: lookup_turn_def load_bytes_def handler_step_def)
    qed
  qed
qed

lemma serve_request_lookup:
  "parse_segment_request line (segment_count sm) = Inr (rep, i) \<Longrightarrow>
   serve_request h sm line sh c =
     (case representations sm rep of
        None \<Rightarrow> (let (t, c') = send_header 404 0 Continue c in (t, sh, c'))
      | Some br \<Rightarrow> if i < 1 \<or> i > segment_count sm then (let (t, c') = send_header 404 0 Continue c in (t, sh, c'))
                  else lookup_turn h sm rep i br sh c)"
  by (auto simp: serve_request_def resolve_def lookup_turn_def segment_at_def split: option.splits prod.splits sum.splits)

text \<open>Some small steps from the start of a turn give what the turn gives.\<close>

definition small_turn :: "host \<Rightarrow> segment_manager \<Rightarrow> shared \<Rightarrow> handler \<Rightarrow> turn \<times> shared \<times> conn \<Rightarrow> bool" where
  "small_turn h sm sh hl z \<longleftrightarrow> (case z of (t, sh', c') \<Rightarrow>
     \<exists>n hl'. handler_steps (Suc n) h sm sh hl = (sh', hl') \<and> h_conn hl' = c' \<and> h_phase hl' = after_turn t)"

lemma small_turn_one:
  "h_phase hl = HTurn \<Longrightarrow> h_conn (turn_step sm hl) = c' \<Longrightarrow> h_phase (turn_step sm hl) = after_turn t \<Longrightarrow> small_turn h sm sh hl (t, sh, c')"
  unfolding small_turn_def prod.case by (intro exI[of _ 0]) (simp add: handler_step_def)

lemma small_turn_refused:
  assumes "h_phase hl = HTurn" and "turn_step sm hl = refuse st a hl0"
  shows "small_turn h sm sh hl (let (t, c') = send_header st 0 a (h_conn hl0) in (t, sh, c'))"
  using small_turn_one[OF assms(1)] assms(2) refuse_conn[of st a hl0] by (cases "send_header st 0 a (h_conn hl0)") auto

lemma small_turn_lookup:
  assumes "h_phase hl = HTurn" and "turn_step sm hl = hl0\<lparr>h_phase := HLookup rep i br\<rparr>"
  shows "small_turn h sm sh hl (lookup_turn h sm rep i br sh (h_conn hl0))"
proof -
  obtain t sh' c' where l: "lookup_turn h sm rep i br sh (h_conn hl0) = (t, sh', c')" by (metis prod_cases3)
  then obtain n hl' where "handler_steps n h sm sh (turn_step sm hl) = (sh', hl')" "h_conn hl' = c'" "h_phase hl' = after_turn t"
    using lookup_steps[of "turn_step sm hl" rep i br h sm sh t sh' c'] unfolding assms(2) by auto
  then show ?thesis using assms(1) unfolding small_turn_def l prod.case
    by (intro exI[of _ n] exI[of _ hl']) (simp add: handler_step_def)
qed

lemma small_turn_request:
  assumes hl: "h_phase hl = HTurn" and r: "read_request_line (conn_inbox (h_conn hl)) = (Inr line, ib)"
  shows "small_turn h sm sh hl (serve_request h sm line sh ((h_conn hl)\<lparr>conn_inbox := ib\<rparr>))"
proof -
  let ?h = "hl\<lparr>h_conn := (h_conn hl)\<lparr>conn_inbox := ib\<rparr>\<rparr>"
  note refused = small_turn_refused[OF hl, where ?hl0.0 = ?h, simplified]
  show ?thesis
  proof (cases "parse_segment_request line (segment_count sm)")
    case e: (Inl e)
    show ?thesis
    proof (cases "e = NotFoundError \<or> e = RequestError")
      case True
      then show ?thesis using r e refused[of sm 404 Continue] refused[of sm 400 Break]
        by (elim disjE) (simp_all add: turn_step_def serve_request_def)
    next
      case False
      have "turn_step sm hl = ?h\<lparr>h_phase := HEnd (Raise e)\<rparr>" using False r e by (cases e) (simp_all add: turn_step_def)
      moreover have "serve_request h sm line sh (h_conn ?h) = (Raise e, sh, h_conn ?h)"
        using False e by (cases e) (simp_all add: serve_request_def)
      ultimately show ?thesis using small_turn_one[OF hl] by (simp add: after_turn_def)
    qed
  next
    case p: (Inr q)
    obtain rep i where q: "q = (rep, i)" by force
    show ?thesis
    proof (cases "\<exists>br. representations sm rep = Some br \<and> \<not> (i < 1 \<or> i > segment_count sm)")
      case True
      then obtain br where br: "representations sm rep = Some br" "\<not> (i < 1 \<or> i > segment_count sm)" by blast
      then have "turn_step sm hl = ?h\<lparr>h_phase := HLookup rep i br\<rparr>" using r p q by (simp add: turn_step_def)
      from small_turn_lookup[OF hl this] br p q show ?thesis by (simp add: serve_request_lookup)
    next
      case False
      then have "turn_step sm hl = refuse 404 Continue ?h" using r p q by (auto simp: turn_step_def Let_def split: option.splits)
      from refused[OF this] False p q show ?thesis by (auto simp: serve_request_lookup split: option.splits)
    qed
  qed
qed

lemma turn_steps:
  assumes "h_phase hl = HTurn" and "serve_turn h sm sh (h_conn hl) = (t, sh', c')"
  shows "\<exists>n hl'. handler_steps (Suc n) h sm sh hl = (sh', hl') \<and> h_conn hl' = c' \<and> h_phase hl' = after_turn t"
proof -
  obtain r ib where r: "read_request_line (conn_inbox (h_conn hl)) = (r, ib)" by force
  have "small_turn h sm sh hl (t, sh', c')"
  proof (cases r)
    case (Inl e)
    let ?h = "hl\<lparr>h_conn := (h_conn hl)\<lparr>conn_inbox := ib\<rparr>\<rparr>" and ?t = "if e = RequestError \<or> e = NotFoundError then Break else Raise e"
    have "(t, sh', c') = (?t, sh, h_conn ?h)" using r assms(2) Inl by (auto simp: serve_turn_def Let_def split: if_splits)
    moreover have "turn_step sm hl = ?h\<lparr>h_phase := HEnd ?t\<rparr>" using r Inl by (simp add: turn_step_def)
    ultimately show ?thesis using small_turn_one[OF assms(1)] by (auto simp: after_turn_def split: if_splits)
  next
    case (Inr line)
    then show ?thesis using small_turn_request[OF assms(1), of line ib h sm sh] r assms(2) by (simp add: serve_turn_def)
  qed
  then show ?thesis by (simp add: small_turn_def)
qed

section \<open>Stopping\<close>

text \<open>The accept loops that may still bring a handler when no more are asked for.\<close>

definition coming :: "server_sys \<Rightarrow> acceptor \<Rightarrow> bool" where
  "coming s a \<longleftrightarrow>
     (case a of
        AGot _ \<Rightarrow> True
      | AAccept k \<Rightarrow> socket_open (sys_sockets s) k
      | ALoad \<Rightarrow> (case v_sock (sys_server s) of None \<Rightarrow> False | Some k \<Rightarrow> socket_open (sys_sockets s) k)
      | _ \<Rightarrow> False)"

definition expected_handlers :: "server_sys \<Rightarrow> nat" where
  "expected_handlers s = length (sys_handlers s) + length (filter (coming s) (sys_acceptors s))"

definition quiet_step :: "host \<Rightarrow> segment_manager \<Rightarrow> server_sys \<Rightarrow> server_sys \<Rightarrow> bool" where
  "quiet_step h sm s t \<longleftrightarrow> server_step h sm s t \<and> \<not> v_accepting (sys_server s) \<and> \<not> v_accepting (sys_server t)"

lemma filter_update_length:
  "i < length xs \<Longrightarrow> length (filter P (xs[i := y])) + (if P (xs ! i) then 1 else 0) = length (filter P xs) + (if P y then 1 else 0)"
proof (induction xs arbitrary: i)
  case (Cons x xs)
  then show ?case by (cases i) auto
qed simp

lemma filter_weaken_length: "(\<And>x. P x \<Longrightarrow> Q x) \<Longrightarrow> length (filter P xs) \<le> length (filter Q xs)"
  by (induction xs) auto

lemma socket_open_close: "socket_open (socks[k := False]) j \<Longrightarrow> socket_open socks j"
  by (cases "k = j") (auto simp: socket_open_def)

lemma server_stop_coming: "coming (server_stop s) a \<Longrightarrow> coming s a"
  by (cases "sys_main s"; cases "v_sock (sys_server s)")
    (auto simp: coming_def server_stop_def split: acceptor.splits option.splits dest: socket_open_close)

lemma server_stop_fields: "sys_handlers (server_stop s) = sys_handlers s" "sys_acceptors (server_stop s) = sys_acceptors s"
  by (simp_all add: server_stop_def split: prod.split)

lemma coming_cong: "sys_sockets t = sys_sockets s \<Longrightarrow> sys_server t = sys_server s \<Longrightarrow> coming t = coming s"
  by (rule ext) (simp add: coming_def split: acceptor.split option.split)

lemma acceptor_step_coming:
  "acceptor_step r (sys_server s) (sys_sockets s) a = (a', hs) \<Longrightarrow> \<not> v_accepting (sys_server s) \<Longrightarrow>
   length hs + (if coming s a' then 1 else 0) \<le> (if coming s a then 1 else (0::nat))"
  by (cases a) (auto simp: coming_def accept_result_def split: option.splits accepted.splits if_splits)

lemma quiet_step_expected: "quiet_step h sm s t \<Longrightarrow> expected_handlers t \<le> expected_handlers s"
  unfolding quiet_step_def
proof (elim conjE, erule server_step.cases, goal_cases)
  case (3 s0)
  have "length (filter (coming (server_stop s)) (sys_acceptors s)) \<le> length (filter (coming s) (sys_acceptors s))"
    by (rule filter_weaken_length) (rule server_stop_coming)
  then show ?case using 3 by (simp add: expected_handlers_def server_stop_fields)
next
  case (4 i s0 r a hs)
  have "coming t = coming s" by (rule coming_cong) (simp_all add: 4)
  then show ?case using 4 filter_update_length[of i "sys_acceptors s" "coming s" a]
      acceptor_step_coming[of r s "sys_acceptors s ! i" a hs]
    by (auto simp: expected_handlers_def split: if_splits)
next
  case (5 i s0 sh' hl')
  have "coming t = coming s" by (rule coming_cong) (simp_all add: 5)
  then show ?case using 5 by (simp add: expected_handlers_def)
qed (auto simp: server_start_def)

lemma quiet_run_expected: "(quiet_step h sm)\<^sup>*\<^sup>* s t \<Longrightarrow> expected_handlers t \<le> expected_handlers s"
  by (induction rule: rtranclp_induct) (auto dest: quiet_step_expected)

section \<open>Properties\<close>

text \<open>C6: Many clients at once: in every interleaving of the accept loops, of \<open>start\<close>, \<open>stop\<close> and
  \<open>serve_forever\<close>, and of any number of handlers, the shared cache agrees with the store, every client has
  received complete responses that agree with the store (a handler that has ended because a send failed, and only that one,
  has perhaps begun one more such response and broken it off), and the shared statistics are exactly the sums over all handlers: no update is lost.\<close>

theorem server_many_clients:
  assumes "reachable server_begins (server_step h sm) s"
  shows "cache_ok h sm (sh_cache (sys_shared s)) \<and> list_all (handler_ok h sm) (sys_handlers s)
    \<and> stat_of (sh_stats (sys_shared s)) (u ''segments_sent'') = total_over (\<lambda>hl. segments_in (counted hl)) (sys_handlers s)
    \<and> stat_of (sh_stats (sys_shared s)) (u ''bytes_sent'') = total_over (\<lambda>hl. bytes_in (counted hl)) (sys_handlers s)"
  using server.always[OF assms] by (simp only: server_inv_def)

text \<open>A server that is started and accepts a client.\<close>

definition polite :: conn where
  "polite = \<lparr>conn_inbox = [], sent = [], sends_left = None, cut = 0, conn_closed = False\<rparr>"

definition small_store :: segment_manager where
  "small_store = \<lparr>segment_count = 60, segment_duration = Finite 2, representations = LADDER_BY_REP\<rparr>"

definition started :: server_sys where
  "started = server_start 9000 (server_init [] 0 16)"

definition accepting_sys :: "acceptor \<Rightarrow> handler list \<Rightarrow> server_sys" where
  "accepting_sys a hs = started\<lparr>sys_acceptors := [a], sys_handlers := hs\<rparr>"

lemma started_fields: "sys_acceptors started = [ABegin]" "sys_handlers started = []" "sys_main started = MIdle"
  "v_sock (sys_server started) = Some 0" "v_accepting (sys_server started)"
  "sys_sockets started = [True]"
  by (simp_all add: started_def server_start_def server_init_def)

lemma accepting_sys_step: "acceptor_step r (sys_server started) [True] a = (a', hs') \<Longrightarrow>
    server_step h sm (accepting_sys a hs) (accepting_sys a' (hs @ hs'))"
  using server_step.accept[of 0 "accepting_sys a hs" r a' hs' h sm] by (simp add: accepting_sys_def started_fields)

lemma accepting_reachable:
  "reachable server_begins (server_step h sm) (accepting_sys ABegin [])"
  "reachable server_begins (server_step h sm) (accepting_sys ALoad [])"
  "reachable server_begins (server_step h sm) (accepting_sys ATest [new_handler c])"
proof -
  let ?R = "reachable server_begins (server_step h sm)"
  have "?R (server_init [] 0 16)" by (rule reach_init) (auto simp: server_begins_def)
  then have "?R started" unfolding started_def by (rule reach_step) (rule server_step.start, simp add: server_init_def)
  moreover have "accepting_sys ABegin [] = started" by (simp add: accepting_sys_def started_def server_start_def server_init_def)
  ultimately show b: "?R (accepting_sys ABegin [])" by simp
  have "server_step h sm (accepting_sys ABegin []) (accepting_sys ATest ([] @ []))"
    by (rule accepting_sys_step) (simp add: started_fields)
  with b have t: "?R (accepting_sys ATest [])" by (simp add: reach_step)
  have "server_step h sm (accepting_sys ATest []) (accepting_sys ALoad ([] @ []))"
    by (rule accepting_sys_step) (simp add: started_fields)
  with t show l: "?R (accepting_sys ALoad [])" by (simp add: reach_step)
  have "server_step h sm (accepting_sys ALoad []) (accepting_sys (AAccept 0) ([] @ []))"
    by (rule accepting_sys_step) (simp add: started_fields)
  with l have a: "?R (accepting_sys (AAccept 0) [])" by (simp add: reach_step)
  have "server_step h sm (accepting_sys (AAccept 0) []) (accepting_sys (AGot c) ([] @ []))"
    by (rule accepting_sys_step[of "AConn c"]) (simp add: accept_result_def socket_open_def)
  with a have "?R (accepting_sys (AGot c) [])" by (simp add: reach_step)
  moreover have "server_step h sm (accepting_sys (AGot c) []) (accepting_sys ATest ([] @ [new_handler c]))"
    by (rule accepting_sys_step) simp
  ultimately show "?R (accepting_sys ATest [new_handler c])" by (metis append_Nil reach_step)
qed

definition escaped :: "turn \<Rightarrow> exn option" where
  "escaped t = (case t of Raise e \<Rightarrow> if swallowed e then None else Some e | _ \<Rightarrow> None)"

lemma handler_run_steps:
  "h_phase hl = HTurn \<Longrightarrow> h_conn hl = c \<Longrightarrow> \<exists>n hl' t. handler_steps n h sm sh hl = (fst (snd (handler_run h sm sh c)), hl')
     \<and> h_conn hl' = snd (snd (handler_run h sm sh c)) \<and> h_phase hl' = HEnd t \<and> fst (handler_run h sm sh c) = escaped t"
proof (induction h sm sh c arbitrary: hl rule: handler_run.induct)
  case (1 h sm sh c)
  obtain t sh1 c1 where turn: "serve_turn h sm sh c = (t, sh1, c1)" by (metis prod_cases3)
  then obtain n hl1 where n: "handler_steps n h sm sh hl = (sh1, hl1)" "h_conn hl1 = c1" "h_phase hl1 = after_turn t"
    using turn_steps[of hl h sm sh t sh1 c1] "1.prems" by blast
  show ?case
  proof (cases "t = Continue")
    case True
    then have run: "handler_run h sm sh c = handler_run h sm sh1 c1"
      using turn by (simp add: handler_run.simps[of h sm sh c])
    have "h_phase hl1 = HTurn" using n(3) True by (simp add: after_turn_def)
    from "1.IH"[OF turn[symmetric] True refl this n(2)] obtain m hl' t' where
      "handler_steps m h sm sh1 hl1 = (fst (snd (handler_run h sm sh1 c1)), hl')" "h_conn hl' = snd (snd (handler_run h sm sh1 c1))"
      "h_phase hl' = HEnd t'" "fst (handler_run h sm sh1 c1) = escaped t'" by blast
    then show ?thesis using n(1) unfolding run
      by (intro exI[of _ "n + m"] exI[of _ hl'] exI[of _ t']) (simp add: handler_steps_add)
  next
    case False
    then have p: "h_phase hl1 = HEnd t" using n(3) by (cases t) (simp_all add: after_turn_def)
    have "handler_run h sm sh c = (escaped t, sh1, c1\<lparr>conn_closed := True\<rparr>)"
      using False turn by (cases t) (simp_all add: handler_run.simps[of h sm sh c] escaped_def)
    moreover have "handler_steps (n + Suc 0) h sm sh hl = (sh1, hl1\<lparr>h_conn := c1\<lparr>conn_closed := True\<rparr>\<rparr>)"
      unfolding handler_steps_add n(1) using n(2) p by (simp add: handler_step_def)
    ultimately show ?thesis using p by (intro exI[of _ "n + Suc 0"] exI[of _ "hl1\<lparr>h_conn := c1\<lparr>conn_closed := True\<rparr>\<rparr>"]) simp
  qed
qed

text \<open>So the small steps are the program: a handler whose thread runs without interruption does in small
  steps exactly what \<open>handler_run\<close> does.\<close>

lemma handler_small_steps:
  assumes "h_phase hl = HTurn" and "handler_run h sm sh (h_conn hl) = (e, sh', c')"
  shows "\<exists>n hl' t. handler_steps n h sm sh hl = (sh', hl') \<and> h_conn hl' = c' \<and> h_phase hl' = HEnd t \<and> e = escaped t"
  using handler_run_steps[OF assms(1) refl, of h sm sh] assms(2) by simp

text \<open>The server with one handler and its effect on what is shared; the handler can go on alone.\<close>

definition serving_sys :: "shared \<times> handler \<Rightarrow> server_sys" where
  "serving_sys p = (accepting_sys ATest [snd p])\<lparr>sys_shared := fst p\<rparr>"

lemma serving_reachable:
  "reachable server_begins (server_step h sm) (serving_sys (sh, hl)) \<Longrightarrow>
   reachable server_begins (server_step h sm) (serving_sys (handler_steps n h sm sh hl))"
proof (induction n arbitrary: sh hl)
  case (Suc n)
  obtain sh' hl' where st: "handler_step h sm sh hl = (sh', hl')" by force
  have "server_step h sm (serving_sys (sh, hl)) (serving_sys (sh', hl'))"
    using server_step.handle[of 0 "serving_sys (sh, hl)" h sm sh' hl'] st
    by (simp add: serving_sys_def accepting_sys_def started_def server_start_def server_init_def)
  with Suc show ?case by (simp add: st reach_step)
qed simp

text \<open>A client that asks for one segment and leaves; it gets header and data.\<close>

definition asking :: conn where
  "asking = \<lparr>conn_inbox = [Inr (the_ok (build_request (u ''720p'') 5))], sent = [], sends_left = None, cut = 0, conn_closed = False\<rparr>"

lemma asking_served:
  "\<exists>hdr ca. handler_run file_host sample_store \<lparr>sh_cache = Map.empty, sh_stats = Map.empty\<rparr> asking
     = (None, \<lparr>sh_cache = ca, sh_stats = count_segment sample_segment Map.empty\<rparr>,
        asking\<lparr>conn_inbox := [], sent := [hdr, [7, 13, 10, 255]], conn_closed := True\<rparr>)"
proof -
  let ?sh = "\<lparr>sh_cache = Map.empty, sh_stats = Map.empty\<rparr>" and ?req = "the_ok (build_request (u ''720p'') 5)"
  have req: "build_request (u ''720p'') 5 = Inr ?req" "?req \<noteq> []" by code_simp+
  obtain hdr where hdr: "segment_header sample_segment = Inr hdr" using segment_header_total[OF sample_segment_sendable] by blast
  have c: "concat [] @ ?req = ?req" "\<forall>c\<in>set ([] :: pybytes list). c \<noteq> []" "conn_inbox asking = map Inr [] @ Inr ?req # []"
    "sends_left asking = None" "cache_ok file_host sample_store (sh_cache ?sh)"
    by (simp_all add: asking_def cache_ok_def)
  from serve_turn_segment[OF sample_segment_stored sample_segment_sendable _ req(1) c(1,2) req(2) c(3-5) hdr] obtain ca where
    t: "serve_turn file_host sample_store ?sh asking = (Continue, \<lparr>sh_cache = ca, sh_stats = count_segment sample_segment Map.empty\<rparr>,
      asking\<lparr>conn_inbox := [], sent := [hdr, [7, 13, 10, 255]]\<rparr>)"
    by (auto simp: sample_segment_def asking_def)
  have e: "serve_turn file_host sample_store sh (c\<lparr>conn_inbox := []\<rparr>) = (Break, sh, c\<lparr>conn_inbox := []\<rparr>)" for sh c
    by (simp add: serve_turn_def read_request_line_def read_until_newline.simps Let_def)
  have "handler_run file_host sample_store sh (c\<lparr>conn_inbox := []\<rparr>) = (None, sh, c\<lparr>conn_inbox := [], conn_closed := True\<rparr>)" for sh c
    unfolding handler_run.simps[of _ _ sh "c\<lparr>conn_inbox := []\<rparr>"] e by simp
  from this[of _ "asking\<lparr>sent := [hdr, [7, 13, 10, 255]]\<rparr>"] show ?thesis
    unfolding handler_run.simps[of _ _ ?sh asking] t by (intro exI[of _ hdr] exI[of _ ca]) (simp add: asking_def)
qed

lemma server_many_clients_witness:
  "\<exists>s hl hdr. reachable server_begins (server_step file_host sample_store) s \<and> sys_handlers s = [hl]
    \<and> sent (h_conn hl) = [hdr, [7, 13, 10, 255]] \<and> conn_closed (h_conn hl) \<and> handler_ok file_host sample_store hl
    \<and> segments_in (counted hl) = 1 \<and> bytes_in (counted hl) = 4"
proof -
  let ?sh = "\<lparr>sh_cache = Map.empty, sh_stats = Map.empty\<rparr>"
  obtain hdr ca where run: "handler_run file_host sample_store ?sh (h_conn (new_handler asking))
     = (None, \<lparr>sh_cache = ca, sh_stats = count_segment sample_segment Map.empty\<rparr>,
        asking\<lparr>conn_inbox := [], sent := [hdr, [7, 13, 10, 255]], conn_closed := True\<rparr>)"
    using asking_served by (auto simp: new_handler_def asking_def)
  from handler_small_steps[OF _ run] obtain n hl where n:
    "handler_steps n file_host sample_store ?sh (new_handler asking) = (\<lparr>sh_cache = ca, sh_stats = count_segment sample_segment Map.empty\<rparr>, hl)"
    "h_conn hl = asking\<lparr>conn_inbox := [], sent := [hdr, [7, 13, 10, 255]], conn_closed := True\<rparr>"
    by (auto simp: new_handler_def)
  let ?s = "serving_sys (\<lparr>sh_cache = ca, sh_stats = count_segment sample_segment Map.empty\<rparr>, hl)"
  have "serving_sys (?sh, new_handler asking) = accepting_sys ATest [new_handler asking]"
    by (simp add: serving_sys_def accepting_sys_def started_def server_start_def server_init_def)
  then have r: "reachable server_begins (server_step file_host sample_store) ?s"
    using serving_reachable[of file_host sample_store ?sh "new_handler asking" n] accepting_reachable(3) n(1) by simp
  have "sys_handlers ?s = [hl]" "sh_stats (sys_shared ?s) = count_segment sample_segment Map.empty"
    by (simp_all add: serving_sys_def accepting_sys_def)
  moreover have "stat_of (count_segment sample_segment Map.empty) (u ''segments_sent'') = 1"
    "stat_of (count_segment sample_segment Map.empty) (u ''bytes_sent'') = 4"
    unfolding stat_of_count by (simp_all add: stat_of_def sample_segment_def)
  ultimately show ?thesis using server_many_clients[OF r] r n(2)
    by (intro exI[of _ ?s] exI[of _ hl] exI[of _ hdr]) (simp add: total_over_def del: u_simps)
qed

text \<open>C35: \<open>stop\<close> stops the accepting: from the moment the flag is cleared until the server is started again,
  whatever connections arrive and however the threads interleave, no more handlers are started than
  there are accept loops that were already past their test with the socket still open, or had just got a
  connection.\<close>

theorem server_stop_bounds_handlers:
  assumes "(quiet_step h sm)\<^sup>*\<^sup>* s t"
  shows "length (sys_handlers t)
    \<le> length (sys_handlers s) + length (filter (coming s) (sys_acceptors s))"
  using quiet_run_expected[OF assms] by (simp add: expected_handlers_def)

definition stopping_sys :: "acceptor \<Rightarrow> handler list \<Rightarrow> server_sys" where
  "stopping_sys a hs = \<lparr>sys_server = (sys_server started)\<lparr>v_accepting := False\<rparr>, sys_sockets = sys_sockets started,
     sys_shared = sys_shared started, sys_main = MClose, sys_acceptors = [a], sys_handlers = hs\<rparr>"

lemma stopping_run: "(quiet_step h sm)\<^sup>*\<^sup>* (stopping_sys (AAccept 0) []) (stopping_sys ATest [new_handler polite])"
proof -
  have "server_step h sm (stopping_sys (AAccept 0) []) (stopping_sys (AGot polite) [])"
    using server_step.accept[of 0 "stopping_sys (AAccept 0) []" "AConn polite" "AGot polite" "[]" h sm]
    by (simp add: stopping_sys_def started_fields accept_result_def socket_open_def)
  moreover have "server_step h sm (stopping_sys (AGot polite) []) (stopping_sys ATest [new_handler polite])"
    using server_step.accept[of 0 "stopping_sys (AGot polite) []" AFail ATest "[new_handler polite]" h sm]
    by (simp add: stopping_sys_def)
  ultimately have "quiet_step h sm (stopping_sys (AAccept 0) []) (stopping_sys (AGot polite) [])"
    "quiet_step h sm (stopping_sys (AGot polite) []) (stopping_sys ATest [new_handler polite])"
    by (simp_all add: quiet_step_def stopping_sys_def)
  then show ?thesis by (meson converse_rtranclp_into_rtranclp rtranclp.rtrancl_refl)
qed

lemma server_stop_bounds_handlers_witness:
  "length (sys_handlers (stopping_sys ATest [new_handler polite])) \<le> length (sys_handlers (stopping_sys (AAccept 0) []))
      + length (filter (coming (stopping_sys (AAccept 0) [])) (sys_acceptors (stopping_sys (AAccept 0) [])))"
  by (rule server_stop_bounds_handlers[OF stopping_run])

section \<open>A race\<close>

text \<open>When \<open>stop\<close> runs between the test of the accept loop and its reading of \<open>self._sock\<close>, the loop
  finds no socket, and the exception that this raises is not one that it catches.\<close>

lemma accept_after_stop:
  "\<exists>s. reachable server_begins (server_step h sm) s \<and> sys_acceptors s = [AEnd (Some AttributeError)]"
proof -
  let ?R = "reachable server_begins (server_step h sm)"
  have n: "?R s \<Longrightarrow> ?R (server_stop s)" for s
    by (erule reach_step) (rule server_step.stop)
  let ?s = "server_stop (server_stop (server_stop (accepting_sys ALoad [])))"
  have f: "sys_acceptors ?s = [ALoad]" "v_sock (sys_server ?s) = None"
    by (simp_all add: server_stop_def accepting_sys_def started_def server_start_def server_init_def)
  have "server_step h sm ?s (?s\<lparr>sys_acceptors := (sys_acceptors ?s)[0 := AEnd (Some AttributeError)],
      sys_handlers := sys_handlers ?s @ []\<rparr>)"
    by (rule server_step.accept[of 0 _ AFail]) (simp_all add: f)
  then have "?R (?s\<lparr>sys_acceptors := (sys_acceptors ?s)[0 := AEnd (Some AttributeError)], sys_handlers := sys_handlers ?s @ []\<rparr>)"
    by (rule reach_step[OF n[OF n[OF n[OF accepting_reachable(2)]]]])
  then show ?thesis by (intro exI conjI) (assumption, simp add: f)
qed

end
