(* ===== verification/ServedSession.thy ===== *)
theory ServedSession
  imports Session
begin

text \<open>
  A whole session against the server: \<open>run_session\<close> of \<open>client/client.py\<close> at one end of a connection and
  \<open>handler_run\<close> of \<open>server/connection_handler.py\<close> at the other.  The lemmas show that what the client does
  depends on the connection only through the segments it fetches, that no step of the loop can then
  fail, and that the responses the handler sends to the client's requests are the ones fetched.
\<close>

section \<open>Steps that do not look at the connection\<close>

definition with_client :: "socket_client \<Rightarrow> session \<Rightarrow> session" where
  "with_client c s = s\<lparr>ss_downloader := (ss_downloader s)\<lparr>dl_client := c\<rparr>\<rparr>"

lemma with_client_fields [simp]:
  "ss_abr (with_client c s) = ss_abr s" "ss_ewma (with_client c s) = ss_ewma s" "ss_scheduler (with_client c s) = ss_scheduler s"
  "ss_collector (with_client c s) = ss_collector s" "ss_index (with_client c s) = ss_index s"
  "ss_qualities (with_client c s) = ss_qualities s" "ss_switches (with_client c s) = ss_switches s"
  "ss_world (with_client c s) = ss_world s" "ss_levels (with_client c s) = ss_levels s" "ss_reads (with_client c s) = ss_reads s"
  "ss_puts (with_client c s) = ss_puts s" "ss_downloader (with_client c s) = (ss_downloader s)\<lparr>dl_client := c\<rparr>"
  "with_client c (with_client c' s) = with_client c s"
  by (simp_all add: with_client_def)

definition offline :: "(session, 'a) act \<Rightarrow> bool" where
  "offline m \<longleftrightarrow> (\<forall>c s. m (with_client c s) = (fst (m s), with_client c (snd (m s))))"

named_theorems offline_steps

lemma offline_then_do [offline_steps]:
  assumes "offline m" and "\<And>x. offline (f x)"
  shows "offline (then_do m f)"
  unfolding offline_def
proof (intro allI)
  fix c s
  obtain r s1 where m: "m s = (r, s1)" by force
  then have "m (with_client c s) = (r, with_client c s1)" using assms(1) by (simp add: offline_def)
  then show "then_do m f (with_client c s) = (fst (then_do m f s), with_client c (snd (then_do m f s)))"
    using m assms(2) by (cases r) (simp_all add: then_do_def offline_def)
qed

lemma offline_prod [offline_steps]: "(\<And>a b. offline (f a b)) \<Longrightarrow> offline (case p of (a, b) \<Rightarrow> f a b)"
  by (cases p) simp

lemma with_client_updates:
  "with_client c (s\<lparr>ss_reads := n\<rparr>) = (with_client c s)\<lparr>ss_reads := n\<rparr>"
  "with_client c (s\<lparr>ss_world := w\<rparr>) = (with_client c s)\<lparr>ss_world := w\<rparr>"
  "with_client c (s\<lparr>ss_ewma := e\<rparr>) = (with_client c s)\<lparr>ss_ewma := e\<rparr>"
  "with_client c (s\<lparr>ss_scheduler := sch\<rparr>) = (with_client c s)\<lparr>ss_scheduler := sch\<rparr>"
  "with_client c (s\<lparr>ss_collector := mc\<rparr>) = (with_client c s)\<lparr>ss_collector := mc\<rparr>"
  "with_client c (s\<lparr>ss_abr := a\<rparr>) = (with_client c s)\<lparr>ss_abr := a\<rparr>"
  "with_client c (s\<lparr>ss_index := i\<rparr>) = (with_client c s)\<lparr>ss_index := i\<rparr>"
  "with_client c (s\<lparr>ss_switches := n'\<rparr>) = (with_client c s)\<lparr>ss_switches := n'\<rparr>"
  "with_client c (s\<lparr>ss_qualities := qs\<rparr>) = (with_client c s)\<lparr>ss_qualities := qs\<rparr>"
  "with_client c (s\<lparr>ss_puts := ps\<rparr>) = (with_client c s)\<lparr>ss_puts := ps\<rparr>"
  by (simp_all add: with_client_def)

lemma offline_plain [offline_steps]:
  "offline read_level" "offline read_time" "offline read_monotonic" "offline (update_ewma t)" "offline (collect f)"
  "offline (wait_for_room d)"
  "offline (\<lambda>s. collect (record_segment (row (abr_name (ss_abr s)))) s)"
  "offline (\<lambda>s. return_of (bitrate_of (ss_index s) (abr_ladder (ss_abr s))) (s\<lparr>ss_switches := ss_switches s + 1\<rparr>))"
  "offline (\<lambda>s. return_of (quality_of i (abr_ladder (ss_abr s))) s)" "offline (\<lambda>s. (Ret x, s\<lparr>ss_index := j\<rparr>))"
  "offline (\<lambda>s. (Ret (), s\<lparr>ss_qualities := ss_qualities s @ [q]\<rparr>))" "offline (\<lambda>s. (Ret (), s\<lparr>ss_puts := ss_puts s @ [p]\<rparr>))"
  by (simp_all add: offline_def read_level_def read_time_def read_monotonic_def update_ewma_def collect_def return_of_def
      wait_for_room_def wall_time_def monotonic_def case_prod_beta with_client_updates split: sum.split option.split)

lemma offline_ops [offline_steps]:
  "offline (ask_scheduler i)" "offline (decide k)" "offline (note_switch k i br)" "offline (note_quality i)"
  "offline (put_segment k rep br res)"
proof -
  show "offline (ask_scheduler i)" unfolding ask_scheduler_def
    by (intro offline_steps) (simp add: offline_def case_prod_beta with_client_updates)
  show "offline (decide k)" unfolding decide_def
    by (intro offline_steps) (auto simp: offline_def state_of_def then_do_def return_of_def with_client_updates split: sum.split)
  have guard: "offline (\<lambda>s. if i \<noteq> ss_index s then m s else (Ret False, s))" if "offline m" for m
    using that by (simp add: offline_def)
  show "offline (note_switch k i br)" unfolding note_switch_def by (rule guard) (intro offline_steps)
  show "offline (note_quality i)" unfolding note_quality_def by (intro offline_steps)
  show "offline (put_segment k rep br res)"
  proof (cases "sd_duration res")
    case (Finite d)
    have "offline (then_do read_time (\<lambda>t. then_do (wait_for_room (or_two d)) (\<lambda>_ s. (Ret (), s\<lparr>ss_puts := ss_puts s @
        [\<lparr>bs_segment = k, bs_rep = rep, bs_bitrate = br, bs_duration = or_two d, bs_size = sd_size res,
          received_at = t\<rparr>]\<rparr>))))"
      by (intro offline_steps)
    then show ?thesis using Finite by (simp add: offline_def put_segment_def)
  qed (simp_all add: offline_def put_segment_def)
qed

lemma offline_Ret: "offline m \<Longrightarrow> m s = (Ret x, s') \<Longrightarrow> m (with_client c s) = (Ret x, with_client c s')"
  by (simp add: offline_def)

section \<open>No step of the loop fails\<close>

definition shaper_ready :: "network_shaper option \<Rightarrow> bool" where
  "shaper_ready sh \<longleftrightarrow> (case sh of None \<Rightarrow> True | Some s \<Rightarrow> timeline s \<noteq> [])"

lemma shape_before_client: "shape_before (d\<lparr>dl_client := c\<rparr>) w =
    ((fst (shape_before d w))\<lparr>dl_client := c\<rparr>, snd (shape_before d w))"
  by (simp add: shape_before_def case_prod_beta split: option.split)

lemma shape_after_client: "shape_after st n e (d\<lparr>dl_client := c\<rparr>) w =
    (case shape_after st n e d w of (r, d', w') \<Rightarrow> (r, d'\<lparr>dl_client := c\<rparr>, w'))"
  by (simp add: shape_after_def case_prod_beta split: option.split)

lemma shape_before_ready: "shaper_ready (dl_shaper d) \<Longrightarrow> shaper_ready (dl_shaper (fst (shape_before d w)))"
  by (auto simp: shape_before_def shaper_ready_def shaper_start_def case_prod_beta split: option.splits)

lemma shape_after_ready:
  assumes "shaper_ready (dl_shaper d)"
  shows "\<exists>t d' w'. shape_after st n e d w = (Inr t, d', w') \<and> shaper_ready (dl_shaper d')"
proof (cases "dl_shaper d")
  case (Some s)
  then have "timeline s \<noteq> []" using assms by (simp add: shaper_ready_def)
  then obtain cap s1 w1 where c: "current_cap_bps s w = (Inr cap, s1, w1)" "timeline s1 \<noteq> []"
    by (cases "sh_start s") (auto simp: current_cap_bps_def shaper_start_def case_prod_beta py_nth_in_range)
  then show ?thesis using Some assms
    by (auto simp: shape_after_def apply_download_delay_def shaper_ready_def Let_def)
qed (use assms in \<open>simp add: shape_after_def\<close>)

text \<open>Again and again some look of \<open>put\<close> finds room for \<open>d\<close> seconds.\<close>

definition roomy :: "(nat \<Rightarrow> real) \<Rightarrow> real \<Rightarrow> bool" where
  "roomy levels d \<longleftrightarrow> (\<forall>n. \<exists>k\<ge>n. \<not> full_at levels d k)"

lemma roomy_first: "roomy levels d \<Longrightarrow> \<exists>m. first_room levels d n = Some m"
  using first_room_None[of levels d n] by (auto simp: roomy_def)

lemma roomy_no_level: "d \<le> 60 \<Longrightarrow> roomy (\<lambda>_. 0) d"
  using fl_le_numeral[of d "num.Bit0 (num.Bit0 (num.Bit1 (num.Bit1 (num.Bit1 num.One))))"]
  by (auto simp: roomy_def full_at_def config_defs not_less)

text \<open>What the rest of the loop body needs to go through; the levels are the readings \<open>lv\<close>.\<close>

definition alive :: "(nat \<Rightarrow> real) \<Rightarrow> buffered_segment list \<Rightarrow> session \<Rightarrow> bool" where
  "alive lv ps s \<longleftrightarrow> ss_levels s = lv \<and> ss_puts s = ps \<and> is_open (ss_collector s)
     \<and> session_id (ss_collector s) \<noteq> None \<and> abr_ladder (ss_abr s) = DEFAULT_LADDER
     \<and> 0 \<le> ss_index s \<and> ss_index s < 4 \<and> shaper_ready (dl_shaper (ss_downloader s))"

lemma alive_with_client [simp]: "alive lv ps (with_client c s) = alive lv ps s"
  by (simp add: alive_def)

definition surely :: "('s, 'a) act \<Rightarrow> ('a \<Rightarrow> 's \<Rightarrow> bool) \<Rightarrow> 's \<Rightarrow> bool" where
  "surely m Q s \<longleftrightarrow> wp m Q (\<lambda>_. False) s"

lemma surely_iff: "surely m Q s \<longleftrightarrow> (\<exists>x s'. m s = (Ret x, s') \<and> Q x s')"
  by (auto simp: surely_def wp_def split: prod.splits outcome.splits)

lemma surely_bind: "surely m Q' s \<Longrightarrow> (\<And>x s'. Q' x s' \<Longrightarrow> surely (f x) Q s') \<Longrightarrow> surely (then_do m f) Q s"
  unfolding surely_def by (rule wp_bind)

lemma surely_mono: "surely m Q' s \<Longrightarrow> (\<And>x s'. Q' x s' \<Longrightarrow> Q x s') \<Longrightarrow> surely m Q s"
  unfolding surely_def by (rule wp_mono)

lemma surely_state: "surely (f s) Q s \<Longrightarrow> surely (\<lambda>s. f s s) Q s"
  by (simp add: surely_def wp_def)

lemma download_served:
  assumes "alive lv ps s" and "STATUS header = 200" and "DURATION header = Finite d"
  shows "\<exists>res s'. alive lv ps s' \<and> sd_duration res = Finite d \<and> sd_size res = int (length data)
    \<and> (\<forall>c c'. fetch rep k c = (Inr (header, data), c') \<longrightarrow>
         download_checked rep k (with_client c s) = (Ret res, with_client c' s'))"
proof -
  obtain d1 w1 where b: "shape_before (ss_downloader s) (ss_world s) = (d1, w1)" by force
  obtain t0 w2 where p1: "perf_counter w1 = (t0, w2)" by force
  obtain t1 w3 where p2: "perf_counter w2 = (t1, w3)" by force
  have "shaper_ready (dl_shaper d1)"
    using assms(1) b shape_before_ready[of "ss_downloader s" "ss_world s"] by (simp add: alive_def)
  then obtain e d2 w4 where a: "shape_after 200 (int (length data)) (fl (t1 - t0)) d1 w3 = (Inr e, d2, w4)"
    "shaper_ready (dl_shaper d2)"
    using shape_after_ready by blast
  let ?res = "\<lparr>sd_rep = rep, sd_segment = k, sd_bitrate = BITRATE header, sd_duration = DURATION header,
     sd_size = int (length data), sd_download_time = e, sd_throughput = throughput_of (int (length data)) e,
     sd_data = data, sd_status = STATUS header\<rparr>"
  let ?s = "s\<lparr>ss_downloader := d2, ss_world := w4\<rparr>"
  have "download_checked rep k (with_client c s) = (Ret ?res, with_client c' ?s)"
    if "fetch rep k c = (Inr (header, data), c')" for c c'
    using that b p1 p2 a(1) assms(2)
    by (simp add: download_checked_def download_def shape_before_client shape_after_client Let_def)
  moreover have "alive lv ps ?s" using assms(1) a(2) by (simp add: alive_def)
  ultimately show ?thesis using assms(3) by (intro exI[of _ ?res] exI[of _ ?s]) simp
qed

section \<open>The loop body in two parts\<close>

text \<open>What \<open>one_segment\<close> does after the download.\<close>

definition after_download :: "pystr \<Rightarrow> int \<Rightarrow> int \<Rightarrow> pystr \<Rightarrow> int \<Rightarrow> real \<Rightarrow> segment_download \<Rightarrow> (session, unit) act" where
  "after_download profile k index rep br before result =
     then_do read_level (\<lambda>_.
     then_do (update_ewma (sd_throughput result)) (\<lambda>ewma_value.
     then_do (note_switch k index br) (\<lambda>switch.
     then_do (put_segment k rep br result) (\<lambda>_.
     then_do read_level (\<lambda>after.
     then_do (note_quality index) (\<lambda>_.
     then_do read_time (\<lambda>now s.
       collect (record_segment
         \<lparr>timestamp = now, m_segment = k, m_rep = rep, m_bitrate = br, m_size = sd_size result,
          download_time = sd_download_time result, instant_throughput = sd_throughput result,
          ewma_throughput = ewma_value, buffer_before = before, buffer_after = after,
          quality_switch = switch, rebuffer_event = False, rebuffer_duration = 0,
          network_profile = profile, m_abr = abr_name (ss_abr s)\<rparr>) s)))))))"

lemma one_segment_split:
  "one_segment profile i =
     then_do (ask_scheduler i) (\<lambda>k. then_do (decide k) (\<lambda>(index, rep, br). then_do read_level (\<lambda>before.
     then_do (download_checked rep k) (after_download profile k index rep br before))))"
  by (simp add: one_segment_def after_download_def[abs_def])

lemma offline_after_download: "offline (after_download profile k index rep br before result)"
  unfolding after_download_def by (intro offline_steps)

lemma surely_plain:
  assumes "alive lv ps s"
  shows "surely read_level (\<lambda>_. alive lv ps) s" "surely read_time (\<lambda>_. alive lv ps) s" "surely (update_ewma t) (\<lambda>_. alive lv ps) s"
  using assms by (simp_all add: surely_def wp_def read_level_def read_time_def wall_time_def update_ewma_def alive_def case_prod_beta)

lemma surely_note_switch:
  assumes "alive lv ps s" and "0 \<le> i" "i < 4" and "sql_int k" "sql_int br"
  shows "surely (note_switch k i br) (\<lambda>_. alive lv ps) s"
proof -
  have "bitrate_of (ss_index s) DEFAULT_LADDER = Inr (rung_bitrate (ss_index s))"
    using assms(1) by (intro rung_ops) (simp_all add: alive_def)
  moreover have "sql_int (rung_bitrate (ss_index s))"
    using assms(1) rung_cases[of "ss_index s"] by (auto simp: alive_def rung_bitrate_def DEFAULT_LADDER_def sql_int_def)
  ultimately show ?thesis using assms
    by (simp add: surely_def wp_def note_switch_def then_do_def return_of_def collect_def record_switch_def guarded_def
        alive_def Let_def)
qed

lemma surely_put_segment: "alive lv ps s \<Longrightarrow> sd_duration res = Finite d \<Longrightarrow> roomy lv (or_two d) \<Longrightarrow>
   surely (put_segment k rep br res) (\<lambda>_ s'. \<exists>p. bs_segment p = k \<and> bs_rep p = rep \<and> bs_size p = sd_size res
      \<and> bs_duration p = or_two d \<and> alive lv (ps @ [p]) s') s"
  using roomy_first[of "ss_levels s" "or_two d" "ss_reads s"]
  by (auto simp: surely_def wp_def put_segment_def then_do_def read_time_def wall_time_def wait_for_room_def alive_def)

lemma surely_note_quality: "alive lv ps s \<Longrightarrow> 0 \<le> i \<Longrightarrow> i < 4 \<Longrightarrow> surely (note_quality i) (\<lambda>_. alive lv ps) s"
  using rung_ops(3)[of i] by (simp add: surely_def wp_def note_quality_def then_do_def return_of_def alive_def)

lemma surely_record_segment:
  "alive lv ps s \<Longrightarrow> sql_int (m_segment row) \<Longrightarrow> sql_int (m_bitrate row) \<Longrightarrow> sql_int (m_size row) \<Longrightarrow>
   surely (collect (record_segment row)) (\<lambda>_. alive lv ps) s"
  by (auto simp: surely_def wp_def collect_def record_segment_def guarded_def return_of_def alive_def Let_def)

lemma surely_after_download:
  assumes "alive lv ps s" and "0 \<le> i" "i < 4" and "sql_int k" "sql_int br" "sql_int (sd_size res)" and "sd_duration res = Finite d"
    and "roomy lv (or_two d)"
  shows "surely (after_download prof k i rep br before res)
    (\<lambda>_ s'. \<exists>p. bs_segment p = k \<and> bs_rep p = rep \<and> bs_size p = sd_size res
      \<and> bs_duration p = or_two d \<and> alive lv (ps @ [p]) s') s"
  unfolding after_download_def
  apply (rule surely_bind, rule surely_plain(1)[OF assms(1)])
  apply (rule surely_bind, erule surely_plain(3))
  apply (rule surely_bind, erule surely_note_switch[OF _ assms(2-5)])
  apply (rule surely_bind, erule surely_put_segment[OF _ assms(7,8)], elim exE conjE)
  apply (rule surely_bind, erule surely_plain(1))
  apply (rule surely_bind, erule surely_note_quality[OF _ assms(2,3)])
  apply (rule surely_bind, erule surely_plain(2))
  apply (rule surely_state, rule surely_mono, erule surely_record_segment)
     apply (simp_all add: assms(4-6))
  apply blast
  done

section \<open>The loop against the store\<close>

text \<open>A store that has every segment of the ladder, in a form that the wire format can carry.\<close>

definition store_serves :: "host \<Rightarrow> segment_manager \<Rightarrow> bool" where
  "store_serves h sm \<longleftrightarrow> (\<exists>d. segment_duration sm = Finite d)
     \<and> (\<forall>rep\<in>set (map fst DEFAULT_LADDER). \<forall>i. 1 \<le> i \<and> i \<le> segment_count sm \<longrightarrow>
          (\<exists>seg. resolve_fresh h sm (rep, i) = Inr (Some seg) \<and> seg_sendable seg))"

definition seconds_of :: "segment \<Rightarrow> real" where
  "seconds_of seg = (case seg_duration seg of Finite d \<Rightarrow> or_two d | _ \<Rightarrow> 0)"

definition matches :: "buffered_segment \<Rightarrow> segment \<Rightarrow> bool" where
  "matches p seg \<longleftrightarrow> bs_segment p = seg_id seg \<and> bs_rep p = seg_rep seg \<and> bs_size p = int (length (seg_data seg))
     \<and> bs_duration p = seconds_of seg"

definition fetch_gives :: "segment \<Rightarrow> socket_client \<Rightarrow> socket_client \<Rightarrow> bool" where
  "fetch_gives seg c c' \<longleftrightarrow> fetch (seg_rep seg) (seg_id seg) c = (Inr (served_header seg, seg_data seg), c')"

lemma request_total: "rep \<in> dom LADDER_BY_REP \<Longrightarrow> 0 \<le> i \<Longrightarrow> \<exists>req. build_request rep i = Inr req"
  using rep_in_ladder_chars[of rep] build_request_bytes[of rep i] by blast

lemma fetch_gives_stream:
  assumes "seg_sendable seg" and "0 \<le> seg_id seg" and "sock c = Some s" "sends_left s = None"
    and "buf c @ stream (conn_inbox s) = concat (response_sends (Served seg)) @ rest"
  shows "\<exists>c' s' req. fetch_gives seg c c' \<and> build_request (seg_rep seg) (seg_id seg) = Inr req
    \<and> sock c' = Some s' \<and> sends_left s' = None \<and> sent s' = sent s @ [req] \<and> buf c' @ stream (conn_inbox s') = rest"
proof -
  obtain req where req: "build_request (seg_rep seg) (seg_id seg) = Inr req"
    using request_total[of "seg_rep seg"] assms(1,2) by (auto simp: seg_sendable_def)
  obtain hdr where hdr: "segment_header seg = Inr hdr" using segment_header_total[OF assms(1)] by blast
  then have "buf c @ stream (conn_inbox s) = hdr @ seg_data seg @ rest" using assms(5) by simp
  from fetch_segment[OF assms(3,4) req assms(1) hdr this] req show ?thesis by (auto simp: fetch_gives_def)
qed

lemma fetch_gives_possible:
  assumes "seg_sendable seg" and "0 \<le> seg_id seg"
  shows "\<exists>c c'. fetch_gives seg c c'"
proof -
  let ?cn = "\<lparr>conn_inbox = [], sent = [], sends_left = None, cut = 0, conn_closed = False\<rparr>"
  show ?thesis
    using fetch_gives_stream[OF assms, of "\<lparr>sock = Some ?cn, buf = concat (response_sends (Served seg))\<rparr>" ?cn "[]"] by auto
qed

lemma session_inv_at_with_client [simp]: "session_inv_at sid prof nm n (with_client c s) = session_inv_at sid prof nm n s"
  by (simp add: session_inv_at_def shape_def)

text \<open>One turn of the loop up to the download: there is a segment of the store, determined by the session, such
  that on every connection that gives this segment the body of the loop goes on from a session that does not
  depend on the connection.\<close>

lemma one_fetched:
  assumes inv: "session_inv_at sid prof nm n s" and al: "alive lv ps s" and st: "store_serves h sm" "segment_duration sm = Finite d"
    and n: "0 \<le> n" "n + 1 \<le> segment_count sm" "n + 1 < 10 ^ 18"
  shows "\<exists>seg res i rep br b s'. resolve_fresh h sm (seg_rep seg, n + 1) = Inr (Some seg) \<and> seg_id seg = n + 1 \<and> seg_sendable seg
    \<and> seg_rep seg = rep \<and> 0 \<le> i \<and> i < 4 \<and> sql_int br \<and> alive lv ps s' \<and> sd_duration res = Finite d
    \<and> seg_duration seg = Finite d \<and> sd_size res = int (length (seg_data seg)) \<and> sql_int (sd_size res)
    \<and> (\<forall>c c'. fetch_gives seg c c' \<longrightarrow>
         one_segment prof n (with_client c s) = after_download prof (n + 1) i rep br b res (with_client c' s'))"
proof -
  obtain ps0 sw qs rows idx where sh: "shape sid prof nm n ps0 sw qs rows idx s" using inv by (auto simp: session_inv_at_def)
  have keep: "ss_collector (snd (ask_scheduler n s)) = ss_collector s" "ss_downloader (snd (ask_scheduler n s)) = ss_downloader s"
    "ss_levels (snd (ask_scheduler n s)) = ss_levels s" "ss_levels (snd (decide k s)) = ss_levels s"
    "ss_collector (snd (decide k s)) = ss_collector s" "ss_downloader (snd (decide k s)) = ss_downloader s" for s k
    by (auto simp: ask_scheduler_def decide_def then_do_def read_monotonic_def read_level_def return_of_def case_prod_beta
        split: sum.split)
  have alive: "alive lv ps t" if "shape sid prof nm (n + 1) ps0 sw qs rows idx t" "ss_collector t = ss_collector s"
    "ss_downloader t = ss_downloader s" "ss_levels t = ss_levels s" for t
    using that sh al by (simp add: alive_def shape_def)
  obtain s1 where s1: "ask_scheduler n s = (Ret (n + 1), s1)" "shape sid prof nm (n + 1) ps0 sw qs rows idx s1"
    using wp_ask_scheduler[OF sh, where E = "\<lambda>_. False"] by (auto simp: surely_def[symmetric] surely_iff)
  obtain i rep br s2 where s2: "decide (n + 1) s1 = (Ret (i, rep, br), s2)" "0 \<le> i" "i < 4"
    "DEFAULT_LADDER ! nat i = (rep, br)" "shape sid prof nm (n + 1) ps0 sw qs rows idx s2"
    using wp_decide[OF s1(2), where k = "n + 1" and E = "\<lambda>_. False"] by (auto simp: surely_def[symmetric] surely_iff)
  have "alive lv ps s2" using keep(1-3)[of s] keep(4-6)[of "n + 1" s1] s1(1) s2(1) by (intro alive[OF s2(5)]) simp_all
  from surely_plain(1)[OF this] obtain b s3 where s3: "read_level s2 = (Ret b, s3)" "alive lv ps s3"
    by (auto simp: surely_iff)
  have "(rep, br) \<in> set DEFAULT_LADDER" using s2(2-4) nth_mem[of "nat i" DEFAULT_LADDER] by (simp add: DEFAULT_LADDER_def)
  then have "rep \<in> set (map fst DEFAULT_LADDER)" "sql_int br" by (auto simp: DEFAULT_LADDER_def sql_int_def)
  then obtain seg where seg: "resolve_fresh h sm (rep, n + 1) = Inr (Some seg)" "seg_sendable seg"
    using st(1) n unfolding store_serves_def by (meson le_add_same_cancel2)
  have f: "seg_rep seg = rep" "seg_id seg = n + 1" "seg_duration seg = Finite d"
    using resolve_fresh_fields[OF seg(1)] st(2) by simp_all
  from download_served[OF s3(2), of "served_header seg" d "seg_data seg" rep "n + 1"] f(3) obtain res s4 where
    s4: "alive lv ps s4" "sd_duration res = Finite d" "sd_size res = int (length (seg_data seg))"
      "\<And>c c'. fetch rep (n + 1) c = (Inr (served_header seg, seg_data seg), c') \<Longrightarrow>
         download_checked rep (n + 1) (with_client c s3) = (Ret res, with_client c' s4)"
    by (auto simp: served_header_def)
  have "sql_int (sd_size res)" using seg(2) s4(3) by (simp add: sql_int_def seg_sendable_def)
  moreover have "one_segment prof n (with_client c s) = after_download prof (n + 1) i rep br b res (with_client c' s4)"
    if "fetch_gives seg c c'" for c c'
    using offline_Ret[OF offline_ops(1) s1(1)] offline_Ret[OF offline_ops(2) s2(1)] offline_Ret[OF offline_plain(1) s3(1)]
      s4(4)[of c c'] that f
    by (simp add: one_segment_split then_do_def fetch_gives_def)
  ultimately show ?thesis using seg f s2(2,3) s4(1-3) \<open>sql_int br\<close>
    by (intro exI[of _ seg] exI[of _ res] exI[of _ i] exI[of _ rep] exI[of _ br] exI[of _ b] exI[of _ s4]) simp
qed

text \<open>The whole turn, when there comes room for the segment.\<close>

lemma one_served:
  assumes inv: "session_inv_at sid prof nm n s" and al: "alive lv ps s" and st: "store_serves h sm" "segment_duration sm = Finite d"
    and room: "roomy lv (or_two d)" and n: "0 \<le> n" "n + 1 \<le> segment_count sm" "n + 1 < 10 ^ 18"
  shows "\<exists>seg p s'. resolve_fresh h sm (seg_rep seg, n + 1) = Inr (Some seg) \<and> seg_id seg = n + 1 \<and> seg_sendable seg
    \<and> session_inv_at sid prof nm (n + 1) s' \<and> alive lv (ps @ [p]) s' \<and> matches p seg
    \<and> (\<forall>c c'. fetch_gives seg c c' \<longrightarrow> one_segment prof n (with_client c s) = (Ret (), with_client c' s'))"
proof -
  from one_fetched[OF inv al st n] obtain seg res i rep br b s4 where
    seg: "resolve_fresh h sm (seg_rep seg, n + 1) = Inr (Some seg)" "seg_id seg = n + 1" "seg_sendable seg" "seg_rep seg = rep"
    and i: "0 \<le> i" "i < 4" "sql_int br" and s4: "alive lv ps s4" "sd_duration res = Finite d" "seg_duration seg = Finite d"
      "sd_size res = int (length (seg_data seg))" "sql_int (sd_size res)"
    and on: "\<And>c c'. fetch_gives seg c c' \<Longrightarrow>
      one_segment prof n (with_client c s) = after_download prof (n + 1) i rep br b res (with_client c' s4)" by blast
  have "sql_int (n + 1)" using n(1,3) by (simp add: sql_int_def)
  from surely_after_download[OF s4(1) i(1,2) this i(3) s4(5,2) room, of prof rep b] obtain p s5 where
    s5: "after_download prof (n + 1) i rep br b res s4 = (Ret (), s5)" "bs_segment p = n + 1" "bs_rep p = rep"
      "bs_size p = sd_size res" "bs_duration p = or_two d" "alive lv (ps @ [p]) s5"
    by (auto simp: surely_iff)
  have run: "one_segment prof n (with_client c s) = (Ret (), with_client c' s5)" if "fetch_gives seg c c'" for c c'
    using on[OF that] offline_Ret[OF offline_after_download s5(1)] by simp
  obtain c c' where "fetch_gives seg c c'" using fetch_gives_possible[OF seg(3)] seg(2) n(1) by auto
  from wp_Ret[OF one_segment_inv run[OF this]] inv have "session_inv_at sid prof nm (n + 1) s5" by simp
  then show ?thesis using seg s4(3,4) s5 run
    by (intro exI[of _ seg] exI[of _ p] exI[of _ s5]) (simp add: matches_def seconds_of_def)
qed

fun fetches :: "segment list \<Rightarrow> socket_client \<Rightarrow> socket_client \<Rightarrow> bool" where
  "fetches [] c c' \<longleftrightarrow> c' = c"
| "fetches (seg # segs) c c' \<longleftrightarrow> (\<exists>c1. fetch_gives seg c c1 \<and> fetches segs c1 c')"

text \<open>The segments are the store's.\<close>

definition from_store :: "host \<Rightarrow> segment_manager \<Rightarrow> segment list \<Rightarrow> bool" where
  "from_store h sm segs \<longleftrightarrow>
     list_all (\<lambda>seg. resolve_fresh h sm (seg_rep seg, seg_id seg) = Inr (Some seg) \<and> seg_sendable seg \<and> 0 \<le> seg_id seg
                 \<and> seg_id seg < 10 ^ 18) segs"

lemma loop_served:
  assumes "store_serves h sm" "segment_duration sm = Finite d" "roomy lv (or_two d)"
  shows "session_inv_at sid prof nm n s \<Longrightarrow> alive lv ps s \<Longrightarrow> 0 \<le> n \<Longrightarrow> n + int k \<le> segment_count sm \<Longrightarrow> n + int k < 10 ^ 18 \<Longrightarrow>
    \<exists>segs qs s'. map seg_id segs = map (\<lambda>i. n + int i + 1) [0..<k] \<and> from_store h sm segs \<and> list_all2 matches qs segs
      \<and> session_inv_at sid prof nm (n + int k) s' \<and> alive lv (ps @ qs) s'
      \<and> (\<forall>c c'. fetches segs c c' \<longrightarrow>
           all_segments prof (map (\<lambda>i. n + int i) [0..<k]) (with_client c s) = (Ret (), with_client c' s'))"
proof (induction k arbitrary: n s ps)
  case 0
  then show ?case by (intro exI[of _ "[]"] exI[of _ s]) (simp add: from_store_def)
next
  case (Suc k)
  have "n + 1 \<le> segment_count sm" "n + 1 < 10 ^ 18" using Suc.prems by linarith+
  from one_served[OF Suc.prems(1,2) assms Suc.prems(3) this] obtain seg p s1 where
    o: "resolve_fresh h sm (seg_rep seg, n + 1) = Inr (Some seg)" "seg_id seg = n + 1" "seg_sendable seg"
      "session_inv_at sid prof nm (n + 1) s1" "alive lv (ps @ [p]) s1" "matches p seg"
      "\<And>c c'. fetch_gives seg c c' \<Longrightarrow> one_segment prof n (with_client c s) = (Ret (), with_client c' s1)"
    by blast
  have "0 \<le> n + 1" "n + 1 + int k \<le> segment_count sm" "n + 1 + int k < 10 ^ 18" using Suc.prems by simp_all
  from Suc.IH[OF o(4,5) this] obtain segs qs s' where
    l: "map seg_id segs = map (\<lambda>i. n + 1 + int i + 1) [0..<k]" "from_store h sm segs" "list_all2 matches qs segs"
      "session_inv_at sid prof nm (n + 1 + int k) s'" "alive lv ((ps @ [p]) @ qs) s'"
      "\<And>c c'. fetches segs c c' \<Longrightarrow>
         all_segments prof (map (\<lambda>i. n + 1 + int i) [0..<k]) (with_client c s1) = (Ret (), with_client c' s')"
    by blast
  have m: "map (\<lambda>i. n + int i) [0..<Suc k] = n # map (\<lambda>i. n + 1 + int i) [0..<k]"
    "map (\<lambda>i. n + int i + 1) [0..<Suc k] = (n + 1) # map (\<lambda>i. n + 1 + int i + 1) [0..<k]"
    by (simp_all add: map_upt_Suc add.assoc del: upt_Suc)
  have "from_store h sm (seg # segs)" using o(1-3) l(2) Suc.prems by (simp add: from_store_def)
  moreover have "all_segments prof (map (\<lambda>i. n + int i) [0..<Suc k]) (with_client c s) = (Ret (), with_client c' s')"
    if "fetches (seg # segs) c c'" for c c'
    using that o(7) l(6) unfolding m by (auto simp: then_do_def)
  ultimately show ?case using o(2,6) l unfolding m
    by (intro exI[of _ "seg # segs"] exI[of _ "p # qs"] exI[of _ s']) (simp add: add.assoc)
qed

section \<open>The two ends of the connection\<close>

definition replies :: "segment list \<Rightarrow> pybytes list" where
  "replies segs = concat (map (\<lambda>seg. response_sends (Served seg)) segs)"

definition requests :: "segment list \<Rightarrow> pybytes list" where
  "requests segs = map (\<lambda>seg. the_ok (build_request (seg_rep seg) (seg_id seg))) segs"

lemma fetches_stream:
  "from_store h sm segs \<Longrightarrow> sock c = Some s \<Longrightarrow> sends_left s = None \<Longrightarrow>
   buf c @ stream (conn_inbox s) = concat (replies segs) @ rest \<Longrightarrow>
   \<exists>c' s'. fetches segs c c' \<and> sock c' = Some s' \<and> sent s' = sent s @ requests segs"
proof (induction segs arbitrary: c s)
  case (Cons seg segs)
  have f: "seg_sendable seg" "0 \<le> seg_id seg" "from_store h sm segs" using Cons.prems(1) by (simp_all add: from_store_def)
  have "buf c @ stream (conn_inbox s) = concat (response_sends (Served seg)) @ concat (replies segs) @ rest"
    using Cons.prems(4) by (simp add: replies_def)
  from fetch_gives_stream[OF f(1,2) Cons.prems(2,3) this] obtain c1 s1 req where
    c1: "fetch_gives seg c c1" "build_request (seg_rep seg) (seg_id seg) = Inr req" "sock c1 = Some s1" "sends_left s1 = None"
      "sent s1 = sent s @ [req]" "buf c1 @ stream (conn_inbox s1) = concat (replies segs) @ rest" by blast
  from Cons.IH[OF f(3) c1(3,4,6)] c1 show ?case by (auto simp: requests_def)
qed (simp add: requests_def)

text \<open>The requests, each in one or more chunks.\<close>

definition chunked :: "pybytes list \<Rightarrow> pybytes list list \<Rightarrow> bool" where
  "chunked reqs css \<longleftrightarrow> list_all2 (\<lambda>req cs. concat cs = req \<and> cs \<noteq> [] \<and> [] \<notin> set cs) reqs css"

lemma handler_serves_requests:
  "from_store h sm segs \<Longrightarrow> chunked (requests segs) css \<Longrightarrow> conn_inbox sc = map Inr (concat css) \<Longrightarrow> sends_left sc = None \<Longrightarrow>
   cache_ok h sm (sh_cache sh) \<Longrightarrow>
   \<exists>sh' sc'. handler_run h sm sh sc = (None, sh', sc') \<and> sent sc' = sent sc @ replies segs \<and> conn_closed sc'
     \<and> sh_stats sh' = fold count_segment segs (sh_stats sh) \<and> cache_ok h sm (sh_cache sh')"
proof (induction segs arbitrary: css sc sh)
  case Nil
  then have "conn_inbox sc = []" by (simp add: chunked_def requests_def)
  then have "serve_turn h sm sh sc = (Break, sh, sc)"
    by (simp add: serve_turn_def read_request_line_def read_until_newline.simps Let_def)
  then have "handler_run h sm sh sc = (None, sh, sc\<lparr>conn_closed := True\<rparr>)" by (simp add: handler_run.simps[of h sm sh sc])
  then show ?case using Nil by (simp add: replies_def)
next
  case (Cons seg segs)
  have f: "resolve_fresh h sm (seg_rep seg, seg_id seg) = Inr (Some seg)" "seg_sendable seg" "0 \<le> seg_id seg"
    "seg_id seg < 10 ^ 18" "from_store h sm segs"
    using Cons.prems(1) by (simp_all add: from_store_def)
  obtain req where req: "build_request (seg_rep seg) (seg_id seg) = Inr req"
    using request_total[of "seg_rep seg"] f(2,3) by (auto simp: seg_sendable_def)
  obtain hdr where hdr: "segment_header seg = Inr hdr" using segment_header_total[OF f(2)] by blast
  obtain cs css' where cs: "css = cs # css'" "concat cs = req" "cs \<noteq> []" "[] \<notin> set cs" "chunked (requests segs) css'"
    using Cons.prems(2) req by (auto simp: chunked_def requests_def list_all2_Cons1)
  have "concat (butlast cs) @ last cs = req" "\<forall>c\<in>set (butlast cs). c \<noteq> []" "last cs \<noteq> []"
    "conn_inbox sc = map Inr (butlast cs) @ Inr (last cs) # map Inr (concat css')"
  proof -
    have b: "cs = butlast cs @ [last cs]" using cs(3) by simp
    show "concat (butlast cs) @ last cs = req" using cs(2) b by (metis concat.simps concat_append append_Nil2)
    show "\<forall>c\<in>set (butlast cs). c \<noteq> []" "last cs \<noteq> []" using cs(3,4) in_set_butlastD last_in_set by metis+
    have "map Inr cs = map Inr (butlast cs) @ [Inr (last cs)]" by (subst b) simp
    then show "conn_inbox sc = map Inr (butlast cs) @ Inr (last cs) # map Inr (concat css')"
      using Cons.prems(3) cs(1) by simp
  qed
  from serve_turn_segment[OF f(1,2,4) req this Cons.prems(4,5) hdr] obtain ca where ca: "cache_ok h sm ca"
    "serve_turn h sm sh sc = (Continue, \<lparr>sh_cache = ca, sh_stats = count_segment seg (sh_stats sh)\<rparr>,
      sc\<lparr>conn_inbox := map Inr (concat css'), sent := sent sc @ [hdr, seg_data seg]\<rparr>)" by blast
  let ?sh = "\<lparr>sh_cache = ca, sh_stats = count_segment seg (sh_stats sh)\<rparr>"
  let ?sc = "sc\<lparr>conn_inbox := map Inr (concat css'), sent := sent sc @ [hdr, seg_data seg]\<rparr>"
  have "handler_run h sm sh sc = handler_run h sm ?sh ?sc" using ca(2) by (simp add: handler_run.simps[of h sm sh sc])
  with Cons.IH[OF f(5) cs(5), of ?sc ?sh] ca(1) Cons.prems(4) hdr show ?case by (simp add: replies_def)
qed

section \<open>Before and after the loop\<close>

text \<open>A profile whose timeline is missing, or has a step, makes a shaper that always has a rate; one with an
  empty timeline makes a shaper on which the first download fails.\<close>

lemma bind_finite_Some: "bind_finite m k = Inr (Some y) \<longleftrightarrow> (\<exists>x. m = Inr (Finite x) \<and> k x = Inr (Some y))"
  by (cases m) (auto simp: bind_finite_def split: xfloat.splits)

lemma timeline_steps_length: "timeline_steps steps = Inr (Some xs) \<Longrightarrow> length xs = length steps"
  by (induction steps arbitrary: xs) (auto simp: bind_finite_Some py_simps split: option.splits)

lemma shaper_init_ready:
  assumes "shaper_init (JObj kvs) = Inr (Some s)" and "map_of kvs (u ''timeline'') \<noteq> Some (JList [])"
    and "map_of kvs (u ''timeline'') \<noteq> Some (JObj [])" and "map_of kvs (u ''timeline'') \<noteq> Some (JStr [])"
  shows "shaper_ready (Some s)"
proof -
  obtain steps xs where x: "json_iter (or_default (map_of kvs (u ''timeline'')) default_timeline) = Inr steps"
    "timeline_steps steps = Inr (Some xs)" "timeline s = sort_key fst xs"
    using assms(1) by (auto simp: shaper_init_def bind_finite_Some py_simps split: option.splits)
  have "steps \<noteq> []" using x(1) assms(2-)
    by (auto simp: or_default_def default_timeline_def split: option.splits elim!: json_iter.elims)
  then have "xs \<noteq> []" using timeline_steps_length[OF x(2)] by auto
  then have "timeline s \<noteq> []" using x(3) by (metis length_0_conv length_sort)
  then show ?thesis by (simp add: shaper_ready_def)
qed

lemma empty_timeline_fails:
  "\<exists>s. shaper_init (JObj [(u ''timeline'', JList [])]) = Inr (Some s) \<and> fst (current_cap_bps s w) = Inl IndexError"
  by (simp add: shaper_init_def bind_finite_def or_default_def current_cap_bps_def case_prod_beta shaper_start_def)

lemma session_begin_served:
  assumes "make_abr (rc_abr rc) (rc_hysteresis rc) (cfg_of rc) = Inr a" and "shaper_of rc = Ret shp" "shaper_ready shp"
    and "sql_int (rc_segments rc)"
  shows "\<exists>s sid t0. alive (level_readings env) [] s
    \<and> (\<forall>cn. session_begin rc (env\<lparr>peer := Inr cn\<rparr>) = Ret (with_client (connect cn \<lparr>sock = None, buf = []\<rparr>) s, sid, t0))"
proof -
  obtain t w where t: "wall_time (clocks env) = (t, w)" by force
  obtain t0 w' where t0: "monotonic w = (t0, w')" by force
  obtain sid c where c: "start_session (rc_client rc) (abr_name a) (profile_name rc) (qoe_alpha (cfg_of rc))
      (qoe_beta (cfg_of rc)) (qoe_gamma (cfg_of rc)) (rc_segments rc) [] t (collector_init (db_file env)) = (Inr sid, c)"
    "is_open c" "session_id c = Some sid"
    using assms(4) by (simp add: start_session_def guarded_def collector_init_def Let_def)
  obtain ew where ew: "bind_res (buffer_manager_init DEFAULT_MAX_BUFFER_SECONDS) (\<lambda>_. ewma_init DEFAULT_EWMA_ALPHA None) = Inr ew"
    using one_begin by (auto simp: session_begin_def Let_def one_surroundings_def case_prod_beta
        split: sum.splits outcome.splits)
  let ?s = "\<lparr>ss_abr = a, ss_downloader = \<lparr>dl_client = \<lparr>sock = None, buf = []\<rparr>, dl_shaper = shp\<rparr>,
       ss_ewma = ew, ss_scheduler = deadline_init DEFAULT_SEGMENT_DURATION 1 (fl (1 / 10)),
       ss_collector = c, ss_index = 0, ss_qualities = [], ss_switches = 0, ss_world = w',
       ss_levels = level_readings env, ss_reads = 0, ss_puts = []\<rparr>"
  have "session_begin rc (env\<lparr>peer := Inr cn\<rparr>) = Ret (with_client (connect cn \<lparr>sock = None, buf = []\<rparr>) ?s, sid, t0)" for cn
    using assms(1,2) t t0 c ew by (simp add: session_begin_def with_client_def)
  moreover have "alive (level_readings env) [] ?s" using make_abr_ok[OF assms(1)] assms(3) c by (simp add: alive_def)
  ultimately show ?thesis by blast
qed

lemma surely_record_events:
  "is_open (ss_collector s) \<Longrightarrow> list_all (\<lambda>(off, dur, k). sql_int k) evs \<Longrightarrow>
   surely (record_events evs) (\<lambda>_ s'. \<exists>c. s' = s\<lparr>ss_collector := c\<rparr> \<and> is_open c) s"
proof (induction evs arbitrary: s)
  case Nil
  then show ?case by (auto simp: surely_def wp_def intro: exI[of _ "ss_collector s"])
next
  case (Cons ev evs)
  obtain off dur k where ev: "ev = (off, dur, k)" by (cases ev)
  obtain c where c: "collect (record_rebuffer off dur k) s = (Ret (), s\<lparr>ss_collector := c\<rparr>)" "is_open c"
    using Cons.prems by (simp add: ev collect_def record_rebuffer_def guarded_def return_of_def Let_def)
  from Cons.IH[of "s\<lparr>ss_collector := c\<rparr>"] Cons.prems(2) c show ?case by (auto simp: surely_iff ev then_do_def)
qed

lemma surely_summarize: "is_open (ss_collector s) \<Longrightarrow> sql_int (ss_switches s) \<Longrightarrow>
    surely (summarize rc rep sid t0) (\<lambda>result _. sm_segments result = int (length (ss_qualities s))) s"
  by (simp add: surely_def wp_def summarize_def Let_def then_do_def collect_def record_qoe_def guarded_def return_of_def
      read_monotonic_def monotonic_def)

lemma offline_record_events: "offline (record_events evs)"
proof (induction evs)
  case (Cons ev evs)
  obtain off dur k where ev: "ev = (off, dur, k)" by (cases ev)
  have "offline (then_do (collect (record_rebuffer off dur k)) (\<lambda>_. record_events evs))" by (intro offline_steps Cons)
  then show ?case by (simp add: offline_def ev)
qed (simp add: offline_def)

lemma offline_summarize: "offline (summarize rc rep sid t0)"
  by (auto simp: offline_def summarize_def Let_def then_do_def collect_def return_of_def read_monotonic_def monotonic_def
      case_prod_beta with_client_updates split: sum.split)

lemma session_inv_counts:
  assumes "session_inv_at sid prof nm n s"
  shows "0 \<le> ss_switches s" "ss_switches s \<le> n" "int (length (ss_qualities s)) = n"
proof -
  obtain ps where ps: "first_segments n ps" "ss_switches s = int (length (switch_list 500000 ps))"
    "ss_qualities s = map quality_number ps"
    using assms by (auto simp: session_inv_at_def shape_def)
  have "length (switch_list b ps) \<le> length ps" for b by (induction ps arbitrary: b) (auto simp: le_SucI)
  moreover have "length (map bs_segment ps) = length (map (\<lambda>i. i + 1) (iota n))" "0 \<le> n"
    using ps(1) by (simp_all only: first_segments_def)
  then have "int (length ps) = n" by simp
  ultimately show "0 \<le> ss_switches s" "ss_switches s \<le> n" "int (length (ss_qualities s)) = n"
    using ps(2,3) by (simp_all, metis of_nat_mono)
qed

section \<open>Properties\<close>

text \<open>A connection that delivers the answers for these segments, in any chunks, perhaps followed by more.\<close>

definition delivers :: "segment list \<Rightarrow> conn \<Rightarrow> bool" where
  "delivers segs cn \<longleftrightarrow> sends_left cn = None \<and> (\<exists>rest. stream (conn_inbox cn) = concat (replies segs) @ rest)"

text \<open>
  The player makes room for the segments of the store again and again.  There is never room for segments of more than 60
  seconds, and none may come once the player has given up on a buffer that is still filled.
\<close>

definition room_comes :: "surroundings \<Rightarrow> segment_manager \<Rightarrow> bool" where
  "room_comes env sm \<longleftrightarrow> (case segment_duration sm of Finite d \<Rightarrow> roomy (level_readings env) (or_two d) | _ \<Rightarrow> False)"

text \<open>What the configuration, the surroundings and the store must be for a session to start and its steps not to fail.\<close>

definition can_start :: "run_config \<Rightarrow> surroundings \<Rightarrow> host \<Rightarrow> segment_manager \<Rightarrow> bool" where
  "can_start rc env h sm \<longleftrightarrow> ok (make_abr (rc_abr rc) (rc_hysteresis rc) (cfg_of rc))
     \<and> (case shaper_of rc of Ret sh \<Rightarrow> shaper_ready sh | _ \<Rightarrow> False)
     \<and> 0 \<le> rc_segments rc \<and> rc_segments rc \<le> segment_count sm \<and> rc_segments rc < 10 ^ 18
     \<and> list_all (\<lambda>(off, dur, k). sql_int k) (rebuffer_events (final_report env)) \<and> store_serves h sm"

definition can_play :: "run_config \<Rightarrow> surroundings \<Rightarrow> host \<Rightarrow> segment_manager \<Rightarrow> bool" where
  "can_play rc env h sm \<longleftrightarrow> can_start rc env h sm \<and> room_comes env sm"

text \<open>The client sends exactly the requests for these segments, buffers exactly them, and returns this result with
  this database.\<close>

definition client_plays :: "run_config \<Rightarrow> surroundings \<Rightarrow> segment list \<Rightarrow> session_summary \<Rightarrow> database \<Rightarrow> conn \<Rightarrow> bool" where
  "client_plays rc env segs result d cn \<longleftrightarrow>
     (\<exists>s0 sid t0 s1 sk s. session_begin rc (env\<lparr>peer := Inr cn\<rparr>) = Ret (s0, sid, t0)
        \<and> all_segments (profile_name rc) (iota (rc_segments rc)) s0 = (Ret (), s1)
        \<and> sock (dl_client (ss_downloader s1)) = Some sk \<and> sent sk = sent cn @ requests segs
        \<and> list_all2 matches (ss_puts s1) segs
        \<and> run_session rc (env\<lparr>peer := Inr cn\<rparr>) = (Ret result, Some s) \<and> db (ss_collector s) = d)"

lemma session_served:
  assumes "can_play rc env h sm" and "surroundings_ok env"
  shows "\<exists>segs result d. map seg_id segs = map (\<lambda>i. i + 1) (iota (rc_segments rc)) \<and> from_store h sm segs
    \<and> sm_segments result = rc_segments rc \<and> (\<forall>cn. delivers segs cn \<longrightarrow> client_plays rc env segs result d cn)"
proof -
  let ?n = "rc_segments rc" and ?prof = "profile_name rc" and ?c = "\<lambda>cn. connect cn \<lparr>sock = None, buf = []\<rparr>"
  obtain a shp where a: "make_abr (rc_abr rc) (rc_hysteresis rc) (cfg_of rc) = Inr a" "shaper_of rc = Ret shp" "shaper_ready shp"
    and b: "0 \<le> ?n" "?n \<le> segment_count sm" "?n < 10 ^ 18" "store_serves h sm"
      "list_all (\<lambda>(off, dur, k). sql_int k) (rebuffer_events (final_report env))" "room_comes env sm"
    using assms(1) by (auto simp: can_play_def can_start_def ok_iff split: outcome.splits)
  obtain d where d: "segment_duration sm = Finite d" "roomy (level_readings env) (or_two d)"
    using b(6) by (auto simp: room_comes_def split: xfloat.splits)
  have n: "sql_int ?n" "iota ?n = map (\<lambda>i. 0 + int i) [0..<nat ?n]" "0 + int (nat ?n) = ?n"
    using b(1,3) by (simp_all add: sql_int_def iota_def)
  obtain s sid t0 where beg: "alive (level_readings env) [] s" "\<And>cn. session_begin rc (env\<lparr>peer := Inr cn\<rparr>) = Ret (with_client (?c cn) s, sid, t0)"
    using session_begin_served[OF a n(1)] by blast
  have so: "surroundings_ok (env\<lparr>peer := x\<rparr>)" for x using assms(2) by (simp add: surroundings_ok_def)
  obtain nm where inv: "session_inv_at sid ?prof nm 0 s" using session_begin_inv[OF beg(2) so] by auto
  have "(0::int) \<le> 0" "0 + int (nat ?n) \<le> segment_count sm" "0 + int (nat ?n) < 10 ^ 18" using b(1-3) by simp_all
  from loop_served[OF b(4) d inv beg(1) this] obtain segs qs s' where l:
    "map seg_id segs = map (\<lambda>i. 0 + int i + 1) [0..<nat ?n]" "from_store h sm segs" "list_all2 matches qs segs"
    "session_inv_at sid ?prof nm ?n s'" "alive (level_readings env) qs s'"
    "\<And>c c'. fetches segs c c' \<Longrightarrow> all_segments ?prof (iota ?n) (with_client c s) = (Ret (), with_client c' s')"
    unfolding n(2,3) append_Nil by blast
  have "is_open (ss_collector s')" using l(5) by (simp add: alive_def)
  from surely_record_events[OF this b(5)] obtain mc where
    ev: "record_events (rebuffer_events (final_report env)) s' = (Ret (), s'\<lparr>ss_collector := mc\<rparr>)" "is_open mc"
    by (auto simp: surely_iff)
  have "sql_int (ss_switches s')" using session_inv_counts(1,2)[OF l(4)] b(3) by (simp add: sql_int_def)
  then obtain result t where su: "summarize rc (final_report env) sid t0 (s'\<lparr>ss_collector := mc\<rparr>) = (Ret result, t)"
    "sm_segments result = ?n"
    using surely_summarize[of "s'\<lparr>ss_collector := mc\<rparr>" rc "final_report env" sid t0] ev(2) session_inv_counts(3)[OF l(4)]
    by (auto simp: surely_iff)
  have "client_plays rc env segs result (db (ss_collector t)) cn" if cn: "delivers segs cn" for cn
  proof -
    obtain c' sk where c': "fetches segs (?c cn) c'" "sock c' = Some sk" "sent sk = sent cn @ requests segs"
      using fetches_stream[OF l(2), of "?c cn" cn] cn by (auto simp: delivers_def connect_def)
    have "close_client (with_client c' s') = with_client (close c') s'" by (simp add: close_client_def with_client_def)
    then have "run_session rc (env\<lparr>peer := Inr cn\<rparr>) = (Ret result, Some (with_client (close c') t))"
      using beg(2)[of cn] l(6)[OF c'(1)] offline_Ret[OF offline_record_events ev(1)] offline_Ret[OF offline_summarize su(1)]
      by (simp add: run_session_def finally_close_def then_do_def)
    moreover have "ss_puts (with_client c' s') = qs" using l(5) by (simp add: alive_def)
    ultimately show ?thesis unfolding client_plays_def using beg(2)[of cn] l(3) l(6)[OF c'(1)] c'(2,3)
      by (intro exI[of _ "with_client (?c cn) s"] exI[of _ sid] exI[of _ t0] exI[of _ "with_client c' s'"] exI[of _ sk]
          exI[of _ "with_client (close c') t"]) simp
  qed
  moreover have "map seg_id segs = map (\<lambda>i. i + 1) (iota ?n)" using l(1) by (simp add: iota_def)
  ultimately show ?thesis using l(2) su(2) by blast
qed

text \<open>When there never is room, the turn ends in the call of \<open>put\<close>.\<close>

lemma after_download_waits:
  assumes "alive lv ps s" and "0 \<le> i" "i < 4" and "sql_int k" "sql_int br" and "sd_duration res = Finite d"
    and "\<And>j. full_at lv (or_two d) j"
  shows "\<exists>s'. after_download prof k i rep br before res s = (Waits, s') \<and> alive lv ps s'"
proof -
  from surely_plain(1)[OF assms(1)] obtain b1 s1 where s1: "read_level s = (Ret b1, s1)" "alive lv ps s1" by (auto simp: surely_iff)
  from surely_plain(3)[OF s1(2), of "sd_throughput res"] obtain v s2 where s2: "update_ewma (sd_throughput res) s1 = (Ret v, s2)" "alive lv ps s2"
    by (auto simp: surely_iff)
  from surely_note_switch[OF s2(2) assms(2-5)] obtain x s3 where s3: "note_switch k i br s2 = (Ret x, s3)" "alive lv ps s3"
    by (auto simp: surely_iff)
  from surely_plain(2)[OF s3(2)] obtain t s4 where s4: "read_time s3 = (Ret t, s4)" "alive lv ps s4" by (auto simp: surely_iff)
  then have "first_room (ss_levels s4) (or_two d) (ss_reads s4) = None" using assms(7) by (simp add: first_room_None alive_def)
  then have "put_segment k rep br res s3 = (Waits, s4)" using s4(1) assms(6) by (simp add: put_segment_def then_do_def wait_for_room_def)
  then show ?thesis using s1(1) s2(1) s3(1) s4(2) by (simp add: after_download_def then_do_def)
qed

lemma offline_Waits: "offline m \<Longrightarrow> m s = (Waits, s') \<Longrightarrow> m (with_client c s) = (Waits, with_client c s')"
  by (simp add: offline_def)

lemma long_is_full:
  assumes "surroundings_ok env" and "60 < fl d"
  shows "full_at (level_readings env) (or_two d) j"
proof -
  have "or_two d = d" using assms(2) by (auto simp: or_two_def)
  moreover have "fl d \<le> fl (level_readings env j + d)" using assms(1) by (intro fl_mono) (simp add: surroundings_ok_def level_ok_def)
  ultimately show ?thesis using assms(2) by (simp add: full_at_def config_defs)
qed

lemma nothing_put:
  assumes "stopped_at sid prof nm n s" and "ss_puts s = []"
  shows "segments_of sid (db (ss_collector s)) = []" "session_id (ss_collector s) = Some sid"
  using assms by (auto simp: stopped_at_def tables_at_def)

lemma store_serves_seconds:
  assumes "g_exact (Finite d)"
  shows "store_serves file_host (sample_store\<lparr>segment_duration := Finite d\<rparr>)" (is "store_serves _ ?store")
  unfolding store_serves_def
proof (intro conjI ballI allI impI)
  fix rep :: pystr and i :: int
  assume a: "rep \<in> set (map fst DEFAULT_LADDER)" "1 \<le> i \<and> i \<le> segment_count ?store"
  then obtain br where br: "LADDER_BY_REP rep = Some br" "\<bar>br\<bar> < 10 ^ 18"
    by (auto simp: LADDER_BY_REP_def DEFAULT_LADDER_def)
  let ?seg = "\<lparr>seg_rep = rep, seg_id = i, seg_bitrate = br, seg_duration = Finite d, seg_data = [7, 13, 10, 255]\<rparr>"
  have "resolve_fresh file_host ?store (rep, i) = Inr (Some ?seg)"
    using a(2) br(1) by (simp add: resolve_fresh_eq sample_store_def read_or_generate_def file_host_def)
  moreover have "seg_sendable ?seg" using br assms by (auto simp: seg_sendable_def)
  ultimately show "\<exists>seg. resolve_fresh file_host ?store (rep, i) = Inr (Some seg) \<and> seg_sendable seg" by blast
qed (simp add: sample_store_def)

lemma store_serves_files: "store_serves file_host sample_store"
  using store_serves_seconds[of 2] g_exact_int[of 2] by (simp add: sample_store_def)

text \<open>C9: A store whose segments are longer than the buffer stops the client for good: when everything is there for a
  session of at least one segment and a segment of the store lasts more than 60 seconds, then, on every connection
  that delivers it, the session sends the request for segment 1, gets the whole answer, and waits in the call of
  \<open>put\<close> for ever, whatever the player does: nothing is put, the row of the segment is not written, and the
  connection and the database stay open.\<close>

theorem long_segments_wait:
  assumes "can_start rc env h sm" and "surroundings_ok env" and "1 \<le> rc_segments rc"
    and "segment_duration sm = Finite d" "60 < fl d"
  shows "\<exists>seg. seg_id seg = 1 \<and> from_store h sm [seg] \<and> (\<forall>cn. delivers [seg] cn \<longrightarrow>
    (\<exists>s sid sk. run_session rc (env\<lparr>peer := Inr cn\<rparr>) = (Waits, Some s) \<and> ss_puts s = []
       \<and> session_id (ss_collector s) = Some sid \<and> segments_of sid (db (ss_collector s)) = [] \<and> is_open (ss_collector s)
       \<and> sock (dl_client (ss_downloader s)) = Some sk \<and> sent sk = sent cn @ requests [seg]))"
proof -
  let ?n = "rc_segments rc" and ?prof = "profile_name rc" and ?c = "\<lambda>cn. connect cn \<lparr>sock = None, buf = []\<rparr>"
  obtain a shp where a: "make_abr (rc_abr rc) (rc_hysteresis rc) (cfg_of rc) = Inr a" "shaper_of rc = Ret shp" "shaper_ready shp"
    and b: "store_serves h sm" "sql_int ?n" "0 + 1 \<le> segment_count sm" "0 + 1 < (10::int) ^ 18"
    using assms(1,3) by (auto simp: can_start_def ok_iff sql_int_def split: outcome.splits)
  obtain s sid t0 where beg: "alive (level_readings env) [] s"
    "\<And>cn. session_begin rc (env\<lparr>peer := Inr cn\<rparr>) = Ret (with_client (?c cn) s, sid, t0)"
    using session_begin_served[OF a b(2)] by blast
  have so: "surroundings_ok (env\<lparr>peer := x\<rparr>)" for x using assms(2) by (simp add: surroundings_ok_def)
  obtain nm where inv: "session_inv_at sid ?prof nm 0 s" using session_begin_inv[OF beg(2) so] by auto
  from one_fetched[OF inv beg(1) b(1) assms(4) order_refl b(3,4)] obtain seg res i rep br before s1 where
    seg: "resolve_fresh h sm (seg_rep seg, 1) = Inr (Some seg)" "seg_id seg = 1" "seg_sendable seg"
    and i: "0 \<le> i" "i < 4" "sql_int br" and s1: "alive (level_readings env) [] s1" "sd_duration res = Finite d"
    and on: "\<And>c c'. fetch_gives seg c c' \<Longrightarrow>
      one_segment ?prof 0 (with_client c s) = after_download ?prof 1 i rep br before res (with_client c' s1)" by auto
  have "sql_int 1" by (simp add: sql_int_def)
  from after_download_waits[OF s1(1) i(1,2) this i(3) s1(2) long_is_full[OF assms(2,5)], of ?prof rep before] obtain s2 where
    s2: "after_download ?prof 1 i rep br before res s1 = (Waits, s2)" "alive (level_readings env) [] s2" by blast
  have fs: "from_store h sm [seg]" using seg by (simp add: from_store_def)
  have "\<exists>t sk. run_session rc (env\<lparr>peer := Inr cn\<rparr>) = (Waits, Some t) \<and> ss_puts t = [] \<and> session_id (ss_collector t) = Some sid
      \<and> segments_of sid (db (ss_collector t)) = [] \<and> is_open (ss_collector t) \<and> sock (dl_client (ss_downloader t)) = Some sk
      \<and> sent sk = sent cn @ requests [seg]" if cn: "delivers [seg] cn" for cn
  proof -
    obtain c' sk where c': "fetch_gives seg (?c cn) c'" "sock c' = Some sk" "sent sk = sent cn @ requests [seg]"
      using fetches_stream[OF fs, of "?c cn" cn] cn by (auto simp: delivers_def connect_def)
    have one: "one_segment ?prof 0 (with_client (?c cn) s) = (Waits, with_client c' s2)"
      using on[OF c'(1)] offline_Waits[OF offline_after_download s2(1)] by simp
    have "iota ?n = 0 # tl (iota ?n)" using assms(3) by (cases "iota ?n") (auto simp: iota_def upt_rec)
    then have run: "run_session rc (env\<lparr>peer := Inr cn\<rparr>) = (Waits, Some (with_client c' s2))"
      using beg(2)[of cn] one all_segments.simps(2)[of ?prof 0 "tl (iota ?n)"]
      by (simp add: run_session_def finally_close_def then_do_def)
    have "session_inv_at sid ?prof nm 0 (with_client (?c cn) s)" using inv by simp
    from wp_other[OF one_segment_inv[OF this]] one have "stopped_at sid ?prof nm (0 + 1) (with_client c' s2)" by blast
    from nothing_put[OF this] s2(2) run c'(2,3) show ?thesis by (auto simp: alive_def)
  qed
  then show ?thesis using seg(2) fs by blast
qed

text \<open>A store with segments of 100 seconds.\<close>

definition long_store :: segment_manager where
  "long_store = sample_store\<lparr>segment_duration := Finite 100\<rparr>"

lemma long_segments_wait_witness:
  "\<exists>seg cn s. seg_id seg = 1 \<and> conn_inbox cn = [Inr (concat (replies [seg]))]
    \<and> run_session one_config (one_surroundings\<lparr>peer := Inr cn\<rparr>) = (Waits, Some s) \<and> ss_puts s = []"
proof -
  have "store_serves file_host long_store" using store_serves_seconds[of 100] g_exact_int[of 100] by (simp add: long_store_def)
  moreover have "ok (make_abr (rc_abr one_config) (rc_hysteresis one_config) (cfg_of one_config))"
    by (auto simp: one_config_def make_abr_def lower_ascii_def)
  ultimately have c: "can_start one_config one_surroundings file_host long_store"
    by (simp add: can_start_def one_config_def shaper_of_def shaper_ready_def one_surroundings_def playback_report_init_def)
      (simp add: long_store_def sample_store_def)
  have d: "1 \<le> rc_segments one_config" "segment_duration long_store = Finite 100" "60 < fl 100"
    by (simp_all add: one_config_def long_store_def)
  from long_segments_wait[OF c one_surroundings_ok d] obtain seg where seg: "seg_id seg = 1"
    "\<And>cn. delivers [seg] cn \<Longrightarrow> \<exists>s. run_session one_config (one_surroundings\<lparr>peer := Inr cn\<rparr>) = (Waits, Some s) \<and> ss_puts s = []"
    by blast
  let ?cn = "\<lparr>conn_inbox = [Inr (concat (replies [seg]))], sent = [], sends_left = None, cut = 0, conn_closed = False\<rparr>"
  have "delivers [seg] ?cn" by (simp add: delivers_def)
  from seg(2)[OF this] seg(1) show ?thesis by (intro exI[of _ seg] exI[of _ ?cn]) simp
qed


definition three_segments :: run_config where
  "three_segments = one_config\<lparr>rc_segments := 3\<rparr>"

lemma three_segments_can_play: "can_play three_segments one_surroundings file_host sample_store"
proof -
  have "ok (make_abr (rc_abr three_segments) (rc_hysteresis three_segments) (cfg_of three_segments))"
    by (auto simp: three_segments_def one_config_def make_abr_def lower_ascii_def)
  moreover have "room_comes one_surroundings sample_store"
    by (simp add: room_comes_def sample_store_def one_surroundings_def or_two_def roomy_no_level)
  ultimately show ?thesis using store_serves_files
    by (simp add: can_play_def can_start_def three_segments_def one_config_def shaper_of_def shaper_ready_def one_surroundings_def
        playback_report_init_def) (simp add: sample_store_def)
qed


end
