(* ===== verification/Comparison.thy ===== *)
theory Comparison
  imports ServedSession Experiments
begin

text \<open>
  The whole comparison of \<open>scripts/run_comparison.py\<close> against servers that have the segments: one session after
  the other, each on its own connection, all on the same database file.
\<close>

text \<open>The connections as the other ends of the sessions.\<close>

definition with_peers :: "surroundings list \<Rightarrow> conn list \<Rightarrow> surroundings list" where
  "with_peers envs cns = map2 (\<lambda>env cn. env\<lparr>peer := Inr cn\<rparr>) envs cns"

definition levels_ok :: "surroundings \<Rightarrow> bool" where
  "levels_ok env \<longleftrightarrow> (\<forall>n. level_ok (level_readings env n))"

text \<open>The segments of an entry of the list, from the store and numbered from 1.\<close>

definition segments_for :: "host \<Rightarrow> segment_manager \<Rightarrow> run_config \<Rightarrow> segment list \<Rightarrow> bool" where
  "segments_for h sm rc segs \<longleftrightarrow> from_store h sm segs \<and> map seg_id segs = map (\<lambda>i. i + 1) (iota (rc_segments rc))"

lemma delivers_possible: "\<exists>cn. delivers segs cn"
proof -
  have "stream [Inr (concat (replies segs))] = concat (replies segs) @ []" by simp
  then show ?thesis unfolding delivers_def
    by (intro exI[of _ "\<lparr>conn_inbox = [Inr (concat (replies segs))], sent = [], sends_left = None, cut = 0, conn_closed = False\<rparr>"])
      auto
qed

lemma deliveries_possible: "\<exists>cns. list_all2 delivers segss cns"
  by (induction segss) (auto simp: list_all2_Cons1 delivers_possible)

lemma can_play_file [simp]: "can_play rc (env\<lparr>db_file := f\<rparr>) h sm = can_play rc env h sm"
  by (simp add: can_play_def can_start_def room_comes_def cong: xfloat.case_cong)

lemma compare_served:
  "list_all2 (\<lambda>x env. can_play (cf x) env h sm \<and> levels_ok env) xs envs \<Longrightarrow> db_ok (db (collector_init f)) \<Longrightarrow>
   \<exists>segss sms f'. list_all2 (\<lambda>x segs. segments_for h sm (cf x) segs) xs segss
     \<and> map sm_segments sms = map (\<lambda>x. rc_segments (cf x)) xs
     \<and> (\<forall>cns. list_all2 delivers segss cns \<longrightarrow> compare cf xs (with_peers envs cns) f = (Ret sms, f'))"
proof (induction xs arbitrary: envs f)
  case Nil
  then show ?case by (intro exI[of _ "[]"] exI[of _ f]) simp
next
  case (Cons x xs)
  then obtain env envs' where e: "envs = env # envs'" "can_play (cf x) env h sm" "levels_ok env"
    "list_all2 (\<lambda>x env. can_play (cf x) env h sm \<and> levels_ok env) xs envs'"
    by (auto simp: list_all2_Cons1)
  let ?env = "env\<lparr>db_file := f\<rparr>"
  have so: "surroundings_ok (?env\<lparr>peer := p\<rparr>)" for p using e(3) Cons.prems(2) by (simp add: surroundings_ok_def levels_ok_def)
  have "can_play (cf x) ?env h sm" "surroundings_ok ?env" using e(2) so[of "peer ?env"] by simp_all
  from session_served[OF this] obtain segs result d where s: "segments_for h sm (cf x) segs"
    "sm_segments result = rc_segments (cf x)" "\<And>cn. delivers segs cn \<Longrightarrow> client_plays (cf x) ?env segs result d cn"
    by (auto simp: segments_for_def)
  have run: "\<exists>s. run_session (cf x) (?env\<lparr>peer := Inr cn\<rparr>) = (Ret result, Some s) \<and> db (ss_collector s) = d"
    if "delivers segs cn" for cn
    using s(3)[OF that] by (auto simp: client_plays_def)
  obtain cn0 where "delivers segs cn0" using delivers_possible by blast
  then obtain s0 where "run_session (cf x) (?env\<lparr>peer := Inr cn0\<rparr>) = (Ret result, Some s0)" "db (ss_collector s0) = d"
    using run by blast
  from run_session_adds[OF this(1) so] this(2) have "db_ok (db (collector_init (Some d)))"
    by (auto simp: Let_def collector_init_def)
  from Cons.IH[OF e(4) this] obtain segss sms f' where t: "list_all2 (\<lambda>x segs. segments_for h sm (cf x) segs) xs segss"
    "map sm_segments sms = map (\<lambda>x. rc_segments (cf x)) xs"
    "\<And>cns. list_all2 delivers segss cns \<Longrightarrow> compare cf xs (with_peers envs' cns) (Some d) = (Ret sms, f')"
    by blast
  have "compare cf (x # xs) (with_peers envs cns) f = (Ret (result # sms), f')" if del: "list_all2 delivers (segs # segss) cns" for cns
  proof -
    obtain cn cns' where c: "cns = cn # cns'" "delivers segs cn" "list_all2 delivers segss cns'"
      using del by (auto simp: list_all2_Cons1)
    obtain s where s: "run_session (cf x) (?env\<lparr>peer := Inr cn\<rparr>) = (Ret result, Some s)" "db (ss_collector s) = d"
      using run[OF c(2)] by blast
    have eq: "env\<lparr>peer := Inr cn, db_file := f\<rparr> = ?env\<lparr>peer := Inr cn\<rparr>" by simp
    have "run_session (cf x) (env\<lparr>peer := Inr cn, db_file := f\<rparr>) = (Ret result, Some s)" unfolding eq by (rule s(1))
    with s(2) show ?thesis using t(3)[OF c(3)] by (simp add: e(1) c(1) with_peers_def)
  qed
  then show ?case using s(1,2) t(1,2) by (intro exI[of _ "segs # segss"] exI[of _ "result # sms"] exI[of _ f']) simp
qed

section \<open>The five algorithms\<close>

lemma comparison_can_play:
  assumes "(nm, hyst) \<in> set ALGORITHMS" and "from_file doc = Inr (Some shp)" "timeline shp \<noteq> []"
    and "0 \<le> n" "n \<le> segment_count sm" "n < 10 ^ 18" and "store_serves h sm"
    and "list_all (\<lambda>(off, dur, k). sql_int k) (rebuffer_events (final_report env))" and "room_comes env sm"
  shows "can_play (comparison_config (stem, doc) n cfg (nm, hyst)) env h sm"
  using assms ALGORITHMS_known[OF assms(1)]
  by (auto simp: can_play_def can_start_def comparison_config_def shaper_of_def shaper_ready_def cfg_of_def ok_iff)

lemma five_can_play:
  assumes "from_file doc = Inr (Some shp)" "timeline shp \<noteq> []" and "0 \<le> n" "n \<le> segment_count sm" "n < 10 ^ 18"
    and "store_serves h sm" and "length envs = 5" and "list_all levels_ok envs"
    and "list_all (\<lambda>env. list_all (\<lambda>(off, dur, k). sql_int k) (rebuffer_events (final_report env))) envs"
    and "list_all (\<lambda>env. room_comes env sm) envs"
  shows "list_all2 (\<lambda>x env. can_play (comparison_config (stem, doc) n cfg x) env h sm \<and> levels_ok env) ALGORITHMS envs"
  unfolding list_all2_conv_all_nth
proof (intro conjI allI impI)
  show "length ALGORITHMS = length envs" using assms(7) by (simp add: ALGORITHMS_def)
  fix i assume i: "i < length ALGORITHMS"
  then have e: "envs ! i \<in> set envs" using assms(7) by (simp add: ALGORITHMS_def)
  obtain nm hyst where a: "ALGORITHMS ! i = (nm, hyst)" by force
  then have "(nm, hyst) \<in> set ALGORITHMS" using i by (metis nth_mem)
  then show "can_play (comparison_config (stem, doc) n cfg (ALGORITHMS ! i)) (envs ! i) h sm" unfolding a
    using assms(9,10) e by (intro comparison_can_play[OF _ assms(1-6)]) (auto simp: list_all_iff)
  show "levels_ok (envs ! i)" using assms(8) e by (simp add: list_all_iff)
qed

text \<open>The names of the controllers.\<close>

lemma five_names:
  assumes "list_all2 (session_of_entry (comparison_config (stem, doc) n cfg)) ALGORITHMS sms"
  shows "map sm_abr sms = [u ''rate_based'', u ''buffer_based'', u ''bola'', u ''bola+hysteresis'', u ''mpc'']"
proof -
  have nm: "make_abr (u ''rate'') False cfg = Inr a \<Longrightarrow> abr_name a = u ''rate_based''"
    "make_abr (u ''buffer'') False cfg = Inr a \<Longrightarrow> abr_name a = u ''buffer_based''"
    "make_abr (u ''bola'') False cfg = Inr a \<Longrightarrow> abr_name a = u ''bola''"
    "make_abr (u ''bola'') True cfg = Inr a \<Longrightarrow> abr_name a = u ''bola+hysteresis''"
    "make_abr (u ''mpc'') False cfg = Inr a \<Longrightarrow> abr_name a = u ''mpc''" for a
    by (auto simp: make_abr_def Let_def lower_ascii_def py_simps)
  show ?thesis using assms nm
    by (auto simp: ALGORITHMS_def list_all2_Cons1 session_of_entry_def comparison_config_def cfg_of_def simp del: u_simps)
qed

section \<open>Properties\<close>



end
