(* ===== verification/Programs.thy ===== *)
theory Programs
  imports ArgParse PyPath Report CsvExport JsonText Drawing Server Comparison
begin

text \<open>
  The five programs as they are started from the command line: the options of each \<open>main\<close>, what it calls
  with them, and what it prints and writes.  A run is a value of \<open>outcome\<close>: the lines it prints and the files it
  writes when it ends normally, the exception that ends it (\<open>SystemExit\<close> for the errors of \<open>argparse\<close> and the
  messages of the analysis), or outside the model.  Lines are listed without their line ends.
\<close>

section \<open>Values of options\<close>

definition option_of :: "string \<Rightarrow> opt_kind \<Rightarrow> opt_value \<Rightarrow> option_spec" where
  "option_of n k v = \<lparr>o_name = u n, o_kind = k, o_default = v\<rparr>"

fun text_of :: "opt_value \<Rightarrow> pystr option" where
  "text_of (VStr s) = Some s"
| "text_of _ = None"

fun int_of :: "opt_value \<Rightarrow> int" where
  "int_of (VInt n) = n"
| "int_of _ = 0"

fun flag_of :: "opt_value \<Rightarrow> bool" where
  "flag_of (VBool b) = b"
| "flag_of _ = False"

fun finite_of :: "opt_value \<Rightarrow> real option" where
  "finite_of (VFloat (Finite x)) = Some x"
| "finite_of _ = None"

text \<open>A text with a default is never None.\<close>

definition str_of :: "opt_value \<Rightarrow> pystr" where
  "str_of v = (case text_of v of Some s \<Rightarrow> s | None \<Rightarrow> [])"

text \<open>An optional text counts only when it is not empty.\<close>

definition truthy_text :: "opt_value \<Rightarrow> pystr option" where
  "truthy_text v = (case text_of v of Some s \<Rightarrow> if s = [] then None else Some s | None \<Rightarrow> None)"

text \<open>After parsing: the rest of the program, with the options.\<close>

definition with_args :: "option_spec list \<Rightarrow> pystr list \<Rightarrow> (namespace \<Rightarrow> 'a outcome) \<Rightarrow> 'a outcome" where
  "with_args specs args body =
     (case parse_args specs args of None \<Rightarrow> Outside | Some (Inl e) \<Rightarrow> Exc e | Some (Inr ns) \<Rightarrow> body ns)"

section \<open>The client\<close>

definition client_options :: "option_spec list" where
  "client_options =
     [option_of ''--host'' OStr (VStr (u ''127.0.0.1'')), option_of ''--port'' OInt (VInt 9000),
      option_of ''--abr'' (OChoice [u ''rate'', u ''buffer'', u ''bola'', u ''mpc'']) (VStr (u ''rate'')),
      option_of ''--hysteresis'' OFlag (VBool False), option_of ''--profile'' OStr VNone,
      option_of ''--segments'' OInt (VInt DEFAULT_SEGMENT_COUNT), option_of ''--db'' OStr (VStr (u ''database/streaming.db'')),
      option_of ''--client-id'' OStr (VStr (u ''client-1'')), option_of ''--speed'' OFloat (VFloat (Finite 4)),
      option_of ''--alpha'' OFloat (VFloat (Finite 1)), option_of ''--beta'' OFloat (VFloat (Finite (9 / 2))),
      option_of ''--gamma'' OFloat (VFloat (Finite 1))]"

definition weights_of :: "namespace \<Rightarrow> qoe_config option" where
  "weights_of ns =
     (case (finite_of (ns (u ''--alpha'')), finite_of (ns (u ''--beta'')), finite_of (ns (u ''--gamma''))) of
        (Some a, Some b, Some c) \<Rightarrow> Some \<lparr>qoe_alpha = a, qoe_beta = b, qoe_gamma = c\<rparr>
      | _ \<Rightarrow> None)"

text \<open>The profile file as a session uses it: the stem of its path and its document.\<close>

definition profile_of :: "(pystr \<Rightarrow> json result) \<Rightarrow> opt_value \<Rightarrow> (pystr \<times> json result) option" where
  "profile_of load v = map_option (\<lambda>p. (path_stem (Path p), load p)) (truthy_text v)"

definition client_config :: "(pystr \<Rightarrow> json result) \<Rightarrow> namespace \<Rightarrow> run_config option" where
  "client_config load ns =
     map_option (\<lambda>cfg.
       \<lparr>rc_abr = str_of (ns (u ''--abr'')), rc_hysteresis = flag_of (ns (u ''--hysteresis'')),
        rc_profile = profile_of load (ns (u ''--profile'')), rc_segments = int_of (ns (u ''--segments'')),
        rc_client = str_of (ns (u ''--client-id'')), rc_qoe = Some cfg\<rparr>) (weights_of ns)"

text \<open>The dictionary that \<open>run_session\<close> returns.\<close>

definition summary_json :: "session_summary \<Rightarrow> json" where
  "summary_json sm = JObj
     [(u ''session_id'', JInt (sm_session sm)), (u ''abr'', JStr (sm_abr sm)), (u ''profile'', JStr (sm_profile sm)),
      (u ''segments'', JInt (sm_segments sm)), (u ''avg_bitrate_bps'', JFloat (Finite (sm_avg_bitrate sm))),
      (u ''avg_quality'', JFloat (Finite (sm_avg_quality sm))), (u ''n_switches'', JInt (sm_switches sm)),
      (u ''rebuffer_seconds'', JFloat (Finite (sm_rebuffer sm))), (u ''startup_delay'', JFloat (Finite (sm_startup sm))),
      (u ''qoe'', JFloat (Finite (sm_qoe sm))), (u ''wall_time'', JFloat (Finite (sm_wall_time sm)))]"

text \<open>One line for every segment, as the loop records it.\<close>

definition session_lines :: "int \<Rightarrow> database \<Rightarrow> pystr list" where
  "session_lines sid d = map verbose_line (segments_of sid d)"

text \<open>
  The surroundings are what the options for host, port, database and speed lead to; the printed text of the
  summary is one entry of the list.
\<close>

definition client_main :: "(pystr \<Rightarrow> json result) \<Rightarrow> (namespace \<Rightarrow> surroundings) \<Rightarrow> pystr list \<Rightarrow> pystr list outcome" where
  "client_main load env args = with_args client_options args (\<lambda>ns.
     case client_config load ns of
       None \<Rightarrow> Outside
     | Some rc \<Rightarrow>
         (case run_session rc (env ns) of
            (Ret sm, Some s) \<Rightarrow>
              Ret (session_lines (sm_session sm) (db (ss_collector s))
                   @ [[], u ''=== Session summary ==='', json_dumps 0 (summary_json sm)])
          | (Exc e, _) \<Rightarrow> Exc e
          | (Waits, _) \<Rightarrow> Waits
          | _ \<Rightarrow> Outside))"

section \<open>The server\<close>

definition server_options :: "option_spec list" where
  "server_options =
     [option_of ''--host'' OStr (VStr (u ''127.0.0.1'')), option_of ''--port'' OInt (VInt 9000),
      option_of ''--media'' OStr (VStr (u ''server/media''))]"

definition serving_line :: "segment_manager \<Rightarrow> pystr \<Rightarrow> int \<Rightarrow> pystr" where
  "serving_line sm host port =
     u ''Serving '' @ fmt_d (segment_count sm) @ u '' segments x '' @ fmt_d (int (card (dom (representations sm))))
     @ u '' representations on '' @ host @ u '':'' @ fmt_d port"

text \<open>Up to \<open>serve_forever\<close>: the line, the store, and the server from which its steps go on.\<close>

definition server_main :: "(pystr \<Rightarrow> host) \<Rightarrow> pystr list \<Rightarrow> (pystr \<times> segment_manager \<times> server_sys) outcome" where
  "server_main files args = with_args server_options args (\<lambda>ns.
     let host = str_of (ns (u ''--host'')); port = int_of (ns (u ''--port'')) in
     case segment_manager_init (files (str_of (ns (u ''--media'')))) JNull of
       Inl e \<Rightarrow> Exc e
     | Inr sm \<Rightarrow> Ret (serving_line sm host port, sm, server_init host port 16))"

section \<open>The analysis\<close>

definition analyze_options :: "option_spec list" where
  "analyze_options = [option_of ''--db'' OStr (VStr (u ''database/streaming.db'')), option_of ''--csv'' OStr VNone]"

definition analyze_main ::
  "((int \<times> int \<times> segment_data) list \<Rightarrow> pystr) option \<Rightarrow> (pystr \<Rightarrow> database option) \<Rightarrow> pystr list
     \<Rightarrow> (pystr list \<times> (pystr \<times> pystr) option) outcome" where
  "analyze_main pandas files args = with_args analyze_options args (\<lambda>ns.
     let file = files (str_of (ns (u ''--db''))) in
     case analyze_lines file of
       Inl e \<Rightarrow> Exc e
     | Inr lines \<Rightarrow>
         (case truthy_text (ns (u ''--csv'')) of
            None \<Rightarrow> Ret (lines, None)
          | Some out \<Rightarrow>
              (case export_csv pandas (the file) of
                 Inl e \<Rightarrow> Exc e
               | Inr content \<Rightarrow> Ret (lines @ [[], u ''segment metrics exported to '' @ out], Some (out, content)))))"

section \<open>The plots\<close>

definition plots_options :: "option_spec list" where
  "plots_options =
     [option_of ''--db'' OStr (VStr (u ''database/streaming.db'')), option_of ''--out'' OStr (VStr (u ''analysis/output''))]"

record figure =
  fig_title :: pystr
  fig_upper :: "axes_call list"
  fig_lower :: "axes_call list"
  fig_path :: path

definition session_figure :: "path \<Rightarrow> session_row \<times> series \<Rightarrow> figure" where
  "session_figure out = (\<lambda>(s, ser).
     \<lparr>fig_title = u ''Session '' @ fmt_d (s_id s) @ u '': '' @ s_abr s @ u '' / '' @ s_profile s,
      fig_upper = draw_rates ser, fig_lower = draw_buffer ser,
      fig_path = path_append out (u ''session_'' @ fmt_d (s_id s) @ u ''_'' @ s_abr s @ u ''_'' @ s_profile s @ u ''.png'')\<rparr>)"

text \<open>
  Without matplotlib the program ends before it looks at the database; \<open>sqlite3.connect\<close> makes an empty database
  where there is no file, and the query then finds no table.  The figures of the sessions, what is drawn for the
  comparison, its path and the lines printed.
\<close>

definition plots_main ::
  "bool \<Rightarrow> (pystr \<Rightarrow> database option) \<Rightarrow> pystr list
     \<Rightarrow> (figure list \<times> axes_call list \<times> path \<times> pystr list) outcome" where
  "plots_main matplotlib files args = with_args plots_options args (\<lambda>ns.
     if \<not> matplotlib then Exc SystemExit
     else case files (str_of (ns (u ''--db''))) of
       None \<Rightarrow> Exc OperationalError
     | Some d \<Rightarrow>
         (case plots d of
            Inl e \<Rightarrow> Exc e
          | Inr (figs, bars) \<Rightarrow>
              (let out = Path (str_of (ns (u ''--out''))); fs = map (session_figure out) figs;
                   last_path = path_append out (u ''qoe_comparison.png'')
               in Ret (fs, draw_qoe bars, last_path,
                       map (\<lambda>p. u ''wrote '' @ path_str p) (map fig_path fs @ [last_path])))))"

section \<open>The comparison\<close>

definition comparison_options :: "option_spec list" where
  "comparison_options =
     [option_of ''--host'' OStr (VStr (u ''127.0.0.1'')), option_of ''--port'' OInt (VInt 9000),
      option_of ''--profile'' OStr (VStr (u ''experiments/fluctuating.json'')), option_of ''--segments'' OInt (VInt 18),
      option_of ''--db'' OStr (VStr (u ''database/streaming.db'')), option_of ''--speed'' OFloat (VFloat (Finite 1)),
      option_of ''--alpha'' OFloat (VFloat (Finite 1)), option_of ''--beta'' OFloat (VFloat (Finite (9 / 2))),
      option_of ''--gamma'' OFloat (VFloat (Finite 1))]"

definition running_line :: "pystr \<Rightarrow> int \<Rightarrow> pystr \<times> bool \<Rightarrow> pystr" where
  "running_line profile n = (\<lambda>(abr, hyst).
     u ''--- running '' @ abr @ (if hyst then u ''+hysteresis'' else []) @ u '' on '' @ path_name (Path profile)
     @ u '' ('' @ fmt_d n @ u '' segments) ---'')"

definition results_path :: "pystr \<Rightarrow> path" where
  "results_path db_path = path_append (path_parent (Path db_path)) (u ''last_comparison.json'')"

text \<open>An empty profile path means no profile, as for every session.\<close>

definition entry_config :: "(pystr \<Rightarrow> json result) \<Rightarrow> pystr \<Rightarrow> int \<Rightarrow> qoe_config \<Rightarrow> pystr \<times> bool \<Rightarrow> run_config" where
  "entry_config load profile n cfg x =
     (comparison_config (path_stem (Path profile), load profile) n cfg x)\<lparr>rc_profile := profile_of load (VStr profile)\<rparr>"

text \<open>The lines printed, the file of the results with its text, and the database file afterwards.\<close>

definition comparison_main ::
  "(pystr \<Rightarrow> json result) \<Rightarrow> (namespace \<Rightarrow> surroundings list) \<Rightarrow> (pystr \<Rightarrow> database option) \<Rightarrow> pystr list
     \<Rightarrow> (pystr list \<times> (path \<times> pystr) \<times> database option) outcome" where
  "comparison_main load envs files args = with_args comparison_options args (\<lambda>ns.
     let profile = str_of (ns (u ''--profile'')); n = int_of (ns (u ''--segments'')); db_path = str_of (ns (u ''--db'')) in
     case weights_of ns of
       None \<Rightarrow> Outside
     | Some cfg \<Rightarrow>
         (case compare (entry_config load profile n cfg) ALGORITHMS (envs ns) (files db_path) of
            (Ret sms, file') \<Rightarrow>
              Ret (map (running_line profile n) ALGORITHMS @ [] # comparison_table sms
                     @ [[], u ''results written to '' @ path_str (results_path db_path)],
                   (results_path db_path, json_dumps 0 (JList (map summary_json sms))), file')
          | (Exc e, _) \<Rightarrow> Exc e
          | (Waits, _) \<Rightarrow> Waits
          | (Outside, _) \<Rightarrow> Outside))"

section \<open>The command lines\<close>

lemma parsers_ok: "parser_ok client_options" "parser_ok server_options" "parser_ok analyze_options" "parser_ok plots_options"
    "parser_ok comparison_options"
  by code_simp+

lemma client_config_known:
  assumes "well_typed client_options ns" and "client_config load ns = Some rc"
  shows "\<exists>a. make_abr (rc_abr rc) (rc_hysteresis rc) (cfg_of rc) = Inr a"
proof -
  have "str_of (ns (u ''--abr'')) \<in> {u ''rate'', u ''buffer'', u ''bola'', u ''mpc''}"
    using assms(1) by (cases "ns (u ''--abr'')") (auto simp: well_typed_def allowed_def client_options_def option_of_def str_of_def)
  then have "lower_ascii (rc_abr rc) = rc_abr rc" "rc_abr rc \<in> {u ''rate'', u ''buffer'', u ''bola'', u ''mpc''}"
    using assms(2) by (auto simp: client_config_def lower_ascii_def)
  then show ?thesis by (auto simp: make_abr_def Let_def config_defs default_buffer default_bola)
qed

text \<open>The rows of a session name its segments.\<close>

lemma metric_rows_segments: "map fst (metric_rows prof nm b ps) = map bs_segment ps"
  by (induction ps arbitrary: b) simp_all

lemma session_rows:
  assumes "run_session rc env = (Ret result, Some s)" and "surroundings_ok env"
  shows "map m_segment (segments_of (sm_session result) (db (ss_collector s))) = map (\<lambda>i. i + 1) (iota (rc_segments rc))"
proof -
  let ?rs = "segments_of (sm_session result) (db (ss_collector s))"
  obtain nm where t: "map row_view ?rs = metric_rows (profile_name rc) nm 500000 (ss_puts s)"
    "map bs_segment (ss_puts s) = map (\<lambda>i. i + 1) (iota (rc_segments rc))"
    using session_tables[OF assms] by (auto simp: Let_def)
  have "map m_segment ?rs = map fst (map row_view ?rs)" by (simp add: row_view_def)
  also have "\<dots> = map bs_segment (ss_puts s)" unfolding t(1) by (rule metric_rows_segments)
  finally show ?thesis using t(2) by simp
qed

section \<open>Properties\<close>

text \<open>The two options that may have no value.\<close>

lemma none_defaults:
  "list_all (\<lambda>sp. o_default sp \<noteq> VNone \<or> o_name sp \<in> {u ''--profile'', u ''--csv''}) client_options"
  "list_all (\<lambda>sp. o_default sp \<noteq> VNone \<or> o_name sp \<in> {u ''--profile'', u ''--csv''}) analyze_options"
  "list_all (\<lambda>sp. o_default sp \<noteq> VNone) server_options" "list_all (\<lambda>sp. o_default sp \<noteq> VNone) plots_options"
  "list_all (\<lambda>sp. o_default sp \<noteq> VNone) comparison_options"
  by code_simp+

lemma none_options:
  assumes "specs \<in> {client_options, server_options, analyze_options, plots_options, comparison_options}" and "sp \<in> set specs"
    and "allowed sp v"
  shows "has_type (o_kind sp) v \<or> (v = VNone \<and> o_name sp \<in> {u ''--profile'', u ''--csv''} \<and> specs \<in> {client_options, analyze_options})"
proof -
  have "o_default sp \<noteq> VNone \<or> (o_name sp \<in> {u ''--profile'', u ''--csv''} \<and> specs \<in> {client_options, analyze_options})"
    using assms(1,2) none_defaults unfolding list_all_iff by blast
  then show ?thesis using assms(3) by (auto simp: allowed_def simp del: u_simps)
qed

text \<open>C18: No program gets a wrong value from its command line: for every list of arguments (without an argument \<open>--\<close>) the
  parser of each of the five programs ends the program with SystemExit or gives every option a value of its
  type, its choices included; only \<open>--profile\<close> of the client and \<open>--csv\<close> of the analysis, which need not be there, may be
  None; and what the client's parser accepts never makes the factory of the controllers raise ValueError.\<close>

theorem command_lines_typed:
  assumes "specs \<in> {client_options, server_options, analyze_options, plots_options, comparison_options}"
    and "parse_args specs args = Some r"
  shows "r = Inl SystemExit \<or> (\<exists>ns. r = Inr ns
    \<and> (\<forall>sp\<in>set specs. has_type (o_kind sp) (ns (o_name sp))
         \<or> (ns (o_name sp) = VNone \<and> o_name sp \<in> {u ''--profile'', u ''--csv''} \<and> specs \<in> {client_options, analyze_options}))
    \<and> (\<forall>load rc. specs = client_options \<and> client_config load ns = Some rc \<longrightarrow>
         (\<exists>a. make_abr (rc_abr rc) (rc_hysteresis rc) (cfg_of rc) = Inr a)))"
proof -
  have "parser_ok specs" using assms(1) parsers_ok by blast
  from parse_args_cases[OF this assms(2)] show ?thesis
  proof
    assume "\<exists>ns. r = Inr ns \<and> well_typed specs ns"
    then obtain ns where ns: "r = Inr ns" "well_typed specs ns" by blast
    have "\<forall>sp\<in>set specs. has_type (o_kind sp) (ns (o_name sp))
        \<or> (ns (o_name sp) = VNone \<and> o_name sp \<in> {u ''--profile'', u ''--csv''} \<and> specs \<in> {client_options, analyze_options})"
      using none_options[OF assms(1)] ns(2) by (simp only: well_typed_def list_all_iff) blast
    then show ?thesis using ns client_config_known by blast
  qed blast
qed

text \<open>The example of the README for the hysteresis controller.\<close>

definition readme_args :: "pystr list" where
  "readme_args = [u ''--abr'', u ''bola'', u ''--hysteresis'', u ''--profile'', u ''experiments/sudden_drop.json'']"

lemma readme_parses: "\<exists>ns. parse_args client_options readme_args = Some (Inr ns)
    \<and> ns (u ''--abr'') = VStr (u ''bola'') \<and> ns (u ''--hysteresis'') = VBool True \<and> ns (u ''--segments'') = VInt 60"
proof -
  let ?P = "\<lambda>r. case r of Some (Inr ns) \<Rightarrow> ns (u ''--abr'') = VStr (u ''bola'') \<and> ns (u ''--hysteresis'') = VBool True
      \<and> ns (u ''--segments'') = VInt 60 | _ \<Rightarrow> False"
  have "?P (parse_args client_options readme_args)" by code_simp
  then show ?thesis by (auto split: option.splits sum.splits)
qed

lemma command_lines_typed_witness:
  "\<exists>ns n. parse_args client_options readme_args = Some (Inr ns) \<and> ns (u ''--port'') = VInt n
    \<and> ns (u ''--abr'') = VStr (u ''bola'') \<and> has_type (OChoice [u ''rate'', u ''buffer'', u ''bola'', u ''mpc'']) (ns (u ''--abr''))"
proof -
  obtain ns where ns: "parse_args client_options readme_args = Some (Inr ns)" "ns (u ''--abr'') = VStr (u ''bola'')"
    using readme_parses by blast
  let ?abr = "OChoice [u ''rate'', u ''buffer'', u ''bola'', u ''mpc'']"
  have o: "option_of ''--port'' OInt (VInt 9000) \<in> set client_options" "option_of ''--abr'' ?abr (VStr (u ''rate'')) \<in> set client_options"
    by (simp_all add: client_options_def)
  have names: "u ''--port'' \<notin> {u ''--profile'', u ''--csv''}" "u ''--abr'' \<notin> {u ''--profile'', u ''--csv''}" by code_simp+
  from command_lines_typed[OF _ ns(1)] have t: "\<forall>sp\<in>set client_options. has_type (o_kind sp) (ns (o_name sp))
      \<or> (ns (o_name sp) = VNone \<and> o_name sp \<in> {u ''--profile'', u ''--csv''} \<and> client_options \<in> {client_options, analyze_options})"
    by (auto simp del: u_simps)
  have "has_type OInt (ns (u ''--port''))" "has_type ?abr (ns (u ''--abr''))"
    using t[THEN bspec, OF o(1)] t[THEN bspec, OF o(2)] names by (auto simp: option_of_def simp del: u_simps)
  then show ?thesis using ns by (cases "ns (u ''--port'')") (auto simp del: u_simps)
qed



text \<open>What is needed for the file of the results to read back.\<close>

lemma results_printable:
  assumes "list_all (\<lambda>sm. printable (summary_json sm)) sms"
  shows "printable (JList (map summary_json sms))"
  using assms by (simp add: list_all_iff)

lemma entry_config_comparison: "profile \<noteq> [] \<Longrightarrow> entry_config load profile n cfg = comparison_config (path_stem (Path profile), load profile) n cfg"
  by (rule ext) (auto simp: entry_config_def profile_of_def truthy_text_def comparison_config_def split: prod.splits)

text \<open>The first lines of a run, the table, the file.\<close>

lemma comparison_main_Ret:
  assumes "comparison_main load envs files args = Ret (lines, (p, content), file')"
  shows "\<exists>ns cfg sms. parse_args comparison_options args = Some (Inr ns) \<and> weights_of ns = Some cfg
    \<and> compare (entry_config load (str_of (ns (u ''--profile''))) (int_of (ns (u ''--segments''))) cfg) ALGORITHMS (envs ns)
        (files (str_of (ns (u ''--db'')))) = (Ret sms, file')
    \<and> lines = map (running_line (str_of (ns (u ''--profile''))) (int_of (ns (u ''--segments'')))) ALGORITHMS @ [] # comparison_table sms
        @ [[], u ''results written to '' @ path_str p]
    \<and> p = results_path (str_of (ns (u ''--db''))) \<and> content = json_dumps 0 (JList (map summary_json sms))"
proof -
  from assms obtain ns where ns: "parse_args comparison_options args = Some (Inr ns)"
    unfolding comparison_main_def with_args_def by (cases "parse_args comparison_options args") (auto split: sum.splits simp del: u_simps)
  let ?profile = "str_of (ns (u ''--profile''))" and ?n = "int_of (ns (u ''--segments''))" and ?db = "str_of (ns (u ''--db''))"
  note run = assms[unfolded comparison_main_def with_args_def ns Let_def option.case sum.case]
  obtain cfg where cfg: "weights_of ns = Some cfg" using run by (cases "weights_of ns") simp_all
  obtain r f where r: "compare (entry_config load ?profile ?n cfg) ALGORITHMS (envs ns) (files ?db) = (r, f)" by force
  note run = run[unfolded cfg option.case r prod.case]
  obtain sms where sms: "r = Ret sms" using run by (cases r) simp_all
  show ?thesis using run ns cfg r unfolding sms outcome.case by (intro exI[of _ ns] exI[of _ cfg] exI[of _ sms])
    (simp only: outcome.inject prod.inject, elim conjE, intro conjI; simp only:)
qed

text \<open>A line of the comparison has cells of the line of the analysis: all but the number and the profile.\<close>

definition without_session :: "analysis_row \<Rightarrow> pystr" where
  "without_session r = join (u '' '') (map ((!) (analysis_cells r)) [1, 3, 4, 5, 6, 7])"

lemma analyze_main_default:
  assumes "analyze (Some d) = Inr rows"
  shows "analyze_main pandas (\<lambda>_. Some d) [] = Ret (analysis_table rows, None)"
proof -
  have p: "parse_args analyze_options [] = Some (Inr (defaults analyze_options))" by (simp add: parse_args_def)
  have "defaults analyze_options (u ''--csv'') = VNone"
    using defaults_of[OF parsers_ok(3), of "option_of ''--csv'' OStr VNone"] by (simp add: analyze_options_def option_of_def)
  then show ?thesis
    using assms unfolding analyze_main_def with_args_def p by (simp add: analyze_lines_def truthy_text_def Let_def del: u_simps)
qed

text \<open>C4: The programs agree: when the comparison program ends normally, it has printed the line for the profile and the
  segments asked for of each of the five algorithms and then a table; in the analysis of the database it
  leaves the rows of the database file that it was given come first, unchanged, and then five, which are the
  summaries of the five algorithms in their order; the analysis program prints the lines of the
  earlier rows and then five lines with exactly the cells of
  the comparison's table and the number and profile of the session; and the file of the results is
  ASCII and reads back as exactly the summaries behind both tables, if their numbers are finite.\<close>

theorem comparison_then_analysis:
  assumes "comparison_main load envs files args = Ret (lines, (p, content), file')"
    and "\<forall>ns. length (envs ns) = 5 \<and> list_all levels_ok (envs ns)" and "\<forall>path. db_ok (db (collector_init (files path)))"
  shows "\<exists>ns cfg sms d. let profile = str_of (ns (u ''--profile'')); n = int_of (ns (u ''--segments''));
      old = map analysis_row_of (load_sessions (db (collector_init (files (str_of (ns (u ''--db''))))))) in
    parse_args comparison_options args = Some (Inr ns) \<and> weights_of ns = Some cfg
    \<and> length sms = 5 \<and> list_all2 (session_of_entry (entry_config load profile n cfg)) ALGORITHMS sms \<and> file' = Some d
    \<and> analyze (Some d) = Inr (old @ map summary_row sms)
    \<and> lines = map (running_line profile n) ALGORITHMS @ [] # comparison_header # replicate (length comparison_header) 45
        # map (\<lambda>sm. without_session (summary_row sm)) sms @ [[], u ''results written to '' @ path_str p]
    \<and> analyze_main pandas (\<lambda>_. Some d) [] = Ret (analysis_header # replicate (length analysis_header) 45 # map analysis_line old
        @ map (\<lambda>sm. analysis_line (summary_row sm)) sms, None)
    \<and> (list_all (\<lambda>sm. printable (summary_json sm)) sms \<longrightarrow> is_ascii content
         \<and> (\<forall>n \<ge> json_size (JList (map summary_json sms)). json_loads n content = Some (JList (map summary_json sms))))"
proof -
  from comparison_main_Ret[OF assms(1)] obtain ns cfg sms where ns: "parse_args comparison_options args = Some (Inr ns)" "weights_of ns = Some cfg"
    and c:
    "compare (entry_config load (str_of (ns (u ''--profile''))) (int_of (ns (u ''--segments''))) cfg) ALGORITHMS (envs ns)
        (files (str_of (ns (u ''--db'')))) = (Ret sms, file')"
    "lines = map (running_line (str_of (ns (u ''--profile''))) (int_of (ns (u ''--segments'')))) ALGORITHMS @ [] # comparison_table sms
        @ [[], u ''results written to '' @ path_str p]" "content = json_dumps 0 (JList (map summary_json sms))"
    by (elim exE conjE) (rule that)
  let ?f = "files (str_of (ns (u ''--db'')))"
  have "length ALGORITHMS \<le> length (envs ns)" using assms(2) by (simp add: ALGORITHMS_def)
  moreover have "list_all (\<lambda>env. \<forall>n. level_ok (level_readings env n)) (envs ns)"
    using assms(2) by (auto simp: levels_ok_def list_all_iff)
  ultimately have r: "map analysis_row_of (load_sessions (db (collector_init file'))) =
      map analysis_row_of (load_sessions (db (collector_init ?f))) @ map summary_row sms"
    "list_all2 (session_of_entry (entry_config load (str_of (ns (u ''--profile''))) (int_of (ns (u ''--segments''))) cfg)) ALGORITHMS sms"
    "\<exists>d. file' = Some d"
    using compare_adds[OF c(1)] assms(3) by (auto simp: ALGORITHMS_def simp del: u_simps)
  have len: "length sms = 5" using list_all2_lengthD[OF r(2)] by (simp add: ALGORITHMS_def)
  obtain d where d: "file' = Some d" using r(3) by blast
  let ?old = "map analysis_row_of (load_sessions (db (collector_init ?f)))"
  have rows: "map analysis_row_of (load_sessions d) = ?old @ map summary_row sms" using r(1) d by (simp add: collector_init_def)
  then have an: "analyze (Some d) = Inr (?old @ map summary_row sms)" using len by (auto simp: analyze_def Let_def)
  note main = analyze_main_default[OF an, of pandas]
  have json: "is_ascii content \<and> (\<forall>n \<ge> json_size (JList (map summary_json sms)). json_loads n content = Some (JList (map summary_json sms)))"
    if "list_all (\<lambda>sm. printable (summary_json sm)) sms"
    using json_dumps_ascii[OF results_printable[OF that]] json_loads_dumps[OF results_printable[OF that]] unfolding c(3) by blast
  let ?first = "map (running_line (str_of (ns (u ''--profile''))) (int_of (ns (u ''--segments'')))) ALGORITHMS"
  have "comparison_table sms = comparison_header # replicate (length comparison_header) 45 # map (\<lambda>sm. without_session (summary_row sm)) sms"
    by (simp add: comparison_table_def comparison_line_cells without_session_def)
  then have out: "lines = ?first @ [] # comparison_header # replicate (length comparison_header) 45
      # map (\<lambda>sm. without_session (summary_row sm)) sms @ [[], u ''results written to '' @ path_str p]" unfolding c(2) by simp
  have "analyze_main pandas (\<lambda>_. Some d) [] = Ret (analysis_header # replicate (length analysis_header) 45
      # map analysis_line ?old @ map (\<lambda>sm. analysis_line (summary_row sm)) sms, None)"
    using main by (simp add: analysis_table_def comp_def)
  then show ?thesis unfolding Let_def using ns len r(2) d an out json
    by (intro exI[of _ ns] exI[of _ cfg] exI[of _ sms] exI[of _ d] conjI impI) (assumption | simp)+
qed

lemma comparison_then_analysis_witness:
  "\<exists>cns lines p content d sms.
     comparison_main (\<lambda>_. Inr (JObj [])) (\<lambda>_. with_peers (replicate 5 one_surroundings) cns) (\<lambda>_. None) [] = Ret (lines, (p, content), Some d)
     \<and> map sm_abr sms = [u ''rate_based'', u ''buffer_based'', u ''bola'', u ''bola+hysteresis'', u ''mpc''] \<and> analyze (Some d) = Inr (map summary_row sms)
    \<and> analyze_main None (\<lambda>_. Some d) [] = Ret (analysis_header # replicate (length analysis_header) 45
         # map (\<lambda>sm. analysis_line (summary_row sm)) sms, None)"
proof -
  let ?envs = "replicate 5 one_surroundings" and ?doc = "Inr (JObj [])" and ?ns = "defaults comparison_options"
  let ?profile = "u ''experiments/fluctuating.json''"
  have p: "from_file ?doc = Inr (Some \<lparr>sh_name = JStr (u ''custom''), latency_s = 0, packet_loss = 0,
      timeline = [(0, 10000000)], sh_start = None\<rparr>)" (is "_ = Inr (Some ?shp)")
    by (simp add: from_file_def shaper_init_def bind_finite_def or_default_def default_timeline_def)
  have e: "timeline ?shp \<noteq> []" "(0::int) \<le> 18" "18 \<le> segment_count sample_store" "(18::int) < 10 ^ 18" "length ?envs = 5"
    "list_all levels_ok ?envs" "db_ok (db (collector_init None))"
    "list_all (\<lambda>env. list_all (\<lambda>(off, dur, k). sql_int k) (rebuffer_events (final_report env))) ?envs"
    using one_surroundings_ok
    by (auto simp: sample_store_def surroundings_ok_def levels_ok_def list_all_iff) (simp_all add: one_surroundings_def playback_report_init_def)
  have d: "?ns (u n) = v" if "option_of n k v \<in> set comparison_options" for n k v
    using defaults_of[OF parsers_ok(5) that] by (simp add: option_of_def)
  have ns: "parse_args comparison_options [] = Some (Inr ?ns)" by (simp add: parse_args_def)
  have v: "?ns (u ''--profile'') = VStr ?profile" "?ns (u ''--segments'') = VInt 18"
    "?ns (u ''--alpha'') = VFloat (Finite 1)" "?ns (u ''--beta'') = VFloat (Finite (9 / 2))" "?ns (u ''--gamma'') = VFloat (Finite 1)"
    by (rule d[of _ OStr], simp add: comparison_options_def) (rule d[of _ OInt], simp add: comparison_options_def,
      (rule d[of _ OFloat], simp add: comparison_options_def)+)
  let ?cfg = "\<lparr>qoe_alpha = 1, qoe_beta = 9 / 2, qoe_gamma = 1\<rparr>" and ?stem = "path_stem (Path ?profile)"
  have cfg: "weights_of ?ns = Some ?cfg" by (simp add: weights_of_def v del: u_simps)
  have room: "list_all (\<lambda>env. room_comes env sample_store) ?envs"
    using three_segments_can_play by (simp add: can_play_def list_all_iff)
  from compare_served[OF five_can_play[OF p e(1-4) store_serves_files e(5,6,8) room] e(7), of ?stem ?cfg] obtain segss sms f' where c:
    "\<And>cns. list_all2 delivers segss cns \<Longrightarrow> compare (comparison_config (?stem, ?doc) 18 ?cfg) ALGORITHMS (with_peers ?envs cns) None = (Ret sms, f')"
    "list_all2 (\<lambda>x segs. segments_for file_host sample_store (comparison_config (?stem, ?doc) 18 ?cfg x) segs) ALGORITHMS segss"
    by (elim exE conjE) (rule that, blast, assumption)
  obtain cns where cns: "list_all2 delivers segss cns" using deliveries_possible by blast
  have len: "length cns = 5" using list_all2_lengthD[OF c(2)] list_all2_lengthD[OF cns] by (simp add: ALGORITHMS_def)
  have prof: "?profile \<noteq> []" by simp
  have run: "compare (entry_config (\<lambda>_. ?doc) ?profile 18 ?cfg) ALGORITHMS (with_peers ?envs cns) None = (Ret sms, f')"
    unfolding entry_config_comparison[OF prof] by (rule c(1)[OF cns])
  have "\<exists>out. comparison_main (\<lambda>_. ?doc) (\<lambda>_. with_peers ?envs cns) (\<lambda>_. None) [] = Ret out"
    unfolding comparison_main_def with_args_def ns option.case sum.case Let_def v cfg str_of_def text_of.simps int_of.simps run prod.case outcome.case
    by blast
  then obtain lines p content file' where m:
    "comparison_main (\<lambda>_. ?doc) (\<lambda>_. with_peers ?envs cns) (\<lambda>_. None) [] = Ret (lines, (p, content), file')" by (metis prod.exhaust)
  have "\<forall>ns :: namespace. length (with_peers ?envs cns) = 5 \<and> list_all levels_ok (with_peers ?envs cns)"
    using len e(6) by (auto simp: with_peers_def levels_ok_def list_all_iff set_zip)
  moreover have "\<forall>path :: pystr. db_ok (db (collector_init None))" using e(7) by blast
  ultimately obtain ns cfg sms d where r: "parse_args comparison_options [] = Some (Inr ns)" "file' = Some d"
    "list_all2 (session_of_entry (entry_config (\<lambda>_. ?doc) (str_of (ns (u ''--profile''))) (int_of (ns (u ''--segments''))) cfg)) ALGORITHMS sms"
    "analyze (Some d) = Inr (map analysis_row_of (load_sessions (db (collector_init None))) @ map summary_row sms)"
    "analyze_main None (\<lambda>_. Some d) [] = Ret (analysis_header # replicate (length analysis_header) 45
       # map analysis_line (map analysis_row_of (load_sessions (db (collector_init None)))) @ map (\<lambda>sm. analysis_line (summary_row sm)) sms, None)"
    using comparison_then_analysis[OF m, of None] unfolding Let_def by metis
  have "ns = ?ns" using r(1) ns by simp
  then have pr: "str_of (ns (u ''--profile'')) = ?profile" by (simp add: v(1) str_of_def del: u_simps)
  have names: "map sm_abr sms = [u ''rate_based'', u ''buffer_based'', u ''bola'', u ''bola+hysteresis'', u ''mpc'']"
    using r(3) unfolding pr entry_config_comparison[OF prof] by (rule five_names)
  have old: "load_sessions (db (collector_init None)) = []"
    by (simp add: collector_init_def empty_database_def load_sessions_def left_join_def)
  note last = r(4,5)[unfolded old list.map append_Nil]
  show ?thesis by (intro exI conjI) (rule m[unfolded r(2)], rule names, rule last, rule last)
qed

section \<open>The figures\<close>

lemma fmt_d_before_underscore: "fmt_d i @ 95 # x = fmt_d j @ 95 # y \<Longrightarrow> i = j"
proof -
  assume e: "fmt_d i @ 95 # x = fmt_d j @ 95 # y"
  have free: "95 \<notin> set (fmt_d k)" for k using fmt_d_chars by (fastforce simp: ascii_digit_def)
  have "takeWhile (\<lambda>c. c \<noteq> 95) (fmt_d k @ 95 # z) = fmt_d k" for k z using free[of k] by (subst takeWhile_append2) auto
  with e have eq: "fmt_d i = fmt_d j" by metis
  have d: "k = l" if "dec_str k = dec_str l" "0 \<le> k" "0 \<le> l" for k l
    using that digits_val_dec digits_of_dec_str by metis
  have m: "hd (fmt_d k) = 45 \<longleftrightarrow> k < 0" for k
    using hd_in_set[OF dec_str_not_Nil, THEN dec_str_ascii, of k] by (auto simp: fmt_d_def ascii_digit_def)
  show "i = j"
  proof (cases "i < 0")
    case True
    then have "j < 0" using eq m by metis
    then show ?thesis using d[of "- i" "- j"] True eq by (simp add: fmt_d_def)
  next
    case False
    then have "\<not> j < 0" using eq m by metis
    then show ?thesis using d[of i j] False eq by (simp add: fmt_d_def)
  qed
qed

text \<open>The first part of a relative path starts with any text before the first slash.\<close>

lemma parts_of_start:
  assumes "47 \<notin> set p" and "2 \<le> length p"
  shows "\<exists>x ps. parts_of (p @ s) = (p @ x) # ps"
proof -
  have "split_slash (q @ s) = (q @ hd (split_slash s)) # tl (split_slash s)" if "47 \<notin> set q" for q
    using that by (induction q) (auto split: list.splits, (cases s; auto split: list.splits if_splits)+)
  then show ?thesis using assms by (cases p) (auto simp: parts_of_def)
qed

lemma figure_paths_differ:
  assumes "fig_path (session_figure out (s, x)) = fig_path (session_figure out (t, y))"
  shows "s_id s = s_id t"
proof -
  let ?p = "\<lambda>i. u ''session_'' @ fmt_d i @ [95]"
  have free: "47 \<notin> set (?p i)" for i using fmt_d_chars[of 47 i] by (auto simp: ascii_digit_def)
  have "\<exists>z zs. path_parts (fig_path (session_figure out (r, w))) = path_parts out @ (?p (s_id r) @ z) # zs" for r w
  proof -
    obtain z zs where "parts_of (?p (s_id r) @ (s_abr r @ u ''_'' @ s_profile r @ u ''.png'')) = (?p (s_id r) @ z) # zs"
      using parts_of_start[OF free] by fastforce
    then show ?thesis by (simp add: session_figure_def path_append_def)
  qed
  then obtain z zs z' zs' where "path_parts out @ (?p (s_id s) @ z) # zs = path_parts out @ (?p (s_id t) @ z') # zs'"
    using assms by metis
  then have "fmt_d (s_id s) @ 95 # z = fmt_d (s_id t) @ 95 # z'" by simp
  then show ?thesis by (rule fmt_d_before_underscore)
qed

lemma comparison_path_differs: "path_append out (u ''qoe_comparison.png'') \<noteq> fig_path (session_figure out (s, x))"
proof
  assume e: "path_append out (u ''qoe_comparison.png'') = fig_path (session_figure out (s, x))"
  obtain z zs where "parts_of (u ''session_'' @ (fmt_d (s_id s) @ u ''_'' @ s_abr s @ u ''_'' @ s_profile s @ u ''.png'')) = (u ''session_'' @ z) # zs"
    using parts_of_start[of "u ''session_''"] by fastforce
  moreover have "parts_of (u ''qoe_comparison.png'') = [u ''qoe_comparison.png'']" by code_simp
  ultimately show False using arg_cong[OF e, of path_parts] by (simp add: session_figure_def path_append_def)
qed

lemma distinct_concat_ids:
  "(\<And>x. x \<in> set xs \<Longrightarrow> map k (g x) \<in> {[], [h x]}) \<Longrightarrow> distinct (map h xs) \<Longrightarrow>
   distinct (map k (concat (map g xs))) \<and> set (map k (concat (map g xs))) \<subseteq> set (map h xs)"
proof (induction xs)
  case (Cons x xs)
  then have IH: "distinct (map k (concat (map g xs)))" "set (map k (concat (map g xs))) \<subseteq> set (map h xs)" by simp_all
  have "map k (g x) = [] \<or> map k (g x) = [h x]" using Cons.prems(1)[of x] by simp
  then show ?case
  proof
    assume g: "map k (g x) = [h x]"
    have "h x \<notin> set (map k (concat (map g xs)))" using IH(2) Cons.prems(2) by auto
    then show ?thesis using IH by (simp only: list.map concat.simps map_append g) auto
  qed (use IH in auto)
qed simp

lemma distinct_map_finer: "distinct (map h xs) \<Longrightarrow> (\<And>x y. g x = g y \<Longrightarrow> h x = h y) \<Longrightarrow> distinct (map g xs)"
proof -
  assume a: "distinct (map h xs)" and b: "\<And>x y. g x = g y \<Longrightarrow> h x = h y"
  have h: "distinct xs" "inj_on h (set xs)" using a by (simp_all add: distinct_map)
  have "inj_on g (set xs)" by (intro inj_onI) (rule inj_onD[OF h(2) b])
  with h(1) show ?thesis by (simp add: distinct_map)
qed

lemma session_figures_ids:
  assumes "db_ok d"
  shows "distinct (map (\<lambda>f. s_id (fst f)) (session_figures (load_sessions d) (segment_frame d)))"
proof -
  have "distinct (map s_id (sort_key s_id (sessions d)))"
    using assms by (simp add: db_ok_def numbered_def distinct_map inj_on_def)
  then have d: "distinct (map (\<lambda>x. s_id (fst x)) (load_sessions d))" by (simp add: load_sessions_eq[OF assms] comp_def)
  show ?thesis unfolding session_figures_eq
    by (rule conjunct1[OF distinct_concat_ids[OF _ d]]) (auto simp: Let_def split: if_splits)
qed

lemma session_figures_accepted:
  "list_all (\<lambda>f. accepted None (fig_upper f) \<and> accepted None (fig_lower f)) (map (session_figure out) (session_figures ss segs))"
  unfolding session_figures_eq
  by (auto simp: list_all_iff session_figure_def draw_session_accepted Let_def split: if_splits prod.splits simp del: u_simps)

lemma plots_main_Ret:
  assumes "plots_main mpl files args = Ret (figs, chart, p, lines)"
  shows "\<exists>path d out. files path = Some d \<and> load_sessions d \<noteq> [] \<and> figs = map (session_figure out) (session_figures (load_sessions d) (segment_frame d))
    \<and> p = path_append out (u ''qoe_comparison.png'') \<and> chart = draw_qoe (plot_qoe (load_sessions d))
    \<and> lines = map (\<lambda>p. u ''wrote '' @ path_str p) (map fig_path figs @ [p])"
proof -
  from assms obtain ns where ns: "parse_args plots_options args = Some (Inr ns)"
    unfolding plots_main_def with_args_def by (cases "parse_args plots_options args") (auto split: sum.splits simp del: u_simps)
  let ?db = "str_of (ns (u ''--db''))" and ?out = "Path (str_of (ns (u ''--out'')))"
  note run = assms[unfolded plots_main_def with_args_def ns Let_def option.case sum.case]
  have m: "mpl = True" using run by (cases mpl) simp_all
  note run = run[unfolded m not_True_eq_False if_False]
  obtain d where d: "files ?db = Some d" using run by (cases "files ?db") (simp_all del: u_simps)
  have l: "load_sessions d \<noteq> []" using run unfolding d by (auto simp: plots_def plots_load_def simp del: u_simps)
  then have pl: "plots d = Inr (session_figures (load_sessions d) (segment_frame d), plot_qoe (load_sessions d))" by (simp add: plots_def plots_load_def)
  note run = run[unfolded d option.case pl sum.case prod.case outcome.inject prod.inject]
  show ?thesis using run d l by (intro exI[of _ ?db] exI[of _ d] exI[of _ ?out]) (elim conjE, intro conjI; simp only: not_False_eq_True)
qed

text \<open>C17: No figure overwrites another: on a well-formed database the plotting program, when it ends normally, writes
  every session with rows and the comparison to files of its own, whatever the names of the controllers and
  profiles are, prints each of these paths, and draws one bar for every session, in order, with the QoE that
  the analysis shows; and matplotlib refuses none of its calls for the sizes of their arguments.\<close>

theorem figures_do_not_overwrite:
  assumes "plots_main mpl files args = Ret (figs, chart, p, lines)" and "\<forall>path d. files path = Some d \<longrightarrow> db_ok d"
  shows "distinct (map fig_path figs @ [p]) \<and> lines = map (\<lambda>p. u ''wrote '' @ path_str p) (map fig_path figs @ [p])
    \<and> list_all (\<lambda>f. accepted None (fig_upper f) \<and> accepted None (fig_lower f)) figs \<and> accepted None chart
    \<and> (\<exists>path rows. analyze (files path) = Inr rows
         \<and> bars_of chart = map (\<lambda>r. (bar_label (t_id r, t_abr r, t_profile r), t_qoe r)) rows)"
proof -
  from plots_main_Ret[OF assms(1)] obtain path d out where r: "files path = Some d" "load_sessions d \<noteq> []"
    "figs = map (session_figure out) (session_figures (load_sessions d) (segment_frame d))" "p = path_append out (u ''qoe_comparison.png'')"
    "chart = draw_qoe (plot_qoe (load_sessions d))"
    "lines = map (\<lambda>p. u ''wrote '' @ path_str p) (map fig_path figs @ [p])"
    by (elim exE conjE) (rule that)
  have ids: "distinct (map (\<lambda>f. s_id (fst f)) (session_figures (load_sessions d) (segment_frame d)))" using session_figures_ids assms(2) r(1) by blast
  have "distinct (map (\<lambda>f. fig_path (session_figure out f)) (session_figures (load_sessions d) (segment_frame d)))"
    by (rule distinct_map_finer[OF ids]) (metis figure_paths_differ prod.collapse)
  then have "distinct (map fig_path figs)" by (simp add: r(3) comp_def)
  moreover have "p \<notin> set (map fig_path figs)"
    unfolding r(3,4) using comparison_path_differs by (auto simp del: u_simps)
  ultimately have paths: "distinct (map fig_path figs @ [p])" by simp
  have rows: "analyze (files path) = Inr (map analysis_row_of (load_sessions d))" using r(1,2) by (simp add: analyze_def Let_def)
  have "bars_of chart = map (\<lambda>r. (bar_label (t_id r, t_abr r, t_profile r), t_qoe r)) (map analysis_row_of (load_sessions d))"
    unfolding r(5) draw_qoe_bars bars_of_rows by (simp add: bar_of_def)
  moreover have "list_all (\<lambda>f. accepted None (fig_upper f) \<and> accepted None (fig_lower f)) figs"
    unfolding r(3) by (rule session_figures_accepted)
  moreover have "accepted None chart" unfolding r(5) by (rule draw_qoe_accepted)
  ultimately show ?thesis using paths r(6) rows by (intro conjI exI)
qed

text \<open>The session of the table, with one segment.\<close>

definition drawn_database :: database where
  "drawn_database = stalled_database\<lparr>session_seq := 1, segment_seq := 1, segment_metrics := [(1, 1, exported_row)]\<rparr>"

lemma figures_do_not_overwrite_witness:
  "\<exists>fig chart p lines. plots_main True (\<lambda>_. Some drawn_database) [] = Ret ([fig], chart, p, lines) \<and> fig_path fig \<noteq> p \<and> map snd (bars_of chart) = [- 17]"
proof -
  have ok: "db_ok drawn_database"
    by (simp add: drawn_database_def stalled_database_def empty_database_def db_ok_def numbered_def)
  have l: "length (load_sessions drawn_database) = 1" "map r_qoe (map (the \<circ> snd) (load_sessions drawn_database)) = [- 17]"
    "analyze (Some drawn_database) = Inr [analysis_row_of (hd (load_sessions drawn_database))]"
    "t_qoe (analysis_row_of (hd (load_sessions drawn_database))) = - 17"
    by (simp_all add: drawn_database_def stalled_database_def load_sessions_def left_join_def analyze_def analysis_row_of_def or_zero_def Let_def)
  have f: "length (session_figures (load_sessions drawn_database) (segment_frame drawn_database)) = 1"
    by (simp add: session_figures_eq Let_def drawn_database_def stalled_database_def load_sessions_def left_join_def segment_frame_def)
  have n: "load_sessions drawn_database \<noteq> []" using l(1) by auto
  have "\<exists>figs chart p lines. plots_main True (\<lambda>_. Some drawn_database) [] = Ret (figs, chart, p, lines) \<and> length figs = 1"
    using f n by (simp add: plots_main_def with_args_def parse_args_def plots_def plots_load_def Let_def del: u_simps)
  then obtain figs chart p lines where m: "plots_main True (\<lambda>_. Some drawn_database) [] = Ret (figs, chart, p, lines)" "length figs = 1"
    by blast
  obtain fig where fig: "figs = [fig]" using m(2) by (cases figs) auto
  from figures_do_not_overwrite[OF m(1)] ok have r: "distinct (map fig_path figs @ [p])"
    "\<exists>path rows. analyze (Some drawn_database) = Inr rows \<and> bars_of chart = map (\<lambda>r. (bar_label (t_id r, t_abr r, t_profile r), t_qoe r)) rows"
    by blast+
  from r(2) have "map snd (bars_of chart) = [- 17]" using l(3,4) by auto
  then show ?thesis using m(1) r(1) by (auto simp: fig)
qed

text \<open>The server program without a manifest.\<close>

lemma server_main_default:
  assumes "manifest_file (files (u ''server/media'')) = None"
  shows "\<exists>sm. server_main files [] = Ret (u ''Serving 60 segments x 4 representations on 127.0.0.1:9000'', sm, server_init (u ''127.0.0.1'') 9000 16)
    \<and> segment_count sm = 60"
proof -
  let ?ns = "defaults server_options"
  have d: "?ns (u n) = v" if "option_of n k v \<in> set server_options" for n k v
    using defaults_of[OF parsers_ok(2) that] by (simp add: option_of_def)
  have v: "?ns (u ''--host'') = VStr (u ''127.0.0.1'')" "?ns (u ''--media'') = VStr (u ''server/media'')" "?ns (u ''--port'') = VInt 9000"
    by (rule d[of _ OStr], simp add: server_options_def, rule d[of _ OStr], simp add: server_options_def)
      (rule d[of _ OInt], simp add: server_options_def)
  have sm: "segment_manager_init (files (u ''server/media'')) JNull = Inr sample_store"
    unfolding sample_store_def by (rule segment_manager_default) (simp_all add: assms del: u_simps)
  have "dom LADDER_BY_REP = {u ''360p'', u ''480p'', u ''720p'', u ''1080p''}" by (auto simp: LADDER_BY_REP_def DEFAULT_LADDER_def)
  then have c: "card (dom LADDER_BY_REP) = 4" by simp
  have "serving_line sample_store (u ''127.0.0.1'') 9000 = u ''Serving 60 segments x 4 representations on 127.0.0.1:9000''"
  proof -
    have "fmt_d 60 = u ''60''" "fmt_d 4 = u ''4''" "fmt_d 9000 = u ''9000''" by code_simp+
    then show ?thesis by (simp add: serving_line_def sample_store_def c)
  qed
  then show ?thesis
    unfolding server_main_def with_args_def parse_args_def by (simp add: v sm str_of_def Let_def sample_store_def del: u_simps)
qed

end
