(* ===== verification/ClientThreads.thy ===== *)
theory ClientThreads
  imports Buffer
begin

text \<open>
  The two threads of a session over the buffer: the loop of \<open>run_session\<close> in \<open>client/client.py\<close> puts its
  segments one after the other, without a timeout; \<open>PlaybackController.run\<close> in
  \<open>client/playback/playback_controller.py\<close> gets, always with a timeout, until it has played as many as the
  session has or has waited too long for one.  What happens inside \<open>put\<close> and \<open>get\<close> are the steps of \<open>Buffer\<close>.  Time is
  not there: a get may return None any number of times, and while the player waits for a segment (at the start, and
  after a get that returned None) the 600 seconds may be over whenever it is between two gets.
\<close>

section \<open>The system\<close>

datatype thread = Downloading | Playing

record client_threads =
  shared :: buffer_sys
  todo :: "buffered_segment list"
  to_play :: nat
  failed :: bool
  starved :: bool
  gave_up :: bool

definition call_put :: "buffered_segment \<Rightarrow> buffer_sys \<Rightarrow> buffer_sys" where
  "call_put seg s = s\<lparr>producers := (producers s)(0 := PRun seg False)\<rparr>"

definition call_get :: "buffer_sys \<Rightarrow> buffer_sys" where
  "call_get s = s\<lparr>consumers := (consumers s)(0 := CEnter True)\<rparr>"

text \<open>A get that has ended without a segment leaves the player waiting for one, a get with a segment does not.\<close>

definition waits_on :: "client_threads \<Rightarrow> buffer_sys \<Rightarrow> bool" where
  "waits_on c s = (if consumers s 0 = CIdle then taken s = taken (shared c) else starved c)"

text \<open>
  A download may fail: the loop then ends with what it has put.  The player is \<open>starved\<close> while it is in
  \<open>_wait_for_segment\<close>; it leaves it with a segment, or gives up and plays no more.  The first segment is waited for
  whatever the number of segments is.  A step inside \<open>put\<close> is one that changes
  where the producer is; a step inside \<open>get\<close> changes where the consumer is without storing a segment (a stored
  segment wakes the consumer, which is a step of the producer).
\<close>

inductive thread_step :: "thread \<Rightarrow> client_threads \<Rightarrow> client_threads \<Rightarrow> bool" where
  next_put: "producers (shared c) 0 = PIdle \<Longrightarrow> todo c = seg # rest \<Longrightarrow>
    thread_step Downloading c (c\<lparr>shared := call_put seg (shared c), todo := rest\<rparr>)"
| next_fails: "producers (shared c) 0 = PIdle \<Longrightarrow> todo c \<noteq> [] \<Longrightarrow> thread_step Downloading c (c\<lparr>todo := [], failed := True\<rparr>)"
| in_put: "producers (shared c) 0 = PRun seg False \<Longrightarrow> buffer_step (shared c) s \<Longrightarrow> producers s 0 \<noteq> PRun seg False \<Longrightarrow>
    thread_step Downloading c (c\<lparr>shared := s\<rparr>)"
| next_get: "consumers (shared c) 0 = CIdle \<Longrightarrow> length (taken (shared c)) < max 1 (to_play c) \<Longrightarrow> \<not> gave_up c \<Longrightarrow>
    thread_step Playing c (c\<lparr>shared := call_get (shared c)\<rparr>)"
| in_get: "consumers (shared c) 0 \<noteq> CIdle \<Longrightarrow> buffer_step (shared c) s \<Longrightarrow> consumers s 0 \<noteq> consumers (shared c) 0 \<Longrightarrow>
    stored s = stored (shared c) \<Longrightarrow> thread_step Playing c (c\<lparr>shared := s, starved := waits_on c s\<rparr>)"
| give_up: "consumers (shared c) 0 = CIdle \<Longrightarrow> length (taken (shared c)) < max 1 (to_play c) \<Longrightarrow> starved c \<Longrightarrow> \<not> gave_up c \<Longrightarrow>
    thread_step Playing c (c\<lparr>gave_up := True\<rparr>)"

inductive_simps downloading_simps: "thread_step Downloading c d"

inductive_simps playing_simps: "thread_step Playing c d"

definition client_start :: "real \<Rightarrow> buffered_segment list \<Rightarrow> client_threads \<Rightarrow> bool" where
  "client_start m segs c \<longleftrightarrow> (\<exists>b. buffer_manager_init m = Inr b
     \<and> c = \<lparr>shared = buffer_start b, todo = segs, to_play = length segs, failed = False, starved = True, gave_up = False\<rparr>)"

definition all_played :: "buffered_segment list \<Rightarrow> client_threads \<Rightarrow> bool" where
  "all_played segs c \<longleftrightarrow> taken (shared c) = stored (shared c) \<and> todo c = [] \<and> producers (shared c) 0 = PIdle
     \<and> buffer_empty (buf_state (shared c)) \<and> (\<exists>rest. segs = taken (shared c) @ rest \<and> (failed c \<or> rest = []))"

text \<open>The two are at rest: everything has been played, or the player has given up.\<close>

definition settled :: "buffered_segment list \<Rightarrow> client_threads \<Rightarrow> bool" where
  "settled segs c \<longleftrightarrow> gave_up c \<or> all_played segs c"

section \<open>What holds all the time\<close>

text \<open>The segment of a call of \<open>put\<close> that has not ended.\<close>

definition in_hand :: "producer \<Rightarrow> buffered_segment list" where
  "in_hand p = (case p of PIdle \<Rightarrow> [] | PRun seg _ \<Rightarrow> [seg] | PWait seg _ \<Rightarrow> [seg])"

definition untimed :: "producer \<Rightarrow> bool" where
  "untimed p \<longleftrightarrow> (case p of PIdle \<Rightarrow> True | PRun _ timed \<Rightarrow> \<not> timed | PWait _ timed \<Rightarrow> \<not> timed)"

definition timed_get :: "consumer \<Rightarrow> bool" where
  "timed_get c \<longleftrightarrow> c \<in> {CIdle, CEnter True, CWait True, CWoken}"

definition threads_inv :: "real \<Rightarrow> buffered_segment list \<Rightarrow> client_threads \<Rightarrow> bool" where
  "threads_inv m segs c \<longleftrightarrow> (let s = shared c in
     m \<le> 2 ^ 42 \<and> session_inv m s \<and> list_all (ticks_ok m) segs
   \<and> untimed (producers s 0) \<and> timed_get (consumers s 0) \<and> (\<forall>j. j \<noteq> 0 \<longrightarrow> consumers s j = CIdle)
   \<and> stored s = taken s @ queue (buf_state s)
   \<and> (\<exists>rest. segs = stored s @ in_hand (producers s 0) @ todo c @ rest \<and> (failed c \<or> rest = [])) \<and> to_play c = length segs)"

lemma session_inv_put:
  assumes "session_inv m s" and "ticks_ok m seg"
  shows "session_inv m (call_put seg s)"
  using assms by (auto simp: session_inv_def call_put_def asked_def one_producer_def)

text \<open>The steps inside \<open>put\<close>: wait, or store with or without waking the player.\<close>

lemma in_put_cases:
  assumes "producers s 0 = PRun seg False" and "buffer_step s t" and "producers t 0 \<noteq> PRun seg False"
    and "\<forall>j. j \<noteq> 0 \<longrightarrow> consumers s j = CIdle"
  obtains (wait) "put_full (buf_state s) seg" "t = s\<lparr>producers := (producers s)(0 := PWait seg False)\<rparr>"
  | (store) "\<not> put_full (buf_state s) seg" "\<not> c_waits (consumers s 0)" "t = do_store 0 seg s"
  | (wake) "\<not> put_full (buf_state s) seg" "c_waits (consumers s 0)" "t = wake_consumer 0 (do_store 0 seg s)"
proof -
  have other: "k = 0" if "c_waits (consumers s k)" for k using that assms(4) by (cases "k = 0") (auto simp: c_waits_def)
  from assms(2) show thesis
  proof (cases rule: buffer_step.cases)
    case (put_wait i seg' timed)
    then have "i = 0" using assms(1,3) by (cases "i = 0") auto
    then show thesis using put_wait assms(1) by (intro wait) simp_all
  next
    case (put_store i seg' timed)
    then have "i = 0" using assms(1,3) by (cases "i = 0") (auto simp: do_store_def)
    then show thesis using put_store assms(1) by (intro store) simp_all
  next
    case (put_notify i seg' timed k)
    then have "i = 0" using assms(1,3) by (cases "i = 0") (auto simp: do_store_def wake_consumer_def)
    then show thesis using put_notify assms(1) other[of k] by (intro wake) simp_all
  next
    case (put_timeout i seg')
    then show thesis using assms(1,3) by (cases "i = 0") auto
  next
    case (get_notify j k)
    then show thesis using assms(1,3) by (cases "k = 0") (auto simp: do_take_def wake_producer_def p_notified_def p_waits_def)
  qed (use assms(1,3) in \<open>auto simp: do_take_def split: if_splits\<close>)
qed

text \<open>The steps inside \<open>get\<close>: wait, be woken by the timeout, return None, or take with or without waking the loop.\<close>

lemma in_get_cases:
  assumes "consumers s 0 \<noteq> CIdle" and "buffer_step s t" and "consumers t 0 \<noteq> consumers s 0" and "stored t = stored s"
    and "timed_get (consumers s 0)" and "one_producer s"
  obtains (wait) "consumers s 0 = CEnter True" "queue (buf_state s) = []" "t = s\<lparr>consumers := (consumers s)(0 := CWait True)\<rparr>"
  | (expire) "consumers s 0 = CWait True" "t = s\<lparr>consumers := (consumers s)(0 := CWoken)\<rparr>"
  | (none) "consumers s 0 = CWoken" "queue (buf_state s) = []" "t = s\<lparr>consumers := (consumers s)(0 := CIdle)\<rparr>"
  | (take) "c_ready (consumers s 0)" "queue (buf_state s) \<noteq> []" "\<not> p_waits (producers s 0)" "t = do_take 0 s"
  | (wake) "c_ready (consumers s 0)" "queue (buf_state s) \<noteq> []" "p_waits (producers s 0)" "t = wake_producer 0 (do_take 0 s)"
  using assms(2)
proof (cases rule: buffer_step.cases)
  case (put_notify i seg timed k)
  then show thesis using assms(4) by (simp add: do_store_def wake_consumer_def)
next
  case (get_wait j timed)
  then have "j = 0" using assms(3) by (cases "j = 0") auto
  moreover from this have "timed = True" using get_wait assms(5) by (simp add: timed_get_def)
  ultimately show thesis using get_wait by (intro wait) simp_all
next
  case (get_expire j)
  then have "j = 0" using assms(3) by (cases "j = 0") auto
  then show thesis using get_expire by (intro expire) simp_all
next
  case (get_none j)
  then have "j = 0" using assms(3) by (cases "j = 0") auto
  then show thesis using get_none by (intro none) simp_all
next
  case (get_take j)
  then have "j = 0" using assms(3) by (cases "j = 0") (auto simp: do_take_def)
  then show thesis using get_take by (intro take) simp_all
next
  case (get_notify j k)
  then have "j = 0" using assms(3) by (cases "j = 0") (auto simp: do_take_def wake_producer_def)
  moreover have "k = 0" using get_notify(4) assms(6) one_producer_waits by blast
  ultimately show thesis using get_notify by (intro wake) simp_all
qed (use assms(1,3) in \<open>auto simp: do_store_def split: if_splits\<close>)

lemma do_store_threads [simp]:
  "stored (do_store i seg s) = stored s @ [seg]" "taken (do_store i seg s) = taken s" "consumers (do_store i seg s) = consumers s"
  "producers (do_store i seg s) = (producers s)(i := PIdle)" "queue (buf_state (do_store i seg s)) = queue (buf_state s) @ [seg]"
  by (simp_all add: do_store_def put_append_def)

lemma do_take_threads [simp]:
  "stored (do_take j s) = stored s" "taken (do_take j s) = taken s @ [hd (queue (buf_state s))]" "producers (do_take j s) = producers s"
  "consumers (do_take j s) = (consumers s)(j := CIdle)" "queue (buf_state (do_take j s)) = tl (queue (buf_state s))"
  by (simp_all add: do_take_def get_popleft_def Let_def)

lemma wake_threads [simp]:
  "stored (wake_consumer k s) = stored s" "taken (wake_consumer k s) = taken s" "producers (wake_consumer k s) = producers s"
  "consumers (wake_consumer k s) = (consumers s)(k := CWoken)" "buf_state (wake_consumer k s) = buf_state s"
  "stored (wake_producer k s) = stored s" "taken (wake_producer k s) = taken s" "consumers (wake_producer k s) = consumers s"
  "producers (wake_producer k s) = (producers s)(k := p_notified (producers s k))" "buf_state (wake_producer k s) = buf_state s"
  by (simp_all add: wake_consumer_def wake_producer_def)

lemma call_threads [simp]:
  "stored (call_put seg s) = stored s" "taken (call_put seg s) = taken s" "consumers (call_put seg s) = consumers s"
  "producers (call_put seg s) = (producers s)(0 := PRun seg False)" "buf_state (call_put seg s) = buf_state s"
  "stored (call_get s) = stored s" "taken (call_get s) = taken s" "producers (call_get s) = producers s"
  "consumers (call_get s) = (consumers s)(0 := CEnter True)" "buf_state (call_get s) = buf_state s"
  by (simp_all add: call_put_def call_get_def)

lemma in_hand_simps [simp]: "in_hand PIdle = []" "in_hand (PRun seg b) = [seg]" "in_hand (PWait seg b) = [seg]"
  "untimed PIdle" "untimed (PRun seg b) = (\<not> b)" "untimed (PWait seg b) = (\<not> b)"
  "in_hand (p_notified p) = in_hand p" "untimed (p_notified p) = untimed p"
  by (auto simp: in_hand_def untimed_def p_notified_def split: producer.splits)

lemma timed_get_simps [simp]: "timed_get CIdle" "timed_get (CEnter True)" "timed_get (CWait True)" "timed_get CWoken"
  by (simp_all add: timed_get_def)

text \<open>A step inside a call keeps the invariant of the buffer when it asks for nothing new.\<close>

lemma session_inv_inside:
  assumes "m \<le> 2 ^ 42" and "session_inv m s" and "buffer_step s t"
    and "\<And>i. producers t i \<noteq> PIdle \<Longrightarrow> in_hand (producers t i) = in_hand (producers s i)"
  shows "session_inv m t"
proof (rule session_inv_step[OF assms(1,2)])
  have "producers t i = PIdle" if "i \<noteq> 0" for i
    using assms(2) assms(4)[of i] that by (cases "producers t i") (auto simp: session_inv_def one_producer_def)
  moreover have "ticks_ok m seg" if "producers t i = PRun seg timed \<or> producers t i = PWait seg timed" for i seg timed
    using assms(2) assms(4)[of i] that by (cases "producers s i") (auto simp: session_inv_def asked_def)
  ultimately show "session_step m s t" using assms(3) by (simp add: session_step_def run_step_def asked_def one_producer_def)
qed

lemma threads_inv_put:
  assumes inv: "threads_inv m segs c" and step: "thread_step Downloading c d"
  shows "threads_inv m segs d"
  using step
proof cases
  case (next_put seg rest)
  have "ticks_ok m seg" using inv next_put(3) by (auto simp: threads_inv_def Let_def)
  then show ?thesis using inv next_put session_inv_put[of m "shared c" seg] by (auto simp: threads_inv_def Let_def)
next
  case next_fails
  then show ?thesis using inv by (auto simp: threads_inv_def Let_def)
next
  case (in_put seg s)
  have i: "m \<le> 2 ^ 42" "session_inv m (shared c)" "\<forall>j. j \<noteq> 0 \<longrightarrow> consumers (shared c) j = CIdle"
    using inv by (simp_all add: threads_inv_def Let_def)
  note s = session_inv_inside[OF i(1,2) in_put(3)]
  from in_put(2-4) i(3) show ?thesis
  proof (cases rule: in_put_cases)
    case wait
    then have "session_inv m s" using in_put(2) by (intro s) (auto split: if_splits)
    then show ?thesis using inv in_put(1,2) wait by (auto simp: threads_inv_def Let_def)
  next
    case store
    then have "session_inv m s" by (intro s) (auto split: if_splits)
    then show ?thesis using inv in_put(1,2) store by (auto simp: threads_inv_def Let_def)
  next
    case wake
    then have "session_inv m s" by (intro s) (auto split: if_splits)
    then show ?thesis using inv in_put(1,2) wake by (auto simp: threads_inv_def Let_def)
  qed
qed

lemma threads_inv_get:
  assumes inv: "threads_inv m segs c" and step: "thread_step Playing c d"
  shows "threads_inv m segs d"
  using step
proof cases
  case next_get
  then show ?thesis using inv
    by (auto simp: threads_inv_def Let_def session_inv_def asked_def one_producer_def)
next
  case give_up
  then show ?thesis using inv by (auto simp: threads_inv_def Let_def)
next
  case (in_get s)
  have i: "m \<le> 2 ^ 42" "session_inv m (shared c)" "timed_get (consumers (shared c) 0)" "one_producer (shared c)"
    using inv by (simp_all add: threads_inv_def Let_def session_inv_def)
  note s = session_inv_inside[OF i(1,2) in_get(3)]
  from in_get(2-5) i(3,4) show ?thesis
  proof (cases rule: in_get_cases)
    case take
    then have "session_inv m s" by (intro s) auto
    then show ?thesis using inv in_get(1) take by (auto simp: threads_inv_def Let_def)
  next
    case wake
    then have "session_inv m s" by (intro s) (auto split: if_splits)
    then show ?thesis using inv in_get(1) wake by (auto simp: threads_inv_def Let_def)
  next
    case wait
    then have "session_inv m s" by (intro s) auto
    then show ?thesis using inv in_get(1) wait by (auto simp: threads_inv_def Let_def)
  next
    case expire
    then have "session_inv m s" by (intro s) auto
    then show ?thesis using inv in_get(1) expire by (auto simp: threads_inv_def Let_def)
  next
    case none
    then have "session_inv m s" by (intro s) auto
    then show ?thesis using inv in_get(1) none by (auto simp: threads_inv_def Let_def)
  qed
qed

lemma threads_inv_step: "threads_inv m segs c \<Longrightarrow> thread_step i c d \<Longrightarrow> threads_inv m segs d"
  by (cases i) (auto intro: threads_inv_put threads_inv_get)

section \<open>The helpful thread\<close>

definition helpful :: "client_threads \<Rightarrow> thread" where
  "helpful c = (case producers (shared c) 0 of
      PIdle \<Rightarrow> if todo c = [] then Playing else Downloading
    | PRun _ _ \<Rightarrow> Downloading
    | PWait _ _ \<Rightarrow> Playing)"

text \<open>What is left to do for the segments, and how far a get is from looking at the buffer.\<close>

definition put_phase :: "producer \<Rightarrow> nat" where
  "put_phase p = (case p of PIdle \<Rightarrow> 0 | PWait _ _ \<Rightarrow> 1 | PRun _ _ \<Rightarrow> 2)"

definition get_phase :: "consumer \<Rightarrow> nat" where
  "get_phase c = (if c_ready c then 0 else 1)"

definition work_left :: "client_threads \<Rightarrow> nat" where
  "work_left c = 4 * length (todo c) + put_phase (producers (shared c) 0) + 2 * (to_play c - length (taken (shared c)))"

definition rank :: "client_threads \<Rightarrow> nat" where
  "rank c = 3 * work_left c + (if gave_up c then 0 else 1) + (if helpful c = Playing then get_phase (consumers (shared c) 0) else 0)"

lemma phase_simps [simp]: "put_phase PIdle = 0" "put_phase (PWait seg b) = 1" "put_phase (PRun seg b) = 2"
  "get_phase CIdle = 1" "get_phase (CEnter b) = 0" "get_phase (CWait b) = 1" "get_phase CWoken = 0" "get_phase c \<le> 1"
  by (auto simp: put_phase_def get_phase_def c_ready_def)

lemma put_phase_notified: "put_phase (p_notified p) \<le> put_phase p + 1"
  by (cases p) (simp_all add: p_notified_def)

text \<open>Less work is a lower rank, whatever the player does.\<close>

lemma rank_less: "work_left d < work_left c \<Longrightarrow> gave_up d = gave_up c \<Longrightarrow> rank d < rank c"
  using phase_simps(8)[of "consumers (shared d) 0"] by (auto simp: rank_def)

text \<open>While the player is the helpful thread there is a segment for it.\<close>

lemma something_to_get:
  assumes "threads_inv m segs c" and "helpful c = Playing" and "\<not> all_played segs c"
  shows "queue (buf_state (shared c)) \<noteq> []" and "length (taken (shared c)) < to_play c"
    and "producers (shared c) 0 = PIdle \<and> todo c = [] \<or> p_waits (producers (shared c) 0)"
proof -
  show p: "producers (shared c) 0 = PIdle \<and> todo c = [] \<or> p_waits (producers (shared c) 0)"
    using assms(2) by (auto simp: helpful_def p_waits_def split: producer.splits if_splits)
  show q: "queue (buf_state (shared c)) \<noteq> []"
  proof (cases "p_waits (producers (shared c) 0)")
    case True
    then show ?thesis using assms(1) by (intro waiting_not_empty[of m]) (simp_all add: threads_inv_def Let_def)
  next
    case False
    then show ?thesis using p assms(1,3) by (auto simp: all_played_def threads_inv_def Let_def buffer_empty_def)
  qed
  have "\<exists>rest. segs = (taken (shared c) @ queue (buf_state (shared c))) @ rest" "to_play c = length segs"
    using assms(1) by (auto simp: threads_inv_def Let_def)
  then show "length (taken (shared c)) < to_play c" using q by auto
qed

lemma downloading_lowers:
  assumes inv: "threads_inv m segs c" and step: "thread_step Downloading c d"
  shows "work_left d < work_left c \<and> gave_up d = gave_up c"
  using step
proof cases
  case (next_put seg rest)
  then show ?thesis by (simp add: work_left_def)
next
  case next_fails
  then show ?thesis by (simp add: work_left_def)
next
  case (in_put seg s)
  have "\<forall>j. j \<noteq> 0 \<longrightarrow> consumers (shared c) j = CIdle" using inv by (simp add: threads_inv_def Let_def)
  with in_put(2-4) show ?thesis by (cases rule: in_put_cases) (simp_all add: work_left_def in_put(1,2))
qed

text \<open>A step of the player takes a segment, or gives up, or only moves the player.\<close>

lemma playing_moves:
  assumes inv: "threads_inv m segs c" and step: "thread_step Playing c d"
  shows "gave_up d = gave_up c \<and> work_left d < work_left c
    \<or> work_left d = work_left c \<and> helpful d = helpful c \<and> consumers (shared d) 0 = consumers (shared c) 0 \<and> gave_up d \<and> \<not> gave_up c
    \<or> (gave_up d = gave_up c \<and> work_left d = work_left c \<and> helpful d = helpful c
    \<and> (queue (buf_state (shared c)) \<noteq> [] \<longrightarrow> get_phase (consumers (shared d) 0) < get_phase (consumers (shared c) 0)))"
  using step
proof cases
  case next_get
  then show ?thesis by (simp add: work_left_def helpful_def)
next
  case give_up
  then show ?thesis by (simp add: work_left_def helpful_def)
next
  case (in_get s)
  have i: "timed_get (consumers (shared c) 0)" "one_producer (shared c)"
    and len: "stored (shared c) = taken (shared c) @ queue (buf_state (shared c))" "to_play c = length segs"
      "\<exists>rest. segs = stored (shared c) @ rest"
    using inv by (auto simp: threads_inv_def Let_def session_inv_def)
  have taken: "Suc (length (taken (shared c))) \<le> to_play c" if "queue (buf_state (shared c)) \<noteq> []"
    using that arg_cong[OF len(1), of length] len(2,3) by (cases "queue (buf_state (shared c))") auto
  from in_get(2-5) i show ?thesis
  proof (cases rule: in_get_cases)
    case wake
    then show ?thesis using put_phase_notified[of "producers (shared c) 0"] taken by (auto simp: work_left_def in_get(1))
  next
    case take
    then show ?thesis using taken by (auto simp: work_left_def in_get(1))
  qed (simp_all add: work_left_def helpful_def in_get(1))
qed

lemma downloading_can_move:
  assumes inv: "threads_inv m segs c" and "helpful c = Downloading"
  shows "\<exists>d. thread_step Downloading c d"
proof (cases "producers (shared c) 0")
  case PIdle
  then obtain seg rest where "todo c = seg # rest" using assms(2) by (cases "todo c") (auto simp: helpful_def)
  from next_put[OF PIdle this] show ?thesis by blast
next
  case (PRun seg timed)
  then have p: "producers (shared c) 0 = PRun seg False" using inv by (simp add: threads_inv_def Let_def)
  show ?thesis
  proof (cases "put_full (buf_state (shared c)) seg")
    case True
    from in_put[OF p put_wait[OF p True]] show ?thesis by auto
  next
    case False
    show ?thesis
    proof (cases "\<exists>k. c_waits (consumers (shared c) k)")
      case True
      then obtain k where "c_waits (consumers (shared c) k)" by blast
      from in_put[OF p put_notify[OF p False this]] show ?thesis by auto
    next
      case none: False
      then have "buffer_step (shared c) (do_store 0 seg (shared c))" using put_store[OF p False] by blast
      from in_put[OF p this] show ?thesis by auto
    qed
  qed
next
  case (PWait seg timed)
  then show ?thesis using assms(2) by (simp add: helpful_def)
qed

lemma playing_can_move:
  assumes inv: "threads_inv m segs c" and h: "helpful c = Playing" "\<not> settled segs c"
  shows "\<exists>d. thread_step Playing c d"
proof -
  have g: "\<not> all_played segs c" "\<not> gave_up c" using h(2) by (simp_all add: settled_def)
  note q = something_to_get[OF inv h(1) g(1)]
  have i: "timed_get (consumers (shared c) 0)" "one_producer (shared c)" using inv by (simp_all add: threads_inv_def Let_def session_inv_def)
  have take: "\<exists>d. thread_step Playing c d" if "c_ready (consumers (shared c) 0)"
  proof -
    have idle: "consumers (shared c) 0 \<noteq> CIdle" using that by (auto simp: c_ready_def)
    show ?thesis
    proof (cases "p_waits (producers (shared c) 0)")
      case True
      from in_get[OF idle get_notify[OF that q(1) True]] idle show ?thesis by auto
    next
      case False
      then have "\<forall>k. \<not> p_waits (producers (shared c) k)" using one_producer_waits[OF i(2)] by metis
      from in_get[OF idle get_take[OF that q(1) this]] idle show ?thesis by auto
    qed
  qed
  from i(1) consider "consumers (shared c) 0 = CIdle" | "consumers (shared c) 0 = CWait True" | "c_ready (consumers (shared c) 0)"
    by (auto simp: timed_get_def c_ready_def)
  then show ?thesis
  proof cases
    case 1
    with q(2) g(2) next_get[of c] show ?thesis by auto
  next
    case 2
    from in_get[OF _ get_expire[OF 2]] 2 show ?thesis by auto
  qed (rule take)
qed

lemma rank_moves:
  assumes inv: "threads_inv m segs c" and g: "\<not> settled segs c" and step: "thread_step i c d"
  shows "rank d < rank c \<or> helpful c \<noteq> i \<and> rank d = rank c \<and> helpful d = helpful c"
proof (cases i)
  case Downloading
  then show ?thesis using rank_less downloading_lowers[OF inv] step by auto
next
  case Playing
  have np: "\<not> all_played segs c" using g by (simp add: settled_def)
  from playing_moves[OF inv step[unfolded Playing]] show ?thesis
  proof (elim disjE)
    assume "gave_up d = gave_up c \<and> work_left d < work_left c"
    then show ?thesis using rank_less by blast
  next
    assume "work_left d = work_left c \<and> helpful d = helpful c \<and> consumers (shared d) 0 = consumers (shared c) 0 \<and> gave_up d \<and> \<not> gave_up c"
    then show ?thesis by (simp add: rank_def)
  next
    assume same: "gave_up d = gave_up c \<and> work_left d = work_left c \<and> helpful d = helpful c
      \<and> (queue (buf_state (shared c)) \<noteq> [] \<longrightarrow> get_phase (consumers (shared d) 0) < get_phase (consumers (shared c) 0))"
    show ?thesis using same something_to_get(1)[OF inv _ np] Playing by (cases "helpful c") (auto simp: rank_def)
  qed
qed

interpretation client: fair_progress thread_step "threads_inv m segs" "settled segs" helpful rank for m segs
proof
  fix c d i
  assume inv: "threads_inv m segs c"
  show "threads_inv m segs d" if "thread_step i c d" using threads_inv_step[OF inv that] .
  assume g: "\<not> settled segs c"
  show "\<exists>d. thread_step (helpful c) c d"
    using downloading_can_move[OF inv] playing_can_move[OF inv _ g] by (cases "helpful c") auto
  show "rank d < rank c" if "thread_step (helpful c) c d" using rank_moves[OF inv g that] by simp
  show "rank d < rank c \<or> rank d = rank c \<and> helpful d = helpful c" if "thread_step i c d" using rank_moves[OF inv g that] by blast
qed

section \<open>Properties\<close>

lemma client_start_inv:
  assumes "client_start m segs c" and "list_all (ticks_ok m) segs" and "m \<le> 2 ^ 42"
  shows "threads_inv m segs c"
proof -
  obtain b where b: "buffer_manager_init m = Inr b" and c: "c = \<lparr>shared = buffer_start b, todo = segs, to_play = length segs, failed = False, starved = True, gave_up = False\<rparr>"
    using assms(1) by (auto simp: client_start_def)
  have "session_inv m (buffer_start b)" by (rule session_inv_init) (use b in \<open>auto simp: run_init_def\<close>)
  moreover have "queue b = []" using b by (auto simp: buffer_manager_init_def split: if_splits)
  ultimately show ?thesis using assms(2,3) by (simp add: threads_inv_def c buffer_start_def)
qed

text \<open>The two threads of a session finish, unless the player gives up: if no segment is longer than the buffer and the durations are
  whole 1024ths of a second, then in every fair interleaving of the loop that downloads and the thread that
  plays, however often the player's calls time out, a moment comes at which every segment that was put has been
  played, no call of put is pending, and the buffer is empty: these are all the segments unless a download failed;
  and at every moment before it what has been played is a beginning of the list.\<close>

lemma client_threads_finish:
  assumes "client_start m segs (r 0)" and "list_all (ticks_ok m) segs" and "m \<le> 2 ^ 42"
    and "runs thread_step r" and "fair thread_step r"
  shows "((\<exists>n. gave_up (r n)) \<or> (\<exists>n. all_played segs (r n))) \<and> (\<forall>n. \<exists>rest. segs = taken (shared (r n)) @ rest)"
proof -
  note i = client_start_inv[OF assms(1-3)]
  have "\<exists>rest. segs = taken (shared (r n)) @ rest" for n
    using client.run_inv[OF assms(4) i, of n] by (auto simp: threads_inv_def Let_def)
  with client.reaches_goal[OF assms(4,5) i] show ?thesis by (auto simp: settled_def)
qed

text \<open>What has been taken stays taken; so a player that does not give up leaves the buffer empty from some moment on.\<close>

lemma taken_step: "thread_step i c d \<Longrightarrow> length (taken (shared c)) \<le> length (taken (shared d))"
  by (cases rule: thread_step.cases) (auto elim!: buffer_stepE simp: do_store_def do_take_def wake_consumer_def wake_producer_def)

lemma taken_run:
  assumes "runs thread_step r"
  shows "n \<le> k \<Longrightarrow> length (taken (shared (r n))) \<le> length (taken (shared (r k)))"
proof (induction k rule: dec_induct)
  case (step k)
  have "r (Suc k) = r k \<or> (\<exists>i. thread_step i (r k) (r (Suc k)))" using assms by (simp add: runs_def)
  then show ?case using step taken_step by fastforce
qed simp

lemma level_in_the_end:
  assumes "client_start m segs (r 0)" and "list_all (ticks_ok m) segs" and "m \<le> 2 ^ 42"
    and "runs thread_step r" and "all_played segs (r n)" "\<not> failed (r n)" and "n \<le> k"
  shows "level (buf_state (shared (r k))) = 0"
proof -
  have i: "threads_inv m segs (r k)" by (rule client.run_inv[OF assms(4) client_start_inv[OF assms(1-3)]])
  have "length segs \<le> length (taken (shared (r k)))" using taken_run[OF assms(4,7)] assms(5,6) by (auto simp: all_played_def)
  moreover have "\<exists>rest. segs = (taken (shared (r k)) @ queue (buf_state (shared (r k)))) @ rest" "exact m (buf_state (shared (r k)))"
    using i by (auto simp: threads_inv_def session_inv_def Let_def)
  ultimately show ?thesis by (auto simp: exact_def level_def)
qed

text \<open>A run with one segment: it is put, the player looks, takes it, and nothing is left to do.\<close>

definition empty_buffer :: buffer_manager where
  "empty_buffer = \<lparr>max_seconds = 60, queue = [], blevel = 0, dropped = 0\<rparr>"

definition one_segment_run :: "buffered_segment \<Rightarrow> nat \<Rightarrow> client_threads" where
  "one_segment_run p n =
     (let s0 = buffer_start empty_buffer; s1 = call_put p s0; s2 = do_store 0 p s1; s3 = call_get s2; s4 = do_take 0 s3;
          state = (\<lambda>s left w. \<lparr>shared = s, todo = left, to_play = 1, failed = False, starved = w, gave_up = False\<rparr>)
      in if n = 0 then state s0 [p] True else if n = 1 then state s1 [] True else if n = 2 then state s2 [] True
         else if n = 3 then state s3 [] True else state s4 [] False)"

lemma one_segment_run_steps:
  assumes "ticks_ok 60 p"
  shows "thread_step Downloading (one_segment_run p 0) (one_segment_run p 1)"
    "thread_step Downloading (one_segment_run p 1) (one_segment_run p 2)"
    "thread_step Playing (one_segment_run p 2) (one_segment_run p 3)"
    "thread_step Playing (one_segment_run p 3) (one_segment_run p 4)"
proof -
  let ?s = "one_segment_run p"
  show "thread_step Downloading (?s 0) (?s 1)"
    using next_put[of "?s 0" p "[]"] by (simp add: one_segment_run_def buffer_start_def)
  have "fl (bs_duration p) = bs_duration p" using assms by (intro fl_grid) (auto simp: ticks_ok_def)
  then have "\<not> put_full empty_buffer p" using assms by (simp add: put_full_def empty_buffer_def ticks_ok_def)
  then have "buffer_step (shared (?s 1)) (do_store 0 p (shared (?s 1)))"
    by (intro put_store[where timed = False]) (simp_all add: one_segment_run_def buffer_start_def c_waits_def)
  from in_put[OF _ this] show "thread_step Downloading (?s 1) (?s 2)" by (simp add: one_segment_run_def)
  show "thread_step Playing (?s 2) (?s 3)"
    using next_get[of "?s 2"] by (simp add: one_segment_run_def buffer_start_def)
  have "buffer_step (shared (?s 3)) (do_take 0 (shared (?s 3)))"
    by (rule get_take) (simp_all add: one_segment_run_def buffer_start_def c_ready_def p_waits_def)
  from in_get[OF _ this] show "thread_step Playing (?s 3) (?s 4)" by (simp add: one_segment_run_def waits_on_def)
qed

lemma one_segment_run_fair:
  assumes "ticks_ok 60 p"
  shows "client_start 60 [p] (one_segment_run p 0)" "runs thread_step (one_segment_run p)" "fair thread_step (one_segment_run p)"
proof -
  let ?s = "one_segment_run p"
  note steps = one_segment_run_steps[OF assms]
  show "client_start 60 [p] (?s 0)"
    by (simp add: client_start_def one_segment_run_def buffer_manager_init_def empty_buffer_def)
  have last: "?s n = ?s 4" if "4 \<le> n" for n using that by (simp add: one_segment_run_def)
  show "runs thread_step ?s"
  proof (unfold runs_def, intro allI)
    fix n :: nat
    consider "n = 0" | "n = 1" | "n = 2" | "n = 3" | "4 \<le> n" by linarith
    then show "?s (Suc n) = ?s n \<or> (\<exists>i. thread_step i (?s n) (?s (Suc n)))"
      using steps last[of n] last[of "Suc n"] by cases (auto simp: numeral_2_eq_2 numeral_3_eq_3 eval_nat_numeral)
  qed
  have "\<not> thread_step i (?s 4) c" for i c
    by (cases i) (simp_all add: downloading_simps playing_simps one_segment_run_def buffer_start_def)
  then show "fair thread_step ?s" unfolding fair_def by (metis last max.cobounded1 max.cobounded2)
qed

lemma client_threads_finish_example: "\<exists>n. all_played [minute] (one_segment_run minute n)"
proof -
  have "\<not> gave_up (one_segment_run minute n)" for n by (simp add: one_segment_run_def Let_def)
  then show ?thesis
    using client_threads_finish[OF one_segment_run_fair(1)[of minute] _ _ one_segment_run_fair(2,3)[of minute]] by simp
qed

section \<open>After the player has given up\<close>

text \<open>The loop is in a call of \<open>put\<close> that finds no room.\<close>

definition put_stuck :: "client_threads \<Rightarrow> bool" where
  "put_stuck c \<longleftrightarrow> (\<exists>seg. producers (shared c) 0 = PWait seg False
     \<or> producers (shared c) 0 = PRun seg False \<and> put_full (buf_state (shared c)) seg)"

lemma given_up_step:
  assumes inv: "threads_inv m segs c" and g: "gave_up c" "consumers (shared c) 0 = CIdle" and st: "put_stuck c"
    and step: "thread_step i c d"
  shows "gave_up d \<and> consumers (shared d) 0 = CIdle \<and> put_stuck d \<and> buf_state (shared d) = buf_state (shared c)
    \<and> stored (shared d) = stored (shared c) \<and> todo d = todo c"
proof -
  have ci: "\<forall>j. j \<noteq> 0 \<longrightarrow> consumers (shared c) j = CIdle" using inv by (simp add: threads_inv_def Let_def)
  from step show ?thesis
  proof cases
    case (in_put seg s)
    then have full: "put_full (buf_state (shared c)) seg" using st by (simp add: put_stuck_def)
    from in_put(3-5) ci show ?thesis
      by (cases rule: in_put_cases) (use full in_put(1,2) g in \<open>auto simp: put_stuck_def\<close>)
  qed (use g st in \<open>auto simp: put_stuck_def\<close>)
qed

text \<open>A player that has given up is outside of \<open>get\<close>.\<close>

lemma gave_up_idle:
  assumes "thread_step i c d" and "threads_inv m segs c" and "gave_up c \<longrightarrow> consumers (shared c) 0 = CIdle"
  shows "gave_up d \<longrightarrow> consumers (shared d) 0 = CIdle"
  using assms(1)
proof cases
  case (in_put seg s)
  have ci: "\<forall>j. j \<noteq> 0 \<longrightarrow> consumers (shared c) j = CIdle" using assms(2) by (simp add: threads_inv_def Let_def)
  from in_put(3-5) ci show ?thesis
    by (cases rule: in_put_cases) (use in_put assms(3) in \<open>auto simp: c_waits_def\<close>)
qed (use assms(3) in auto)

lemma gave_up_idle_run:
  assumes "client_start m segs (r 0)" and "list_all (ticks_ok m) segs" and "m \<le> 2 ^ 42" and "runs thread_step r"
  shows "gave_up (r n) \<longrightarrow> consumers (shared (r n)) 0 = CIdle"
proof (induction n)
  case 0
  then show ?case using assms(1) by (auto simp: client_start_def)
next
  case (Suc n)
  have "r (Suc n) = r n \<or> (\<exists>i. thread_step i (r n) (r (Suc n)))" using assms(4) by (simp add: runs_def)
  then show ?case
    using Suc gave_up_idle[OF _ client.run_inv[OF assms(4) client_start_inv[OF assms(1-3)]]] by metis
qed

text \<open>A player that has given up can leave the client waiting for good: from the moment at which the player has given up
  and the call of \<open>put\<close> finds no room, that call does not return in any interleaving whatever: nothing more is
  stored, the buffer stays as it is, and no further segment is asked for.\<close>

lemma gave_up_put_waits:
  assumes "client_start m segs (r 0)" and "list_all (ticks_ok m) segs" and "m \<le> 2 ^ 42" and "runs thread_step r"
    and "gave_up (r n)" and "put_stuck (r n)" and "n \<le> k"
  shows "put_stuck (r k) \<and> buf_state (shared (r k)) = buf_state (shared (r n)) \<and> stored (shared (r k)) = stored (shared (r n))
    \<and> todo (r k) = todo (r n)"
proof -
  have "gave_up (r k) \<and> put_stuck (r k) \<and> buf_state (shared (r k)) = buf_state (shared (r n))
      \<and> stored (shared (r k)) = stored (shared (r n)) \<and> todo (r k) = todo (r n)"
    using assms(7)
  proof (induction k rule: dec_induct)
    case (step k)
    have "r (Suc k) = r k \<or> (\<exists>i. thread_step i (r k) (r (Suc k)))" using assms(4) by (simp add: runs_def)
    moreover have "consumers (shared (r k)) 0 = CIdle" using gave_up_idle_run[OF assms(1-4)] step.IH by blast
    ultimately show ?case
      using given_up_step[OF client.run_inv[OF assms(4) client_start_inv[OF assms(1-3)]], of k] step.IH by metis
  qed (use assms(5,6) in simp)
  then show ?thesis by blast
qed

text \<open>A player that gives up at once, before a session of two segments of a minute each: the second one never fits.\<close>

definition given_up_run :: "nat \<Rightarrow> client_threads" where
  "given_up_run n =
     (let s0 = buffer_start empty_buffer; s1 = call_put minute s0; s2 = do_store 0 minute s1; s3 = call_put minute s2;
          state = (\<lambda>s left g. \<lparr>shared = s, todo = left, to_play = 2, failed = False, starved = True, gave_up = g\<rparr>)
      in if n = 0 then state s0 [minute, minute] False else if n = 1 then state s0 [minute, minute] True
         else if n = 2 then state s1 [minute] True else if n = 3 then state s2 [minute] True else state s3 [] True)"

lemma given_up_run_steps:
  "thread_step Playing (given_up_run 0) (given_up_run 1)"
  "thread_step Downloading (given_up_run 1) (given_up_run 2)"
  "thread_step Downloading (given_up_run 2) (given_up_run 3)"
  "thread_step Downloading (given_up_run 3) (given_up_run 4)"
proof -
  show "thread_step Playing (given_up_run 0) (given_up_run 1)"
    using give_up[of "given_up_run 0"] by (simp add: given_up_run_def buffer_start_def)
  show "thread_step Downloading (given_up_run 1) (given_up_run 2)"
    using next_put[of "given_up_run 1" minute "[minute]"] by (simp add: given_up_run_def buffer_start_def)
  have "\<not> put_full empty_buffer minute" by (simp add: put_full_def empty_buffer_def minute_def)
  then have "buffer_step (shared (given_up_run 2)) (do_store 0 minute (shared (given_up_run 2)))"
    by (intro put_store[where timed = False]) (simp_all add: given_up_run_def buffer_start_def c_waits_def)
  from in_put[OF _ this] show "thread_step Downloading (given_up_run 2) (given_up_run 3)" by (simp add: given_up_run_def)
  show "thread_step Downloading (given_up_run 3) (given_up_run 4)"
    using next_put[of "given_up_run 3" minute "[]"] by (simp add: given_up_run_def buffer_start_def)
qed

lemma gave_up_put_waits_example:
  "client_start 60 [minute, minute] (given_up_run 0) \<and> runs thread_step given_up_run \<and> put_stuck (given_up_run 4)
    \<and> stored (shared (given_up_run 9)) = [minute] \<and> put_stuck (given_up_run 9)"
proof -
  let ?s = given_up_run
  have st: "client_start 60 [minute, minute] (?s 0)"
    by (simp add: client_start_def given_up_run_def buffer_manager_init_def empty_buffer_def)
  have last: "?s n = ?s 4" if "4 \<le> n" for n using that by (simp add: given_up_run_def)
  have run: "runs thread_step ?s"
  proof (unfold runs_def, intro allI)
    fix n :: nat
    consider "n = 0" | "n = 1" | "n = 2" | "n = 3" | "4 \<le> n" by linarith
    then show "?s (Suc n) = ?s n \<or> (\<exists>i. thread_step i (?s n) (?s (Suc n)))"
      using given_up_run_steps last[of n] last[of "Suc n"] by cases (auto simp: numeral_2_eq_2 numeral_3_eq_3 eval_nat_numeral)
  qed
  have stuck: "put_stuck (?s 4)" and g: "gave_up (?s 4)" and one: "stored (shared (?s 4)) = [minute]"
    by (simp_all add: put_stuck_def given_up_run_def buffer_start_def put_full_def do_store_def put_append_def empty_buffer_def
        call_put_def minute_def)
  have t: "list_all (ticks_ok 60) [minute, minute]" "(60::real) \<le> 2 ^ 42" "(4::nat) \<le> 9" by simp_all
  from gave_up_put_waits[OF st t(1,2) run g stuck t(3)] show ?thesis using st run stuck one by simp
qed

end
