(* ===== verification/Spec2Isabelle.thy ===== *)
theory Spec2Isabelle
  imports Programs ClientThreads "HOL-Library.Sublist"
begin

text \<open>
  A verification development for the adaptive streaming program: a TCP video server (\<open>server/\<close>), a
  client that downloads segments of a video at a quality it chooses as it goes (\<open>client/\<close>), the
  protocol and the constants they share (\<open>common/\<close>), and the experiments on top of them
  (\<open>scripts/run_comparison.py\<close>, \<open>analysis/\<close>).

  How the program works.  \<open>run_session\<close> of \<open>client/client.py\<close> loops over the segments: the deadline
  scheduler names the next one, the ABR controller chooses a level of the bitrate ladder from the buffer
  level and the estimated throughput, the downloader requests the segment over one connection and
  measures the throughput (slowed down by the shaper when there is a profile), the segment is put into
  the bounded buffer, and every step is recorded in SQLite.  The playing thread takes the segments out of
  the buffer and records stalls.  On the server one thread accepts connections and one handler per
  connection serves them from a segment store with a cache.

  The theories, in the order of the code they model:
  \<^item> \<open>Prelude\<close>: exceptions as values (\<open>exn\<close>), results as sums, lists, reachable states and the locale
    \<open>machine_invariant\<close>, which every state machine below interprets; infinite runs, fairness, and the locale
    \<open>fair_progress\<close> for what such runs reach.
  \<^item> \<open>PyFloat\<close>, \<open>PyText\<close>, \<open>PyNumber\<close>, \<open>PyUtf8\<close>, \<open>World\<close>: what the code uses of Python.  Floats are reals on
    the binary64 grid (without overflow; the smallest exponent is there), every operation followed by \<open>fl\<close>, the
    correct rounding; \<open>xfloat\<close> adds infinities and NaN where text is parsed.  Strings are lists of code
    points, bytes lists of integers.  Clocks are arbitrary sequences of readings.
  \<^item> \<open>Config\<close>, \<open>Protocol\<close> (\<open>common/\<close>): constants; requests and response headers down to the bytes, with both
    round trips.
  \<^item> \<open>RequestParser\<close>, \<open>SegmentStore\<close>, \<open>ConnHandler\<close>, \<open>Server\<close> (\<open>server/\<close>): validation and reading of a
    request line from chunks; manifest, cache, files and generated segments; the request loop of a
    connection, where a send that fails may have sent a part of its bytes; and the server with its accept
    loops and handlers as one state machine whose steps are what a thread does between two points where another
    can interfere.  The lemmas show which lines are accepted, against the grammar of requests, that the
    cache is transparent, that the small steps of a handler agree with \<open>handler_run\<close>, that in every interleaving
    nothing is miscounted or mixed up, and what \<open>stop\<close> guarantees.
  \<^item> \<open>SocketClient\<close>, \<open>EndToEnd\<close>, \<open>Network\<close> (\<open>client/network/\<close>): the buffered reader and \<open>fetch\<close>; one request
    and its answer between client and handler; the shaper and the downloader with the bound on the reported throughput.
  \<^item> \<open>AbrBase\<close>, \<open>AbrRate\<close>, \<open>AbrBola\<close>, \<open>AbrHysteresis\<close>, \<open>AbrMpc\<close>, \<open>AbrFactory\<close> (\<open>client/abr/\<close>, \<open>make_abr\<close>): the
    controllers with their float arithmetic, monotonicity and optimality, and the locale
    \<open>abr_controller\<close> with what the session relies on.
  \<^item> \<open>Throughput\<close>, \<open>Qoe\<close> (\<open>client/throughput/\<close>, \<open>client/metrics/qoe.py\<close>): the estimators and the score.
  \<^item> \<open>HeapQueue\<close>, \<open>Scheduler\<close> (\<open>client/scheduler/\<close>): \<open>heapq\<close> of the standard library, with its two sifting
    loops, as an instance of the locale \<open>min_queue\<close>; the segment scheduler on it, which refines a queue that is
    first in, first out among equals, and the deadline scheduler, which hands out the segments in order.
  \<^item> \<open>Buffer\<close> (\<open>client/buffer/\<close>): the operations under the lock, and the threads that wait on its two
    conditions as a step relation; bounds, order, no lost wake-up, no deadlock.
  \<^item> \<open>Playback\<close> (\<open>client/playback/\<close>): the playing thread, its termination on a clock that goes on, and its
    report.
  \<^item> \<open>ClientThreads\<close>: the loop that downloads and the thread that plays as one system over the buffer, with the player that
    gives up after 600 seconds without a segment; every fair run of it plays everything unless the player gives up (an
    instance of \<open>fair_progress\<close>), and after that a call of \<open>put\<close> that finds no room never returns.
  \<^item> \<open>Collector\<close> (\<open>client/metrics/collector.py\<close>, the queries of \<open>analysis/analyze.py\<close>): the tables as lists of rows, keys and
    counters included.
  \<^item> \<open>Session\<close> (\<open>client/client.py\<close>): \<open>run_session\<close> as a composition of steps over the state of a session, each of
    which returns, raises, waits for ever (a \<open>put\<close> that never gets room), or leaves the model; its rules \<open>wp\<close> carry the
    invariant of the loop, and what is left of it when a step does not return.
  \<^item> \<open>ServedSession\<close>: the session against the server: rules \<open>surely\<close> for steps that must return, the stream of the answers, and
    that client and handler play a session out between each other while the player makes room again and again; and that
    segments longer than the buffer stop the client for ever.
  \<^item> \<open>Experiments\<close>, \<open>Comparison\<close> (\<open>scripts/\<close>, \<open>analysis/\<close>): the comparison, the rows of the table, the series of the figures;
    the table shows exactly what the sessions of the comparison reported, what a session that fails leaves in the
    database, and the comparison succeeds against servers that have the segments.
  \<^item> \<open>PyFormat\<close>, \<open>PyPath\<close>, \<open>ArgParse\<close>, \<open>JsonText\<close>: what the programs use of Python to talk to the user: fixed-point formatting and
    \<open>repr\<close> of floats (which reads back as the same float), paths, command lines, and JSON text with a reader
    that gets the same value back.
  \<^item> \<open>Report\<close>, \<open>CsvExport\<close> (\<open>analysis/analyze.py\<close>, \<open>scripts/run_comparison.py\<close>): the printed tables, whose columns line up and whose
    numbers are within half a unit of the last place, and the CSV export, which reads back value by value.
  \<^item> \<open>Drawing\<close> (\<open>analysis/plots.py\<close>): the calls on the axes of a figure as commands, with the points and bars they show.
  \<^item> \<open>Programs\<close>: the \<open>main\<close> of the client, the server, the analysis, the plots and the comparison: their options, what
    they call, print and write; that the command line never gives a value of the wrong type, that the client
    program plays out, that comparison and analysis print the same numbers, and that no figure overwrites another.
  This theory puts scheduler, session, buffer and playing thread together, and the store, the session and the two threads.

  Bounds.  Loops that may not end are partial functions (\<open>wait_loop\<close>, \<open>steady\<close>, and \<open>first_room\<close>, the wait of \<open>put\<close>), and when they end is a theorem;
  every other loop is a total function, by the length of what is left (an inbox, a list, a
  heap).  Only the reader of JSON that states the round trip has a bound, and the size of the value is enough.  The exact level of the buffer is for durations in whole 1024ths of a second and
  buffers up to 2 to the 42 seconds; the order of the scheduler for levels up to 2 to the 40 seconds,
  which \<open>buffer_level_ok\<close> shows of every level of the buffer.

  Parameters.  The file system, \<open>json.loads\<close>, \<open>random.Random\<close> (record \<open>host\<close>), sockets (what they
  deliver, how many sends they accept, and how much of a failing send goes out), clocks, and the scheduling of the
  threads.  Between the threads of a client the session sees only readings of the level, from which a \<open>put\<close> also
  learns when there is room, and the playing thread only the answers of \<open>get\<close>; the theorems below connect the three.

  Not modelled.  What matplotlib draws for the calls it gets (and the sizes and resolution of the figures) and the
  text that pandas writes are libraries that the code calls; what argparse and the interpreter write to the terminal when a program ends with an
  exception is left out, and so is an argument \<open>--\<close>; the SQL that \<open>MetricsCollector.query\<close> passes on is a parameter; the
  package files only re-export.  The clock of \<open>ClientThreads\<close> is left open: a player that waits for
  a segment may give up at any time.  Floats have no signed zero.  Numbers that are not finite leave the model of the shaper and of the buffered
  durations; overflow of floats is not modelled.  SQLite's failures other than closed connections,
  integers beyond 64 bits and NULL in a column that forbids it are left out, and so is a second
  process on the same file.
\<close>

section \<open>The threads of a client together\<close>

text \<open>The levels that the main thread reads are those of the buffer.\<close>

lemma buffer_level_ok:
  assumes "reachable (run_init 60) (run_step seconds_ok) bs"
  shows "level_ok (level (buf_state bs))"
proof -
  have "buffer_inv 60 bs" by (rule buffer.always[OF assms])
  then show ?thesis by (auto simp: buffer_inv_def fits_def level_ok_def level_def)
qed

text \<open>C5: From the scheduler to the screen: whatever the network and the interleaving of the threads, when the
  loop of a session has put segments, the buffer has stored the first of them, and the playing thread has
  got those that were taken out, then the segments played are 1, 2, 3, ... in order, none left out or
  repeated, and the report names the last of them and their number.\<close>

theorem plays_in_order:
  assumes "session_begin rc env = Ret (s, sid, t0)" and "surroundings_ok env"
    and "all_segments (profile_name rc) (iota (rc_segments rc)) s = (out, s')"
    and "reachable (run_init 60) (run_step seconds_ok) bs" and "prefix (stored bs) (ss_puts s')"
    and "playback_init n sp start w0 = (c, w)" and "playback_run c w = Some (r, c', w')"
    and "answered (answers w) (calls w) (calls w') = taken bs"
  shows "map bs_segment (taken bs) = map (\<lambda>i. i + 1) (iota (segments_played (join_session c')))
    \<and> last_segment (join_session c') = segments_played (join_session c')"
proof -
  obtain k where k: "map bs_segment (ss_puts s') = map (\<lambda>i. i + 1) (iota k)"
    using session_puts_in_order[OF assms(1-3)] by blast
  have "stored bs = taken bs @ queue (buf_state bs)"
    using buffer.always[OF assms(4)] by (simp add: buffer_inv_def)
  then have "prefix (taken bs) (stored bs)" by simp
  then have pre: "prefix (taken bs) (ss_puts s')" using assms(5) by (rule prefix_order.trans)
  then have "map bs_segment (taken bs) = take (length (taken bs)) (map (\<lambda>i. i + 1) (iota k))"
    unfolding k[symmetric] by (auto simp: prefix_def)
  also have "\<dots> = map (\<lambda>i. i + 1) (iota (int (length (taken bs))))"
    using arg_cong[OF k, of length] pre[THEN prefix_length_le]
    by (simp add: iota_def take_map)
  finally have t: "map bs_segment (taken bs) = map (\<lambda>i. i + 1) (iota (int (length (taken bs))))" .
  have a: "segments_played (join_session c') = int (length (taken bs))"
    "last_segment (join_session c') = (if taken bs = [] then 0 else bs_segment (last (taken bs)))"
    using playback_run_report[OF assms(6,7) assms(8)[symmetric]] by simp_all
  have "bs_segment (last (taken bs)) = int (length (taken bs))" if "taken bs \<noteq> []"
    using that arg_cong[OF t, of last] by (cases "length (taken bs)") (simp_all add: last_map iota_def)
  then show ?thesis using t a by simp
qed

text \<open>The session of one segment, its buffer after the segment went in and out, and its playback.\<close>

definition passed :: "buffered_segment \<Rightarrow> buffer_sys" where
  "passed p = \<lparr>buf_state = \<lparr>max_seconds = 60, queue = [], blevel = 0, dropped = 0\<rparr>, producers = \<lambda>_. PIdle,
     consumers = \<lambda>_. CIdle, stored = [p], taken = [p]\<rparr>"

lemma passed_reachable:
  assumes "bs_duration p = 2"
  shows "reachable (run_init 60) (run_step seconds_ok) (passed p)"
proof -
  let ?b = "\<lparr>max_seconds = 60, queue = [], blevel = 0, dropped = 0\<rparr>"
  let ?b' = "\<lparr>max_seconds = 60, queue = [p], blevel = 2, dropped = 0\<rparr>"
  let ?R = "reachable (run_init 60) (run_step seconds_ok)"
  have ok: "run_step seconds_ok s t" if "buffer_step s t" "asked seconds_ok t" for s t
    using that by (simp add: run_step_def)
  have "?R (buffer_start ?b)" by (rule reach_init) (simp add: run_init_def buffer_manager_init_def)
  then have "?R \<lparr>buf_state = ?b, producers = (\<lambda>_. PIdle)(0 := PRun p False), consumers = \<lambda>_. CIdle, stored = [], taken = []\<rparr>"
    by (rule reach_step) (rule ok, use put_call[of "buffer_start ?b" 0 p False] assms in
      \<open>simp_all add: buffer_start_def asked_def seconds_ok_def\<close>)
  then have "?R \<lparr>buf_state = ?b', producers = (\<lambda>_. PIdle), consumers = \<lambda>_. CIdle, stored = [p], taken = []\<rparr>"
    by (rule reach_step) (rule ok, use put_store[of "\<lparr>buf_state = ?b, producers = (\<lambda>_. PIdle)(0 := PRun p False),
        consumers = \<lambda>_. CIdle, stored = [], taken = []\<rparr>" 0 p False] assms in
      \<open>simp_all add: put_full_def do_store_def put_append_def c_waits_def asked_def fun_upd_idem\<close>)
  then have "?R \<lparr>buf_state = ?b', producers = (\<lambda>_. PIdle), consumers = (\<lambda>_. CIdle)(0 := CEnter False), stored = [p], taken = []\<rparr>"
    by (rule reach_step) (rule ok, use get_call[of "\<lparr>buf_state = ?b', producers = (\<lambda>_. PIdle), consumers = \<lambda>_. CIdle,
        stored = [p], taken = []\<rparr>" 0 False] in \<open>simp_all add: asked_def\<close>)
  then show ?thesis
    by (rule reach_step) (rule ok, use get_take[of "\<lparr>buf_state = ?b', producers = (\<lambda>_. PIdle),
        consumers = (\<lambda>_. CIdle)(0 := CEnter False), stored = [p], taken = []\<rparr>" 0] assms in
      \<open>simp_all add: asked_def c_ready_def p_waits_def do_take_def get_popleft_def passed_def fun_upd_idem\<close>)
qed

lemma plays_in_order_witness:
  "\<exists>s s' p c' w'. all_segments (profile_name one_config) (iota (rc_segments one_config)) s = (Ret (), s')
    \<and> ss_puts s' = [p] \<and> playback_run \<lparr>total_segments = 1, speed = 1, session_start = 0, report = playback_report_init,
         finished = False\<rparr> (play_env_at (\<lambda>_. 0) [p]) = Some (Inr (), c', w')
    \<and> segments_played (join_session c') = 1 \<and> last_segment (join_session c') = 1 \<and> bs_segment p = 1"
proof -
  let ?c = "\<lparr>total_segments = 1, speed = 1, session_start = 0, report = playback_report_init, finished = False\<rparr>"
  obtain s s' where s: "session_begin one_config one_surroundings = Ret (s, 1, 0)" "one_session s'"
    "all_segments (profile_name one_config) (iota (rc_segments one_config)) s = (Ret (), s')" using one_loop by blast
  have "map bs_segment (ss_puts s') = [1]"
    using session_puts_in_order[OF s(1) one_surroundings_ok s(3)] by (auto simp: one_config_def iota_def)
  then obtain p where p: "ss_puts s' = [p]" "bs_segment p = 1" by (cases "ss_puts s'") auto
  then have d: "bs_duration p = 2" using s(2) by (simp add: one_session_def)
  let ?w = "play_env_at (\<lambda>_. 0) [p]"
  let ?w' = "?w\<lparr>ticks := 4, calls := 1, sleeps := [2]\<rparr>"
  have i: "playback_init 1 1 (Some 0) ?w = (?c, ?w)"
    using fl_le_1[of "1 / 1000000"] by (simp add: playback_init_def not_less)
  have r: "playback_run ?c ?w = Some (Inr (), finish (played p ?c), ?w')"
    by (simp add: playback_run_def wait_for_segment_def wait_loop.simps steady.simps monotonic_def play_env_at_def
        buffer_get_def consume_def played_def play_time_def sleep_def playback_report_init_def finish_def d)
  have a: "answered (answers ?w) (calls ?w) (calls ?w') = taken (passed p)"
    by (simp add: answered_def List.map_filter_def play_env_at_def passed_def)
  have "prefix (stored (passed p)) (ss_puts s')" by (simp add: passed_def p)
  from plays_in_order[OF s(1) one_surroundings_ok s(3) passed_reachable[OF d] this i r a]
  have "[1] = map (\<lambda>i. i + 1) (iota (segments_played (join_session (finish (played p ?c)))))"
    "last_segment (join_session (finish (played p ?c))) = segments_played (join_session (finish (played p ?c)))"
    by (simp_all add: passed_def p(2))
  moreover have "segments_played (join_session (finish (played p ?c))) = 1"
    by (simp add: join_session_def finish_def played_def playback_report_init_def)
  ultimately show ?thesis using s(3) p r by (intro exI[of _ s] exI[of _ s'] exI[of _ p] exI[of _ "finish (played p ?c)"] exI[of _ ?w']) simp
qed

section \<open>From the store to the screen\<close>

lemma ticks_ok_seconds:
  assumes "matches p seg" and "seg_duration seg = Finite d" and "0 \<le> d" "d \<le> 60" "grid d"
  shows "ticks_ok 60 p"
  using assms by (auto simp: matches_def seconds_of_def or_two_def ticks_ok_def grid_def)

lemma from_store_seconds:
  assumes "from_store h sm segs" and "segment_duration sm = Finite d" and "seg \<in> set segs"
  shows "seg_duration seg = Finite d"
proof -
  have "resolve_fresh h sm (seg_rep seg, seg_id seg) = Inr (Some seg)"
    using assms(1,3) by (auto simp: from_store_def list_all_iff)
  from resolve_fresh_fields[OF this] assms(2) show ?thesis by simp
qed

text \<open>When the readings of the level are readings of the buffer in the course of a run in which no download fails and the
  player does not give up, room comes: the buffer is empty in the end.\<close>

lemma run_makes_room:
  assumes "client_start 60 ps (r 0)" "list_all (ticks_ok 60) ps" "runs thread_step r" "fair thread_step r"
    and "\<forall>n. \<not> failed (r n) \<and> \<not> gave_up (r n)" and "strict_mono t" and "d \<le> 60"
  shows "roomy (\<lambda>n. level (buf_state (shared (r (t n))))) d"
proof -
  obtain n where n: "all_played ps (r n)" using client_threads_finish[OF assms(1,2) _ assms(3,4)] assms(5) by auto
  have "\<not> full_at (\<lambda>n. level (buf_state (shared (r (t n))))) d (max n k)" for k
  proof -
    have "n \<le> t (max n k)" using seq_suble[OF assms(6), of "max n k"] by simp
    then have "level (buf_state (shared (r (t (max n k))))) = 0" using assms(5) by (intro level_in_the_end[OF assms(1,2) _ assms(3) n]) simp_all
    moreover have "fl d \<le> 60" using fl_mono[OF assms(7)] by simp
    ultimately show ?thesis by (simp add: full_at_def config_defs)
  qed
  then show ?thesis unfolding roomy_def by (meson max.cobounded1 max.cobounded2)
qed

text \<open>C2: From the store to the screen: take any fair interleaving of the downloading loop and the playing thread over the
  buffer, for segments of the store's duration, in which no download fails and the player never gives up, and let the levels
  that the session reads be those of this buffer at successive moments.  Then, for every configuration that the factory and
  the profile accept, and every store that has the ladder's segments with a duration in whole 1024ths of a second and at
  most a minute, there are segments of the store, numbered 1, 2, 3, ... up to the number asked for, such that the
  session returns on every connection that delivers the answers to them (no call of \<open>put\<close> waits for ever); and if
  they are the segments of the interleaving, a moment comes at which exactly these segments have been
  played, in order, at the levels at which they were downloaded, and nothing is left in the buffer.\<close>

theorem session_watched:
  assumes "can_start rc env h sm" and "surroundings_ok env"
    and "segment_duration sm = Finite d" and "0 \<le> d" "d \<le> 60" "grid d"
    and "client_start 60 ps (r 0)" "runs thread_step r" "fair thread_step r" and "\<forall>n. \<not> failed (r n) \<and> \<not> gave_up (r n)"
    and "list_all (\<lambda>p. bs_duration p = or_two d) ps"
    and "strict_mono t" "level_readings env = (\<lambda>n. level (buf_state (shared (r (t n)))))"
  shows "\<exists>segs result dbase. map seg_id segs = map (\<lambda>i. i + 1) (iota (rc_segments rc)) \<and> from_store h sm segs
    \<and> (\<forall>cn. delivers segs cn \<longrightarrow> client_plays rc env segs result dbase cn)
    \<and> (list_all2 matches ps segs \<longrightarrow>
         (\<exists>k. all_played ps (r k) \<and> map bs_segment (taken (shared (r k))) = map (\<lambda>i. i + 1) (iota (rc_segments rc))
            \<and> map bs_rep (taken (shared (r k))) = map seg_rep segs))"
proof -
  have w: "or_two d \<le> 60" "0 \<le> or_two d" "grid (or_two d)" using assms(4-6) by (auto simp: or_two_def grid_def)
  have t: "list_all (ticks_ok 60) ps" using assms(11) w by (auto simp: list_all_iff ticks_ok_def)
  have "room_comes env sm"
    using run_makes_room[OF assms(7) t assms(8-10,12) w(1)] by (simp add: room_comes_def assms(3,13))
  then have "can_play rc env h sm" using assms(1) by (simp add: can_play_def)
  from session_served[OF this assms(2)] obtain segs result dbase where s:
    "map seg_id segs = map (\<lambda>i. i + 1) (iota (rc_segments rc))" "from_store h sm segs"
    "\<forall>cn. delivers segs cn \<longrightarrow> client_plays rc env segs result dbase cn" by blast
  have "\<exists>k. all_played ps (r k) \<and> map bs_segment (taken (shared (r k))) = map seg_id segs
      \<and> map bs_rep (taken (shared (r k))) = map seg_rep segs" if m: "list_all2 matches ps segs"
  proof -
    obtain k where "all_played ps (r k)" using client_threads_finish[OF assms(7) t _ assms(8,9)] assms(10) by auto
    then have k: "all_played ps (r k)" "taken (shared (r k)) = ps" using assms(10) by (auto simp: all_played_def)
    have "map bs_segment ps = map seg_id segs" "map bs_rep ps = map seg_rep segs"
      using m by (induction ps segs) (auto simp: matches_def)
    with k show ?thesis by auto
  qed
  then show ?thesis using s by (intro exI[of _ segs] exI[of _ result] exI[of _ dbase]) simp
qed

text \<open>One segment of two seconds: the buffer of the run is read at every moment.\<close>

definition watched_segment :: buffered_segment where
  "watched_segment = \<lparr>bs_segment = 1, bs_rep = u ''360p'', bs_bitrate = 500000, bs_duration = 2, bs_size = 4, received_at = 0\<rparr>"

definition watched_surroundings :: surroundings where
  "watched_surroundings = one_surroundings\<lparr>level_readings := (\<lambda>n. level (buf_state (shared (one_segment_run watched_segment n))))\<rparr>"

lemma watched_levels: "level (buf_state (shared (one_segment_run watched_segment n))) \<in> {0, 2}"
  by (simp add: one_segment_run_def buffer_start_def empty_buffer_def level_def do_store_def put_append_def do_take_def get_popleft_def
      watched_segment_def call_put_def call_get_def Let_def)

lemma session_watched_witness:
  "\<exists>seg result dbase. seg_id seg = 1 \<and> from_store file_host sample_store [seg]
    \<and> (\<forall>cn. delivers [seg] cn \<longrightarrow> client_plays one_config watched_surroundings [seg] result dbase cn)
    \<and> (\<exists>k. all_played [watched_segment] (one_segment_run watched_segment k)
        \<and> map bs_segment (taken (shared (one_segment_run watched_segment k))) = [1])"
proof -
  let ?p = watched_segment and ?r = "one_segment_run watched_segment"
  have d: "segment_duration sample_store = Finite 2" by (simp add: sample_store_def)
  have g: "0 \<le> (2::real)" "2 \<le> (60::real)" "grid 2" by (simp_all add: grid_def)
  have "ticks_ok 60 ?p" by (simp add: ticks_ok_def watched_segment_def grid_def)
  note run = one_segment_run_fair[OF this]
  have quiet: "\<forall>n. \<not> failed (?r n) \<and> \<not> gave_up (?r n)" by (simp add: one_segment_run_def Let_def)
  have start: "can_start one_config watched_surroundings file_host sample_store"
    using three_segments_can_play
    by (simp add: can_play_def can_start_def three_segments_def shaper_of_def cfg_of_def one_config_def watched_surroundings_def)
  have lv: "level_ok (level (buf_state (shared (?r n))))" for n using watched_levels[of n] by (auto simp: level_ok_def)
  then have sur: "surroundings_ok watched_surroundings"
    using one_surroundings_ok by (simp add: surroundings_ok_def watched_surroundings_def)
  have dur: "list_all (\<lambda>p. bs_duration p = or_two 2) [?p]" by (simp add: watched_segment_def or_two_def)
  have mono: "strict_mono (\<lambda>n::nat. n)" "level_readings watched_surroundings = (\<lambda>n. level (buf_state (shared (?r n))))"
    by (simp_all add: strict_mono_def watched_surroundings_def)
  have one: "map (\<lambda>i. i + 1) (iota (rc_segments one_config)) = [1]" by (simp add: one_config_def iota_def)
  from session_watched[OF start sur d g run quiet dur mono, unfolded one] obtain segs result dbase where
    s: "map seg_id segs = [1]" "from_store file_host sample_store segs"
      "\<forall>cn. delivers segs cn \<longrightarrow> client_plays one_config watched_surroundings segs result dbase cn"
      "list_all2 matches [?p] segs \<longrightarrow> (\<exists>k. all_played [?p] (?r k) \<and> map bs_segment (taken (shared (?r k))) = [1]
        \<and> map bs_rep (taken (shared (?r k))) = map seg_rep segs)"
    by (elim exE conjE) (rule that)
  obtain seg where seg: "segs = [seg]" "seg_id seg = 1" using s(1) by (cases segs) auto
  have f: "seg_duration seg = Finite 2" using from_store_seconds[OF s(2) d] seg(1) by simp
  have rep: "seg_rep seg = u ''360p''"
  proof -
    obtain cn where "delivers [seg] cn" using delivers_possible by blast
    then obtain s0 sid t0 s1 where p: "session_begin one_config (watched_surroundings\<lparr>peer := Inr cn\<rparr>) = Ret (s0, sid, t0)"
      "all_segments (profile_name one_config) (iota (rc_segments one_config)) s0 = (Ret (), s1)" "list_all2 matches (ss_puts s1) [seg]"
      using s(3) unfolding client_plays_def seg(1) by blast
    have "surroundings_ok (watched_surroundings\<lparr>peer := Inr cn\<rparr>)" using sur by (simp add: surroundings_ok_def)
    from one_lowest[OF p(1) this p(2)] p(3) show ?thesis by (auto simp: matches_def simp del: u_simps)
  qed
  have "length (seg_data seg) = 4"
  proof -
    have "resolve_fresh file_host sample_store (seg_rep seg, 1) = Inr (Some seg)" using s(2) seg by (simp add: from_store_def)
    then show ?thesis using rep by (auto simp: resolve_fresh_eq read_or_generate_def file_host_def sample_store_def
        split: option.splits if_splits sum.splits)
  qed
  then have m: "matches ?p seg" using rep f seg(2) by (simp add: matches_def watched_segment_def seconds_of_def or_two_def)
  then have "list_all2 matches [?p] segs" by (simp add: seg(1))
  from s(4)[rule_format, OF this] have "\<exists>k. all_played [?p] (?r k) \<and> map bs_segment (taken (shared (?r k))) = [1]"
    by (elim exE conjE) (intro exI conjI, assumption+)
  then show ?thesis using s(2,3) seg by (intro exI[of _ seg] exI[of _ result] exI[of _ dbase]) (simp del: u_simps)
qed

end
